(* ===== verification/VPrelude.thy ===== *)
theory VPrelude
  imports Main "HOL-Library.Word"
begin

text \<open>
  Shared vocabulary of the development: the machine integer types of the C sources, the two
  failure kinds every operation can end in, and the generic lemmas on functions, lists and
  arithmetic that the component theories rely on.

  \<^item> \<open>fault\<close> is the reason why a C operation does not return normally.  \<open>Bug_on\<close> is a failed
    \<^verbatim>\<open>NVMEV_ASSERT\<close> / \<^verbatim>\<open>BUG_ON\<close>, \<open>Null_deref\<close> a read or write through a NULL pointer,
    \<open>Out_of_bounds\<close> an access past an allocated array, \<open>Div_by_zero\<close> an integer division by
    zero, \<open>Deadlock\<close> a spin lock that is taken while it is already held, \<open>Diverges\<close> a loop that
    does not end and \<open>Uninitialised\<close> the use of a local variable that was never assigned.
  \<^item> \<open>'a result\<close> is \<open>fault + 'a\<close>; \<open>\<bind>\<close> of the sum type is written out as
    \<open>bindR\<close>.
\<close>

type_synonym u8 = "8 word"
type_synonym u16 = "16 word"
type_synonym u32 = "32 word"
type_synonym u64 = "64 word"

datatype fault = Bug_on | Null_deref | Out_of_bounds | Div_by_zero | Deadlock | Diverges | Uninitialised

type_synonym 'a result = "fault + 'a"

named_theorems res_simps \<open>equations of the result type\<close>
named_theorems frame_simps \<open>fields an operation leaves alone\<close>

definition bindR :: "'a result \<Rightarrow> ('a \<Rightarrow> 'b result) \<Rightarrow> 'b result" where
  "bindR m f = (case m of Inl e \<Rightarrow> Inl e | Inr x \<Rightarrow> f x)"

definition assertR :: "bool \<Rightarrow> fault \<Rightarrow> unit result" where
  "assertR b e = (if b then Inr () else Inl e)"

lemma bindR_Inl [simp, res_simps]: "bindR (Inl e) f = Inl e"
  by (simp add: bindR_def)

lemma bindR_Inr [simp, res_simps]: "bindR (Inr x) f = f x"
  by (simp add: bindR_def)

lemma bindR_eq_Inr [res_simps]: "bindR m f = Inr y \<longleftrightarrow> (\<exists>x. m = Inr x \<and> f x = Inr y)"
  by (cases m) (auto simp: bindR_def)

lemma bindR_InrE:
  assumes "bindR m f = Inr y"
  obtains x where "m = Inr x" "f x = Inr y"
  using assms by (auto simp: bindR_eq_Inr)

text \<open>For evaluating a concrete run: do not look into a continuation before its argument is known.\<close>

lemma bindR_weak: "m = m' \<Longrightarrow> bindR m f = bindR m' f"
  by simp

lemma bindR_cong [fundef_cong]:
  "m = m' \<Longrightarrow> (\<And>x. m' = Inr x \<Longrightarrow> f x = f' x) \<Longrightarrow> bindR m f = bindR m' f'"
  by (cases m') (auto simp: bindR_def)

lemma assertR_eq_Inr [simp, res_simps]: "assertR b e = Inr u \<longleftrightarrow> b"
  by (simp add: assertR_def)

lemma assertR_True [simp]: "assertR True e = Inr ()"
  by (simp add: assertR_def)

lemma assertR_False [simp]: "assertR False e = Inl e"
  by (simp add: assertR_def)

subsection \<open>C arithmetic helpers\<close>

text \<open>\<^verbatim>\<open>DIV_ROUND_UP\<close> of the kernel headers on 64-bit operands.\<close>

definition DIV_ROUND_UP :: "u64 \<Rightarrow> u64 \<Rightarrow> u64" where
  "DIV_ROUND_UP n d = (n + d - 1) div d"

subsection \<open>Generic lemmas\<close>

lemma sum_fun_upd_swap:
  fixes f :: "'b \<Rightarrow> nat"
  assumes "finite A" "p \<in> A"
  shows "(\<Sum>i\<in>A. f ((g(p := x)) i)) + f (g p) = (\<Sum>i\<in>A. f (g i)) + f x"
proof -
  have "(\<Sum>i\<in>A. f ((g(p := x)) i)) = f x + (\<Sum>i\<in>A - {p}. f (g i))"
    using assms by (simp add: sum.remove)
  moreover have "(\<Sum>i\<in>A. f (g i)) = f (g p) + (\<Sum>i\<in>A - {p}. f (g i))"
    using assms by (simp add: sum.remove)
  ultimately show ?thesis by simp
qed

lemma mod_add_distinct:
  assumes "(h::nat) < N" "j < N" "k < N" "(h + j) mod N = (h + k) mod N"
  shows "j = k"
  using assms by (auto simp: mod_if split: if_splits)

lemma unat_ucast_8_32 [simp]: "unat (ucast (a :: u8) :: u32) = unat a"
proof -
  have "unat a < 2 ^ LENGTH(8)" by (rule unsigned_less)
  then show ?thesis by (simp add: unsigned_ucast_eq take_bit_nat_eq_self)
qed

lemma unat_ucast_32_8: "unat a < 256 \<Longrightarrow> unat (ucast (a :: u32) :: u8) = unat a"
  by (simp add: unsigned_ucast_eq take_bit_nat_eq_self)

lemma unat_u8_less [simp]: "unat (a :: u8) < 256"
  using unsigned_less [of a] by simp

lemma unat_u32_less [simp]: "unat (a :: u32) < 4294967296"
  using unsigned_less [of a] by simp

lemma unat_u64_less [simp]: "unat (a :: u64) < 18446744073709551616"
  using unsigned_less [of a] by simp

lemma unat_add_u32: "unat a + unat b < 4294967296 \<Longrightarrow> unat (a + b :: u32) = unat a + unat b"
  using unat_add_lem [of a b] by simp

lemma unat_add_u64:
  "unat a + unat b < 18446744073709551616 \<Longrightarrow> unat (a + b :: u64) = unat a + unat b"
  using unat_add_lem [of a b] by simp

lemma sint_small: "unat (w :: u32) < 2147483648 \<Longrightarrow> sint w = int (unat w)"
proof -
  assume w: "unat w < 2147483648"
  have "- (2 ^ 31) \<le> int n \<and> int n < 2 ^ 31" if "n < 2147483648" for n using that by simp
  from this [OF w] have "signed_take_bit 31 (int (unat w)) = int (unat w)"
    by (intro signed_take_bit_int_eq_self) simp_all
  then show ?thesis by (simp add: sint_uint)
qed

lemma sint_of_int_small: "- 2147483648 \<le> k \<Longrightarrow> k < 2147483648 \<Longrightarrow> sint (word_of_int k :: u32) = k"
  by (simp add: signed_of_int signed_take_bit_int_eq_self)

lemma nth_update_field: "g y = g (xs ! x) \<Longrightarrow> g (xs[x := y] ! i) = g (xs ! i)"
  by (cases "i = x \<and> x < length xs") (auto simp: list_update_beyond not_less)

end
