(* ===== verification/Fifo.thy ===== *)
theory Fifo
  imports VPrelude
begin

text \<open>
  The ring buffer of \<^verbatim>\<open>nvmevirt/fifo.c\<close>, in which the FTL queues the cached hash table
  sections for eviction.  The file-level ring \<^verbatim>\<open>rb\<close> and the file-level spin lock
  \<^verbatim>\<open>fifo_spin\<close> are the state; a queued pointer is a value of type \<open>'a\<close>.  The \<^verbatim>\<open>struct fifo\<close>
  handle of the interface is never read by the code.  Head and tail are C ints that stay below
  \<open>RING_BUFFER_SIZE\<close>, so they are naturals.  A spin lock that is already held when it is taken
  is the fault \<open>Deadlock\<close>.
\<close>

definition RING_BUFFER_SIZE :: nat where
  "RING_BUFFER_SIZE = 600000"

record 'a ring_buffer =
  rb_buffer :: "nat \<Rightarrow> 'a"
  rb_head :: nat
  rb_tail :: nat
  rb_lock :: bool

record 'a fifo_state =
  fs_rb :: "'a ring_buffer"
  fifo_spin :: bool

definition rb_init :: "'a ring_buffer \<Rightarrow> 'a ring_buffer" where
  "rb_init rb = rb\<lparr>rb_head := 0, rb_tail := 0, rb_lock := False\<rparr>"

definition rb_is_full :: "'a ring_buffer \<Rightarrow> bool" where
  "rb_is_full rb \<longleftrightarrow> (rb_head rb + 1) mod RING_BUFFER_SIZE = rb_tail rb"

definition rb_is_empty :: "'a ring_buffer \<Rightarrow> bool" where
  "rb_is_empty rb \<longleftrightarrow> rb_head rb = rb_tail rb"

definition rb_push :: "'a ring_buffer \<Rightarrow> 'a \<Rightarrow> int \<times> 'a ring_buffer" where
  "rb_push rb data =
     (if rb_is_full rb then (-1, rb)
      else (0, rb\<lparr>rb_buffer := (rb_buffer rb)(rb_head rb := data),
                  rb_head := (rb_head rb + 1) mod RING_BUFFER_SIZE\<rparr>))"

definition rb_pop :: "'a ring_buffer \<Rightarrow> 'a option \<times> 'a ring_buffer" where
  "rb_pop rb =
     (if rb_is_empty rb then (None, rb)
      else (Some (rb_buffer rb (rb_tail rb)),
            rb\<lparr>rb_tail := (rb_tail rb + 1) mod RING_BUFFER_SIZE\<rparr>))"

definition fifo_init :: "'a fifo_state \<Rightarrow> 'a fifo_state" where
  "fifo_init fs = fs\<lparr>fs_rb := rb_init (fs_rb fs)\<rparr>"

text \<open>\<^verbatim>\<open>fifo_enqueue\<close> drops the status of \<^verbatim>\<open>rb_push\<close> and always answers \<open>0xA\<close>.\<close>

definition fifo_enqueue :: "'a fifo_state \<Rightarrow> 'a \<Rightarrow> (nat \<times> 'a fifo_state) result" where
  "fifo_enqueue fs data =
     (if fifo_spin fs then Inl Deadlock
      else let fs1 = fs\<lparr>fifo_spin := True\<rparr>;
               fs2 = fs1\<lparr>fs_rb := snd (rb_push (fs_rb fs1) data)\<rparr>;
               fs3 = fs2\<lparr>fifo_spin := False\<rparr>
           in Inr (0xA, fs3))"

definition fifo_dequeue :: "'a fifo_state \<Rightarrow> ('a option \<times> 'a fifo_state) result" where
  "fifo_dequeue fs =
     (if fifo_spin fs then Inl Deadlock
      else let fs1 = fs\<lparr>fifo_spin := True\<rparr>
           in if rb_is_empty (fs_rb fs1) then Inr (None, fs1\<lparr>fifo_spin := False\<rparr>)
              else let (ret, rb2) = rb_pop (fs_rb fs1)
                   in Inr (ret, fs1\<lparr>fs_rb := rb2, fifo_spin := False\<rparr>))"

text \<open>\<^verbatim>\<open>fifo_destroy\<close> returns before its loop.\<close>

definition fifo_destroy :: "'a fifo_state \<Rightarrow> 'a fifo_state" where
  "fifo_destroy fs = fs"

subsection \<open>The contract of a bounded queue\<close>

text \<open>
  A bounded queue holds a list of at most \<open>cap\<close> values.  Inserting into a full queue loses the
  new value; removing takes the oldest one.
\<close>

datatype 'a queue_op = Enqueue 'a | Dequeue

fun spec_step :: "nat \<Rightarrow> 'a list \<Rightarrow> 'a queue_op \<Rightarrow> 'a option \<times> 'a list" where
  "spec_step cap xs (Enqueue x) = (None, if length xs < cap then xs @ [x] else xs)"
| "spec_step cap [] Dequeue = (None, [])"
| "spec_step cap (x # xs) Dequeue = (Some x, xs)"

fun spec_run :: "nat \<Rightarrow> 'a list \<Rightarrow> 'a queue_op list \<Rightarrow> 'a option list \<times> 'a list" where
  "spec_run cap xs [] = ([], xs)"
| "spec_run cap xs (opn # ops) =
     (let (out, xs1) = spec_step cap xs opn; (outs, xs2) = spec_run cap xs1 ops
      in (out # outs, xs2))"

fun queue_run ::
  "('q \<Rightarrow> 'a \<Rightarrow> (nat \<times> 'q) result) \<Rightarrow> ('q \<Rightarrow> ('a option \<times> 'q) result) \<Rightarrow>
   'q \<Rightarrow> 'a queue_op list \<Rightarrow> ('a option list \<times> 'q) result" where
  "queue_run enq deq q [] = Inr ([], q)"
| "queue_run enq deq q (Enqueue x # ops) =
     bindR (enq q x) (\<lambda>(_, q1). bindR (queue_run enq deq q1 ops)
       (\<lambda>(outs, q2). Inr (None # outs, q2)))"
| "queue_run enq deq q (Dequeue # ops) =
     bindR (deq q) (\<lambda>(out, q1). bindR (queue_run enq deq q1 ops)
       (\<lambda>(outs, q2). Inr (out # outs, q2)))"

locale bounded_queue =
  fixes enq :: "'q \<Rightarrow> 'a \<Rightarrow> (nat \<times> 'q) result"
    and deq :: "'q \<Rightarrow> ('a option \<times> 'q) result"
    and contents :: "'q \<Rightarrow> 'a list"
    and invar :: "'q \<Rightarrow> bool"
    and cap :: nat
  assumes enq_ok: "invar q \<Longrightarrow> \<exists>r q'. enq q x = Inr (r, q') \<and> invar q' \<and>
        contents q' = snd (spec_step cap (contents q) (Enqueue x))"
    and deq_ok: "invar q \<Longrightarrow> \<exists>q'. deq q = Inr (fst (spec_step cap (contents q) Dequeue), q') \<and>
        invar q' \<and> contents q' = snd (spec_step cap (contents q) Dequeue)"
    and contents_cap: "invar q \<Longrightarrow> length (contents q) \<le> cap"
begin

lemma run_simulates:
  "invar q \<Longrightarrow> \<exists>q'. queue_run enq deq q ops = Inr (fst (spec_run cap (contents q) ops), q') \<and>
     invar q' \<and> contents q' = snd (spec_run cap (contents q) ops)"
proof (induction ops arbitrary: q)
  case Nil
  then show ?case by simp
next
  case (Cons opn ops)
  show ?case
  proof (cases opn)
    case (Enqueue x)
    obtain r q1 where q1: "enq q x = Inr (r, q1)" "invar q1"
      "contents q1 = snd (spec_step cap (contents q) (Enqueue x))"
      using enq_ok [OF Cons.prems, of x] by blast
    show ?thesis using Cons.IH [OF q1(2)] q1 Enqueue by (auto simp: split_def Let_def)
  next
    case Dequeue
    obtain q1 where q1: "deq q = Inr (fst (spec_step cap (contents q) Dequeue), q1)" "invar q1"
      "contents q1 = snd (spec_step cap (contents q) Dequeue)"
      using deq_ok [OF Cons.prems] by blast
    show ?thesis using Cons.IH [OF q1(2)] q1 Dequeue by (auto simp: split_def Let_def)
  qed
qed

end

subsection \<open>The ring buffer implements a bounded queue\<close>

definition rb_count :: "'a ring_buffer \<Rightarrow> nat" where
  "rb_count rb = (rb_head rb + RING_BUFFER_SIZE - rb_tail rb) mod RING_BUFFER_SIZE"

definition rb_list :: "'a ring_buffer \<Rightarrow> 'a list" where
  "rb_list rb = map (\<lambda>k. rb_buffer rb ((rb_tail rb + k) mod RING_BUFFER_SIZE)) [0..<rb_count rb]"

definition rb_wf :: "'a ring_buffer \<Rightarrow> bool" where
  "rb_wf rb \<longleftrightarrow> rb_head rb < RING_BUFFER_SIZE \<and> rb_tail rb < RING_BUFFER_SIZE"

definition fifo_wf :: "'a fifo_state \<Rightarrow> bool" where
  "fifo_wf fs \<longleftrightarrow> rb_wf (fs_rb fs) \<and> \<not> fifo_spin fs"

lemma ring_pos: "0 < RING_BUFFER_SIZE" "1 < RING_BUFFER_SIZE"
  by (simp_all add: RING_BUFFER_SIZE_def)

lemma rb_count_less: "rb_count rb < RING_BUFFER_SIZE"
  by (simp add: rb_count_def ring_pos)

lemma length_rb_list [simp]: "length (rb_list rb) = rb_count rb"
  by (simp add: rb_list_def)

text \<open>Distances on a ring of size \<open>N\<close>: one step of the head or of the tail.\<close>

lemma ring_dist:
  assumes "(h::nat) < N" "t < N"
  shows "(h + N - t) mod N = (if t \<le> h then h - t else h + N - t)"
proof (cases "t \<le> h")
  case True
  then have "h + N - t = (h - t) + N" by simp
  then have "(h + N - t) mod N = (h - t) mod N" by (metis mod_add_self2)
  then show ?thesis using True assms by simp
qed (use assms in auto)

lemma ring_succ: "h < N \<Longrightarrow> Suc h mod N = (if Suc h = N then 0 else Suc h)"
  by auto

lemma rb_empty_count: "rb_wf rb \<Longrightarrow> rb_is_empty rb \<longleftrightarrow> rb_count rb = 0"
  by (auto simp: rb_wf_def rb_is_empty_def rb_count_def ring_dist)

lemma rb_full_count: "rb_wf rb \<Longrightarrow> rb_is_full rb \<longleftrightarrow> rb_count rb = RING_BUFFER_SIZE - 1"
  using ring_pos by (auto simp: rb_wf_def rb_is_full_def rb_count_def ring_dist ring_succ split: if_splits)

lemma ring_push_count:
  assumes "h < N" "t < N" "(h + 1) mod N \<noteq> t"
  shows "((h + 1) mod N + N - t) mod N = Suc ((h + N - t) mod N)" "(t + (h + N - t) mod N) mod N = h"
  using assms by (auto simp: ring_succ ring_dist split: if_splits)

lemma ring_pop_count:
  assumes "(h::nat) < N" "t < N" "h \<noteq> t"
  shows "(h + N - t) mod N = Suc ((h + N - (t + 1) mod N) mod N)"
  using assms by (auto simp: ring_succ ring_dist split: if_splits)

lemma ring_distinct:
  assumes "(t::nat) < N" "k < n" "n < N"
  shows "(t + k) mod N \<noteq> (t + n) mod N"
  using assms by (auto simp: mod_if)

lemma rb_push_refines:
  assumes "rb_wf rb" "\<not> rb_is_full rb"
  shows "rb_wf (snd (rb_push rb x)) \<and> rb_list (snd (rb_push rb x)) = rb_list rb @ [x]"
proof -
  let ?N = RING_BUFFER_SIZE
  let ?n = "rb_count rb"
  have wf: "rb_head rb < ?N" "rb_tail rb < ?N" "(rb_head rb + 1) mod ?N \<noteq> rb_tail rb"
    using assms by (simp_all add: rb_wf_def rb_is_full_def)
  note c = ring_push_count [OF wf, folded rb_count_def]
  have "(rb_tail rb + k) mod ?N \<noteq> rb_head rb" if "k < ?n" for k
    using ring_distinct [OF wf(2) that rb_count_less] c(2) by simp
  then show ?thesis
    using assms wf c ring_pos by (simp add: rb_push_def rb_list_def rb_wf_def rb_count_def)
qed

lemma rb_pop_refines:
  assumes "rb_wf rb" "\<not> rb_is_empty rb"
  shows "rb_wf (snd (rb_pop rb)) \<and> rb_list rb = the (fst (rb_pop rb)) # rb_list (snd (rb_pop rb))"
proof -
  let ?N = RING_BUFFER_SIZE
  have wf: "rb_head rb < ?N" "rb_tail rb < ?N" "rb_head rb \<noteq> rb_tail rb"
    using assms by (simp_all add: rb_wf_def rb_is_empty_def)
  have c: "rb_count rb = Suc (rb_count (snd (rb_pop rb)))"
    using ring_pop_count [OF wf] assms by (simp add: rb_count_def rb_pop_def)
  have "((rb_tail rb + 1) mod ?N + k) mod ?N = (rb_tail rb + Suc k) mod ?N" for k
    by (simp add: mod_add_left_eq)
  then show ?thesis
    unfolding rb_list_def c upt_conv_Cons [OF zero_less_Suc] map_Suc_upt [symmetric]
    using assms wf ring_pos by (simp add: rb_pop_def rb_wf_def)
qed

lemma fifo_enqueue_refines:
  assumes "fifo_wf fs"
  shows "\<exists>r fs'. fifo_enqueue fs x = Inr (r, fs') \<and> fifo_wf fs' \<and>
    rb_list (fs_rb fs') = snd (spec_step (RING_BUFFER_SIZE - 1) (rb_list (fs_rb fs)) (Enqueue x))"
proof (cases "rb_is_full (fs_rb fs)")
  case True
  then show ?thesis
    using assms rb_full_count [of "fs_rb fs"]
    by (auto simp: fifo_enqueue_def fifo_wf_def rb_push_def)
next
  case False
  have "rb_count (fs_rb fs) < RING_BUFFER_SIZE - 1"
    using False assms rb_full_count [of "fs_rb fs"] rb_count_less [of "fs_rb fs"]
    by (auto simp: fifo_wf_def)
  then show ?thesis
    using False assms rb_push_refines [of "fs_rb fs" x] by (auto simp: fifo_enqueue_def fifo_wf_def)
qed

lemma fifo_dequeue_refines:
  assumes "fifo_wf fs"
  shows "\<exists>fs'. fifo_dequeue fs =
      Inr (fst (spec_step cap (rb_list (fs_rb fs)) Dequeue), fs') \<and> fifo_wf fs' \<and>
    rb_list (fs_rb fs') = snd (spec_step cap (rb_list (fs_rb fs)) Dequeue)"
proof (cases "rb_is_empty (fs_rb fs)")
  case True
  then have "rb_list (fs_rb fs) = []"
    using assms rb_empty_count by (auto simp: fifo_wf_def rb_list_def)
  then show ?thesis using True assms by (auto simp: fifo_dequeue_def fifo_wf_def)
next
  case False
  then show ?thesis
    using assms rb_pop_refines [of "fs_rb fs"]
    by (auto simp: fifo_dequeue_def fifo_wf_def split_def rb_pop_def)
qed

interpretation ring: bounded_queue fifo_enqueue fifo_dequeue "\<lambda>fs. rb_list (fs_rb fs)" fifo_wf
  "RING_BUFFER_SIZE - 1"
proof unfold_locales
  fix q :: "'a fifo_state" and x
  assume wf: "fifo_wf q"
  show "\<exists>r q'. fifo_enqueue q x = Inr (r, q') \<and> fifo_wf q' \<and>
      rb_list (fs_rb q') = snd (spec_step (RING_BUFFER_SIZE - 1) (rb_list (fs_rb q)) (Enqueue x))"
    using wf by (rule fifo_enqueue_refines)
  show "\<exists>q'. fifo_dequeue q =
      Inr (fst (spec_step (RING_BUFFER_SIZE - 1) (rb_list (fs_rb q)) Dequeue), q') \<and> fifo_wf q' \<and>
      rb_list (fs_rb q') = snd (spec_step (RING_BUFFER_SIZE - 1) (rb_list (fs_rb q)) Dequeue)"
    using wf by (rule fifo_dequeue_refines)
  show "length (rb_list (fs_rb q)) \<le> RING_BUFFER_SIZE - 1"
    using rb_count_less [of "fs_rb q"] by simp
qed

lemma fifo_init_empty:
  "\<not> fifo_spin fs \<Longrightarrow> fifo_wf (fifo_init fs) \<and> rb_list (fs_rb (fifo_init fs)) = []"
  by (simp add: fifo_wf_def fifo_init_def rb_init_def rb_wf_def rb_list_def rb_count_def ring_pos)

subsection \<open>Properties\<close>

text \<open>
  \<^bold>\<open>C30.\<close>  The eviction queue is first in, first out.  After \<open>fifo_init\<close> any interleaving of
  \<open>fifo_enqueue\<close> and \<open>fifo_dequeue\<close> calls runs to the end without a fault, and every call answers what
  the bounded queue of capacity \<open>RING_BUFFER_SIZE - 1\<close> answers; wrap-around of head and tail is
  invisible.
\<close>

theorem fifo_simulates_queue:
  assumes "\<not> fifo_spin fs"
  shows "\<exists>fs'. queue_run fifo_enqueue fifo_dequeue (fifo_init fs) ops =
      Inr (fst (spec_run (RING_BUFFER_SIZE - 1) [] ops), fs') \<and> \<not> fifo_spin fs' \<and>
    rb_list (fs_rb fs') = snd (spec_run (RING_BUFFER_SIZE - 1) [] ops)"
  using ring.run_simulates [of "fifo_init fs" ops] fifo_init_empty [OF assms] by (auto simp: fifo_wf_def)

text \<open>A ring of uninitialised slots, for the witnesses.\<close>

definition blank_fifo :: "nat fifo_state" where
  "blank_fifo = \<lparr>fs_rb = \<lparr>rb_buffer = (\<lambda>_. 0), rb_head = 0, rb_tail = 0, rb_lock = False\<rparr>, fifo_spin = False\<rparr>"

theorem fifo_simulates_queue_witness:
  "\<exists>fs'. queue_run fifo_enqueue fifo_dequeue (fifo_init blank_fifo) [Enqueue 7, Enqueue 9, Dequeue, Dequeue, Dequeue] =
     Inr ([None, None, Some 7, Some 9, None], fs')"
  using fifo_simulates_queue [of blank_fifo "[Enqueue 7, Enqueue 9, Dequeue, Dequeue, Dequeue]"]
  by (auto simp: blank_fifo_def RING_BUFFER_SIZE_def simp del: queue_run.simps)

text \<open>
  A full eviction queue loses entries silently: with \<open>RING_BUFFER_SIZE - 1\<close> entries queued,
  \<open>fifo_enqueue\<close> answers the same success value as always and leaves the queue as it was.
\<close>

theorem fifo_enqueue_full:
  assumes "fifo_wf fs" "length (rb_list (fs_rb fs)) = RING_BUFFER_SIZE - 1"
  shows "fifo_enqueue fs x = Inr (0xA, fs)"
  using assms rb_full_count [of "fs_rb fs"] by (simp add: fifo_wf_def fifo_enqueue_def rb_push_def)

theorem fifo_enqueue_full_witness:
  "fifo_enqueue (blank_fifo\<lparr>fs_rb := (fs_rb blank_fifo)\<lparr>rb_tail := 1\<rparr>\<rparr>) 5 =
     Inr (0xA, blank_fifo\<lparr>fs_rb := (fs_rb blank_fifo)\<lparr>rb_tail := 1\<rparr>\<rparr>)"
  by (rule fifo_enqueue_full)
     (simp_all add: blank_fifo_def fifo_wf_def rb_wf_def rb_count_def RING_BUFFER_SIZE_def)

end
