(* ===== verification/ChanModel.thy ===== *)
theory ChanModel
  imports VPrelude
begin

text \<open>
  The bandwidth model of \<^verbatim>\<open>nvmevirt/channel_model.c\<close>: a ring of credit counters, one per
  interval of \<open>UNIT_TIME_INTERVAL\<close> nanoseconds, starting at the slot \<open>ch_head\<close> for the current
  time.  All fields keep the widths of the C structure.  The wall clock that
  \<^verbatim>\<open>__get_wallclock\<close> reads is an argument.  The file-level variable \<^verbatim>\<open>last\<close> only feeds a log
  message and is left out.

  The ring is a function from slot numbers; \<open>memset_credits\<close> is the byte-wise \<^verbatim>\<open>MEMSET\<close> on it and
  faults when it would leave the array.
\<close>

definition NR_CREDIT_ENTRIES :: nat where
  "NR_CREDIT_ENTRIES = 1024 * 96 * 8"

definition UNIT_TIME_INTERVAL :: u64 where
  "UNIT_TIME_INTERVAL = 4000"

definition UNIT_XFER_SIZE :: u64 where
  "UNIT_XFER_SIZE = 128"

definition UNIT_XFER_CREDITS :: u32 where
  "UNIT_XFER_CREDITS = 1"

record channel_model =
  ch_cur_time :: u64
  ch_head :: u32
  ch_valid_len :: u32
  ch_max_credits :: u32
  ch_command_credits :: u32
  ch_xfer_lat :: u32
  ch_last :: u64
  ch_avail_credits :: "nat \<Rightarrow> u8"

definition MB :: "u64 \<Rightarrow> u64" where
  "MB m = push_bit 20 m"

definition NS_PER_SEC :: u64 where
  "NS_PER_SEC = 1000000000"

definition BANDWIDTH_TO_TX_TIME :: "u64 \<Rightarrow> u64" where
  "BANDWIDTH_TO_TX_TIME mb_s = (UNIT_XFER_SIZE * NS_PER_SEC) div MB mb_s"

definition BANDWIDTH_TO_MAX_CREDITS :: "u64 \<Rightarrow> u64" where
  "BANDWIDTH_TO_MAX_CREDITS mb_s =
     MB mb_s * UNIT_TIME_INTERVAL div NS_PER_SEC div UNIT_XFER_SIZE * ucast UNIT_XFER_CREDITS"

definition memset_credits :: "(nat \<Rightarrow> u8) \<Rightarrow> u32 \<Rightarrow> u32 \<Rightarrow> u32 \<Rightarrow> (nat \<Rightarrow> u8) result" where
  "memset_credits f off val len =
     (if unat off + unat len > NR_CREDIT_ENTRIES then Inl Out_of_bounds
      else Inr (\<lambda>i. if unat off \<le> i \<and> i < unat off + unat len then ucast val else f i))"

definition chmodel_init :: "channel_model \<Rightarrow> u64 \<Rightarrow> channel_model result" where
  "chmodel_init ch bandwidth =
     (if MB bandwidth = 0 then Inl Div_by_zero
      else let ch1 = ch\<lparr>ch_head := 0, ch_valid_len := 0, ch_cur_time := 0,
                        ch_max_credits := ucast (BANDWIDTH_TO_MAX_CREDITS bandwidth),
                        ch_command_credits := 0,
                        ch_xfer_lat := ucast (BANDWIDTH_TO_TX_TIME bandwidth)\<rparr>
           in bindR (memset_credits (ch_avail_credits ch1) 0 (ch_max_credits ch1)
                       (of_nat NR_CREDIT_ENTRIES))
                (\<lambda>av. Inr (ch1\<lparr>ch_avail_credits := av\<rparr>)))"

text \<open>
  The search loop.  It takes the credits of the slot \<open>pos\<close>, then moves on until the request is
  served or the next slot is the head.  \<open>None\<close> means that the C loop does not end.
\<close>

partial_function (option) chmodel_loop ::
  "u32 \<Rightarrow> (nat \<Rightarrow> u8) \<Rightarrow> u32 \<Rightarrow> u32 \<Rightarrow> u32 \<Rightarrow> ((nat \<Rightarrow> u8) \<times> u32 \<times> u32 \<times> u32) option" where
  "chmodel_loop hd0 av pos remaining_credits delay =
     (let consumed_credits = (if remaining_credits \<le> ucast (av (unat pos)) then remaining_credits
                              else ucast (av (unat pos)));
          av1 = av(unat pos := av (unat pos) - ucast consumed_credits);
          rem1 = remaining_credits - consumed_credits
      in if rem1 \<noteq> 0
         then let next_pos = (pos + 1) mod of_nat NR_CREDIT_ENTRIES
              in if next_pos \<noteq> hd0 then chmodel_loop hd0 av1 next_pos rem1 (delay + 1)
                 else Some (av1, pos, rem1, delay)
         else Some (av1, pos, rem1, delay))"

text \<open>Advancing the head to the current time gives the passed slots their credits back.\<close>

definition chmodel_advance :: "channel_model \<Rightarrow> u64 \<Rightarrow> channel_model result" where
  "chmodel_advance ch cur_time =
     (let offs0 = ucast (cur_time div UNIT_TIME_INTERVAL - ch_cur_time ch div UNIT_TIME_INTERVAL);
          cur_time_offs = (if offs0 < ch_valid_len ch then offs0 else ch_valid_len ch);
          nr = of_nat NR_CREDIT_ENTRIES
      in bindR
          (if ch_head ch + cur_time_offs \<ge> nr
           then bindR (memset_credits (ch_avail_credits ch) (ch_head ch) (ch_max_credits ch)
                         (nr - ch_head ch))
                  (\<lambda>av. memset_credits av 0 (ch_max_credits ch) (cur_time_offs - (nr - ch_head ch)))
           else memset_credits (ch_avail_credits ch) (ch_head ch) (ch_max_credits ch) cur_time_offs)
          (\<lambda>av. Inr (ch\<lparr>ch_avail_credits := av,
                        ch_head := (ch_head ch + cur_time_offs) mod nr,
                        ch_cur_time := cur_time,
                        ch_valid_len := ch_valid_len ch - cur_time_offs\<rparr>)))"

definition chmodel_request ::
  "u64 \<Rightarrow> channel_model \<Rightarrow> u64 \<Rightarrow> u64 \<Rightarrow> (u64 \<times> channel_model) result" where
  "chmodel_request cur_time ch0 request_time len =
     bindR (chmodel_advance ch0 cur_time) (\<lambda>ch.
       let nr = of_nat NR_CREDIT_ENTRIES;
           units_to_xfer = (ucast (DIV_ROUND_UP len UNIT_XFER_SIZE) :: u32);
           request_time_offs = (ucast (request_time div UNIT_TIME_INTERVAL
                                       - cur_time div UNIT_TIME_INTERVAL) :: u32)
       in if ch_valid_len ch > nr then Inr (request_time, ch)
          else if request_time < cur_time then Inr (request_time, ch)
          else if request_time_offs \<ge> nr then Inr (request_time, ch)
          else if ch_max_credits ch = 0 then Inl Div_by_zero
          else let pos = (ch_head ch + request_time_offs) mod nr;
                   remaining_credits = units_to_xfer * UNIT_XFER_CREDITS + ch_command_credits ch;
                   default_delay = remaining_credits div ch_max_credits ch
               in case chmodel_loop (ch_head ch) (ch_avail_credits ch) pos remaining_credits 0 of
                    None \<Rightarrow> Inl Diverges
                  | Some (av, pos', rem', delay) \<Rightarrow>
                      let valid_length = (if pos' \<ge> ch_head ch then pos' - ch_head ch + 1
                                          else nr - (ch_head ch - pos' - 1));
                          ch1 = ch\<lparr>ch_avail_credits := av,
                                   ch_valid_len := (if valid_length > ch_valid_len ch
                                                    then valid_length else ch_valid_len ch)\<rparr>;
                          delay1 = (if delay > default_delay then delay - default_delay else 0);
                          total_latency = ucast (ch_xfer_lat ch * units_to_xfer)
                                          + ucast delay1 * UNIT_TIME_INTERVAL
                      in Inr (request_time + total_latency, ch1))"

subsection \<open>Slots of the ring\<close>

definition slot :: "nat \<Rightarrow> nat \<Rightarrow> nat" where
  "slot h k = (h + k) mod NR_CREDIT_ENTRIES"

lemma nr_bounds: "0 < NR_CREDIT_ENTRIES" "NR_CREDIT_ENTRIES < 2 ^ 31"
  by (simp_all add: NR_CREDIT_ENTRIES_def)

lemma unat_nr [simp]: "unat (of_nat NR_CREDIT_ENTRIES :: u32) = NR_CREDIT_ENTRIES"
  by (simp add: unat_of_nat NR_CREDIT_ENTRIES_def)

lemma slot_less [simp]: "slot h k < NR_CREDIT_ENTRIES"
  by (simp add: slot_def nr_bounds)

lemma slot_inj: "h < NR_CREDIT_ENTRIES \<Longrightarrow> j < NR_CREDIT_ENTRIES \<Longrightarrow> k < NR_CREDIT_ENTRIES \<Longrightarrow>
    slot h j = slot h k \<Longrightarrow> j = k"
  unfolding slot_def by (rule mod_add_distinct)

lemma unat_add_mod_nr:
  assumes "unat a < NR_CREDIT_ENTRIES" "unat b \<le> NR_CREDIT_ENTRIES"
  shows "unat (a + b) = unat a + unat (b :: u32)"
    "unat ((a + b) mod of_nat NR_CREDIT_ENTRIES) = slot (unat a) (unat b)"
proof -
  show "unat (a + b) = unat a + unat b" using assms nr_bounds by (simp add: unat_add_u32)
  then show "unat ((a + b) mod of_nat NR_CREDIT_ENTRIES) = slot (unat a) (unat b)"
    by (simp add: unat_mod_distrib slot_def)
qed

lemma slot_Suc: "slot (slot h k) 1 = slot h (Suc k)"
  by (simp add: slot_def mod_Suc_eq)

lemma slot_0: "h < NR_CREDIT_ENTRIES \<Longrightarrow> slot h 0 = h"
  by (simp add: slot_def)

subsection \<open>The search loop ends and moves credits, never creates them\<close>

definition credits :: "(nat \<Rightarrow> u8) \<Rightarrow> nat" where
  "credits av = (\<Sum>i<NR_CREDIT_ENTRIES. unat (av i))"

text \<open>
  \<open>loop_post h k av rem d av' pos' rem' d' k'\<close>: started at offset \<open>k\<close> from the head, the loop
  ended at offset \<open>k'\<close>; the slots before \<open>k'\<close> are drained; what the request still misses and
  what the ring still holds add up to the same as before; it only stops unserved at the last slot, with that slot drained too.
\<close>

definition loop_post ::
  "nat \<Rightarrow> nat \<Rightarrow> (nat \<Rightarrow> u8) \<Rightarrow> u32 \<Rightarrow> u32 \<Rightarrow> (nat \<Rightarrow> u8) \<Rightarrow> u32 \<Rightarrow> u32 \<Rightarrow> u32 \<Rightarrow> nat \<Rightarrow> bool" where
  "loop_post h k av rem d av' pos' rem' d' k' \<longleftrightarrow>
     k \<le> k' \<and> k' < NR_CREDIT_ENTRIES \<and> unat pos' = slot h k' \<and> unat d' = unat d + (k' - k) \<and>
     credits av' + unat rem = credits av + unat rem' \<and>
     (\<forall>i. av' i \<le> av i) \<and>
     (\<forall>i. av' i \<noteq> av i \<longrightarrow> (\<exists>j\<in>{k..k'}. i = slot h j)) \<and>
     (\<forall>j\<in>{k..<k'}. av' (slot h j) = 0) \<and>
     (rem' = 0 \<or> k' = NR_CREDIT_ENTRIES - 1 \<and> av' (slot h k') = 0)"

lemma take_credits:
  fixes a :: u8 and r :: u32
  defines "c \<equiv> (if r \<le> ucast a then r else ucast a)"
  shows "unat c = min (unat r) (unat a)" "unat (r - c) = unat r - unat c"
    "unat (a - ucast c) = unat a - unat c" "a - ucast c \<le> a"
proof -
  show c: "unat c = min (unat r) (unat a)"
    by (auto simp: c_def word_le_nat_alt)
  then have "c \<le> r" by (simp add: word_le_nat_alt)
  then show "unat (r - c) = unat r - unat c" by (rule unat_sub)
  have "unat c < 256" using c by (simp add: min_less_iff_disj)
  then have uc: "unat (ucast c :: u8) = unat c" by (rule unat_ucast_32_8)
  then have "(ucast c :: u8) \<le> a" using c by (simp add: word_le_nat_alt)
  then show d: "unat (a - ucast c) = unat a - unat c" using uc by (simp add: unat_sub)
  then show "a - ucast c \<le> a" by (simp add: word_le_nat_alt)
qed

lemma chmodel_loop_unfold:
  fixes av :: "nat \<Rightarrow> u8" and pos rem :: u32
  defines "c \<equiv> (if rem \<le> ucast (av (unat pos)) then rem else ucast (av (unat pos)))"
  shows "chmodel_loop h av pos rem d =
    (if rem - c \<noteq> 0 \<and> (pos + 1) mod of_nat NR_CREDIT_ENTRIES \<noteq> h
     then chmodel_loop h (av(unat pos := av (unat pos) - ucast c))
            ((pos + 1) mod of_nat NR_CREDIT_ENTRIES) (rem - c) (d + 1)
     else Some (av(unat pos := av (unat pos) - ucast c), pos, rem - c, d))"
  by (subst chmodel_loop.simps) (simp only: Let_def c_def split: if_split, blast)

lemma chmodel_loop_spec:
  assumes "unat h < NR_CREDIT_ENTRIES" "k < NR_CREDIT_ENTRIES" "unat pos = slot (unat h) k"
    "unat d \<le> k"
  shows "\<exists>av' pos' rem' d' k'. chmodel_loop h av pos rem d = Some (av', pos', rem', d') \<and>
    loop_post (unat h) k av rem d av' pos' rem' d' k'"
  using assms(2-)
proof (induction "NR_CREDIT_ENTRIES - k" arbitrary: k av pos rem d rule: less_induct)
  case less
  let ?N = NR_CREDIT_ENTRIES
  let ?p = "unat pos"
  define c where "c = (if rem \<le> ucast (av ?p) then rem else ucast (av ?p))"
  let ?av = "av(?p := av ?p - ucast c)"
  let ?r = "rem - c"
  let ?np = "(pos + 1) mod of_nat ?N"
  have p: "?p < ?N" using less.prems(2) by simp
  note tc = take_credits [where r = rem and a = "av ?p", folded c_def]
  have "credits ?av + unat (av ?p) = credits av + unat (av ?p - ucast c)"
    unfolding credits_def by (rule sum_fun_upd_swap) (use p in auto)
  then have cons: "credits ?av + unat rem = credits av + unat ?r"
    using tc by auto
  have le: "?av i \<le> av i" for i using tc(4) by simp
  have np: "unat ?np = slot (unat h) (Suc k)"
    using unat_add_mod_nr(2) [of pos 1] p nr_bounds less.prems(2) slot_Suc [of "unat h" k] by simp
  have last: "?np = h \<longleftrightarrow> Suc k = ?N"
  proof
    assume "?np = h"
    then have "slot (unat h) (Suc k) = slot (unat h) 0" using np assms(1) by (simp add: slot_0)
    then show "Suc k = ?N" using slot_inj [OF assms(1), of "Suc k" 0] less.prems(1) nr_bounds by force
  next
    assume "Suc k = ?N"
    then have "unat ?np = unat h" using np assms(1) by (simp add: slot_def)
    then show "?np = h" by (simp only: word_unat_eq_iff)
  qed
  show ?case
  proof (cases "?r \<noteq> 0 \<and> ?np \<noteq> h")
    case False
    then have "chmodel_loop h av pos rem d = Some (?av, pos, ?r, d)"
      by (subst chmodel_loop_unfold) (simp only: c_def [symmetric] if_False)
    moreover have "?r = 0 \<or> av ?p - ucast c = 0" using tc by (auto simp: unat_eq_0 [symmetric] min_def)
    then have "loop_post (unat h) k av rem d ?av pos ?r d k"
      using cons le last False less.prems by (auto simp: loop_post_def)
    ultimately show ?thesis by blast
  next
    case True
    then have eq: "chmodel_loop h av pos rem d = chmodel_loop h ?av ?np ?r (d + 1)"
      by (subst chmodel_loop_unfold) (simp only: c_def [symmetric] if_True simp_thms)
    have k: "Suc k < ?N" using True last less.prems(1) by simp
    have d: "unat (d + 1) = unat d + 1"
      using less.prems(1,3) nr_bounds by (simp add: unat_add_u32)
    have "unat ?r \<noteq> 0" using True by (simp add: unat_eq_0)
    then have drained: "av ?p - ucast c = 0"
      using tc by (auto simp: unat_eq_0 [symmetric])
    obtain av' pos' rem' d' k' where IH: "chmodel_loop h ?av ?np ?r (d + 1) = Some (av', pos', rem', d')"
      "loop_post (unat h) (Suc k) ?av ?r (d + 1) av' pos' rem' d' k'"
    proof -
      have "?N - Suc k < ?N - k" "unat (d + 1) \<le> Suc k" using k d less.prems(3) by simp_all
      from less.hyps [OF this(1) k np this(2), of ?av ?r] show ?thesis using that by blast
    qed
    have z: "av' ?p = 0" using IH(2) drained by (auto simp: loop_post_def dest!: spec [of _ ?p])
    have "av' i \<le> av i" for i using IH(2) le [of i] by (auto simp: loop_post_def intro: order_trans)
    moreover have "\<exists>j\<in>{k..k'}. i = slot (unat h) j" if "av' i \<noteq> av i" for i
    proof (cases "i = ?p")
      case True
      then show ?thesis using IH(2) less.prems(2) by (auto simp: loop_post_def)
    next
      case False
      then have "av' i \<noteq> ?av i" using that by simp
      moreover have "\<forall>i. av' i \<noteq> ?av i \<longrightarrow> (\<exists>j\<in>{Suc k..k'}. i = slot (unat h) j)"
        using IH(2) unfolding loop_post_def by (elim conjE)
      ultimately obtain j where "j \<in> {Suc k..k'}" "i = slot (unat h) j" by blast
      then show ?thesis by (intro bexI [of _ j]) auto
    qed
    moreover have "av' (slot (unat h) j) = 0" if "j \<in> {k..<k'}" for j
      using IH(2) z that less.prems(2) by (cases "j = k") (auto simp: loop_post_def)
    moreover have "k \<le> k'" "unat d' = unat d + (k' - k)" using IH(2) d by (auto simp: loop_post_def)
    ultimately have "loop_post (unat h) k av rem d av' pos' rem' d' k'"
      using IH(2) cons by (simp add: loop_post_def)
    then show ?thesis using IH(1) eq by auto
  qed
qed

subsection \<open>Well-formed channel models\<close>

text \<open>
  Head and window stay inside the ring, no slot holds more credits than an interval offers, and
  every slot outside the window of \<open>ch_valid_len\<close> slots from the head is full.
\<close>

definition chm_wf :: "channel_model \<Rightarrow> bool" where
  "chm_wf ch \<longleftrightarrow> unat (ch_head ch) < NR_CREDIT_ENTRIES \<and> unat (ch_valid_len ch) \<le> NR_CREDIT_ENTRIES \<and>
     0 < unat (ch_max_credits ch) \<and> unat (ch_max_credits ch) < 256 \<and>
     (\<forall>i<NR_CREDIT_ENTRIES. unat (ch_avail_credits ch i) \<le> unat (ch_max_credits ch)) \<and>
     (\<forall>k<NR_CREDIT_ENTRIES. unat (ch_valid_len ch) \<le> k \<longrightarrow>
        ch_avail_credits ch (slot (unat (ch_head ch)) k) = ucast (ch_max_credits ch))"

lemma chmodel_init_wf:
  assumes "MB bw \<noteq> 0" "0 < unat (BANDWIDTH_TO_MAX_CREDITS bw)" "unat (BANDWIDTH_TO_MAX_CREDITS bw) < 256"
  shows "\<exists>ch'. chmodel_init ch bw = Inr ch' \<and> chm_wf ch' \<and>
    ch_max_credits ch' = ucast (BANDWIDTH_TO_MAX_CREDITS bw) \<and> ch_command_credits ch' = 0 \<and>
    ch_xfer_lat ch' = ucast (BANDWIDTH_TO_TX_TIME bw)"
proof -
  have "unat (ucast (BANDWIDTH_TO_MAX_CREDITS bw) :: u32) = unat (BANDWIDTH_TO_MAX_CREDITS bw)"
    using assms(3) by (simp add: unsigned_ucast_eq take_bit_nat_eq_self)
  then show ?thesis
    using assms nr_bounds
    by (simp add: chmodel_init_def memset_credits_def Let_def chm_wf_def unat_ucast_32_8)
qed

text \<open>The two copies of \<^verbatim>\<open>MEMSET\<close> refill exactly the slots that time has passed.\<close>

lemma slot_if: "h < NR_CREDIT_ENTRIES \<Longrightarrow> k \<le> NR_CREDIT_ENTRIES \<Longrightarrow>
    slot h k = (if h + k < NR_CREDIT_ENTRIES then h + k else h + k - NR_CREDIT_ENTRIES)"
  by (auto simp: slot_def mod_if)

lemma passed_slots:
  assumes "h < NR_CREDIT_ENTRIES" "n \<le> NR_CREDIT_ENTRIES" "i < NR_CREDIT_ENTRIES"
  shows "(\<exists>k<n. i = slot h k) \<longleftrightarrow> h \<le> i \<and> i < h + n \<or> i + NR_CREDIT_ENTRIES < h + n"
proof
  assume "\<exists>k<n. i = slot h k"
  then show "h \<le> i \<and> i < h + n \<or> i + NR_CREDIT_ENTRIES < h + n"
    using assms by (auto simp: slot_if split: if_splits)
next
  assume r: "h \<le> i \<and> i < h + n \<or> i + NR_CREDIT_ENTRIES < h + n"
  show "\<exists>k<n. i = slot h k"
  proof (cases "h \<le> i \<and> i < h + n")
    case True
    then show ?thesis using assms by (intro exI [of _ "i - h"]) (auto simp: slot_if)
  next
    case False
    then show ?thesis
      using r assms by (intro exI [of _ "i + NR_CREDIT_ENTRIES - h"]) (auto simp: slot_if)
  qed
qed

definition passed :: "channel_model \<Rightarrow> u64 \<Rightarrow> u32" where
  "passed ch t =
     (let offs0 = ucast (t div UNIT_TIME_INTERVAL - ch_cur_time ch div UNIT_TIME_INTERVAL)
      in if offs0 < ch_valid_len ch then offs0 else ch_valid_len ch)"

lemma passed_le: "unat (passed ch t) \<le> unat (ch_valid_len ch)"
  by (simp add: passed_def Let_def word_less_nat_alt)

lemma chmodel_advance_passed:
  fixes ch t
  defines "n \<equiv> passed ch t" and "nr \<equiv> of_nat NR_CREDIT_ENTRIES :: u32"
  shows "chmodel_advance ch t =
    bindR (if ch_head ch + n \<ge> nr
           then bindR (memset_credits (ch_avail_credits ch) (ch_head ch) (ch_max_credits ch)
                         (nr - ch_head ch))
                  (\<lambda>av. memset_credits av 0 (ch_max_credits ch) (n - (nr - ch_head ch)))
           else memset_credits (ch_avail_credits ch) (ch_head ch) (ch_max_credits ch) n)
          (\<lambda>av. Inr (ch\<lparr>ch_avail_credits := av, ch_head := (ch_head ch + n) mod nr,
                        ch_cur_time := t, ch_valid_len := ch_valid_len ch - n\<rparr>))"
  by (simp only: n_def nr_def chmodel_advance_def passed_def Let_def)

lemma memset_ok:
  "unat off + unat len \<le> NR_CREDIT_ENTRIES \<Longrightarrow> memset_credits f off val len =
     Inr (\<lambda>i. if unat off \<le> i \<and> i < unat off + unat len then ucast val else f i)"
  by (simp add: memset_credits_def)

lemma chmodel_advance_spec:
  assumes "chm_wf ch"
  shows "\<exists>ch'. chmodel_advance ch t = Inr ch' \<and>
    unat (ch_head ch') = slot (unat (ch_head ch)) (unat (passed ch t)) \<and>
    ch_valid_len ch' = ch_valid_len ch - passed ch t \<and> ch_cur_time ch' = t \<and>
    ch_max_credits ch' = ch_max_credits ch \<and> ch_command_credits ch' = ch_command_credits ch \<and>
    ch_xfer_lat ch' = ch_xfer_lat ch \<and>
    (\<forall>i<NR_CREDIT_ENTRIES. ch_avail_credits ch' i =
       (if \<exists>k<unat (passed ch t). i = slot (unat (ch_head ch)) k
        then ucast (ch_max_credits ch) else ch_avail_credits ch i))"
proof -
  let ?N = NR_CREDIT_ENTRIES
  let ?nr = "of_nat NR_CREDIT_ENTRIES :: u32"
  let ?h = "ch_head ch"
  let ?n = "passed ch t"
  have wf: "unat ?h < ?N" "unat ?n \<le> ?N"
    using assms passed_le [of ch t] by (simp_all add: chm_wf_def)
  note hd' = unat_add_mod_nr [OF wf]
  have nh: "unat (?nr - ?h) = ?N - unat ?h" using wf(1) by (simp add: unat_sub word_le_nat_alt)
  note ps = passed_slots [OF wf]
  show ?thesis
  proof (cases "?h + ?n \<ge> ?nr")
    case True
    then have ge: "?N \<le> unat ?h + unat ?n" using hd'(1) by (simp add: word_le_nat_alt)
    have "?nr - ?h \<le> ?n" using nh ge by (simp add: word_le_nat_alt)
    then have len: "unat (?n - (?nr - ?h)) = unat ?n - (?N - unat ?h)" using nh by (simp add: unat_sub)
    have m1: "unat ?h + unat (?nr - ?h) \<le> ?N" and m2: "unat (0 :: u32) + unat (?n - (?nr - ?h)) \<le> ?N"
      using wf nh len by auto
    show ?thesis
      unfolding chmodel_advance_passed if_P [OF True] memset_ok [OF m1] bindR_Inr memset_ok [OF m2]
      using wf hd'(2) ge nh len by (auto simp: ps)
  next
    case False
    then have lt: "unat ?h + unat ?n < ?N" using hd'(1) by (simp add: word_le_nat_alt not_le)
    then have m: "unat ?h + unat ?n \<le> ?N" by simp
    show ?thesis
      unfolding chmodel_advance_passed if_not_P [OF False] memset_ok [OF m] bindR_Inr
      using wf hd'(2) lt by (auto simp: ps)
  qed
qed

lemma chmodel_advance_wf:
  assumes "chm_wf ch" "chmodel_advance ch t = Inr ch'"
  shows "chm_wf ch'"
proof -
  let ?N = NR_CREDIT_ENTRIES
  let ?n = "unat (passed ch t)"
  let ?h = "unat (ch_head ch)"
  have hd': "unat (ch_head ch') = slot ?h ?n" and vl: "ch_valid_len ch' = ch_valid_len ch - passed ch t"
    and mx: "ch_max_credits ch' = ch_max_credits ch"
    and av: "\<And>i. i < ?N \<Longrightarrow> ch_avail_credits ch' i =
       (if \<exists>k<?n. i = slot ?h k then ucast (ch_max_credits ch) else ch_avail_credits ch i)"
    using chmodel_advance_spec [OF assms(1), of t] assms(2) by auto
  have wf: "?h < ?N" "unat (ch_valid_len ch) \<le> ?N" "0 < unat (ch_max_credits ch)"
    "unat (ch_max_credits ch) < 256"
    and old: "\<And>i. i < ?N \<Longrightarrow> unat (ch_avail_credits ch i) \<le> unat (ch_max_credits ch)"
    and fresh: "\<And>k. k < ?N \<Longrightarrow> unat (ch_valid_len ch) \<le> k \<Longrightarrow>
       ch_avail_credits ch (slot ?h k) = ucast (ch_max_credits ch)"
    using assms(1) by (simp_all add: chm_wf_def)
  have n: "?n \<le> unat (ch_valid_len ch)" by (rule passed_le)
  then have vl': "unat (ch_valid_len ch') = unat (ch_valid_len ch) - ?n"
    using vl by (simp add: unat_sub word_le_nat_alt)
  have "ch_avail_credits ch' (slot (slot ?h ?n) k) = ucast (ch_max_credits ch)"
    if k: "k < ?N" "unat (ch_valid_len ch) - ?n \<le> k" for k
  proof (cases "?n + k < ?N")
    case True
    have "slot (slot ?h ?n) k = slot ?h (?n + k)" by (simp add: slot_def mod_add_left_eq add.assoc)
    then show ?thesis using av [of "slot ?h (?n + k)"] fresh [OF True] k n by simp
  next
    case False
    then have "slot (slot ?h ?n) k = slot ?h (?n + k - ?N)" "?n + k - ?N < ?n"
      using k wf(1,2) n by (auto simp: slot_def mod_add_left_eq mod_if)
    then show ?thesis using av [of "slot ?h (?n + k - ?N)"] by auto
  qed
  then show ?thesis
    using hd' vl' mx wf av old by (simp add: chm_wf_def unat_ucast_32_8)
qed

text \<open>
  The state in which a request looks for credits: the advanced model \<open>ch\<close>, the offset \<open>k\<close> of
  the request's slot and the number of credits it needs.
\<close>

definition request_offs :: "u64 \<Rightarrow> u64 \<Rightarrow> u32" where
  "request_offs t rt = ucast (rt div UNIT_TIME_INTERVAL - t div UNIT_TIME_INTERVAL)"

definition xfer_units :: "u64 \<Rightarrow> u32" where
  "xfer_units len = ucast (DIV_ROUND_UP len UNIT_XFER_SIZE)"

definition needed :: "channel_model \<Rightarrow> u64 \<Rightarrow> u32" where
  "needed ch len = xfer_units len * UNIT_XFER_CREDITS + ch_command_credits ch"

definition served :: "u64 \<Rightarrow> channel_model \<Rightarrow> u64 \<Rightarrow> bool" where
  "served t ch rt \<longleftrightarrow> t \<le> rt \<and> unat (request_offs t rt) < NR_CREDIT_ENTRIES"

lemma window_length:
  assumes "unat (h :: u32) < NR_CREDIT_ENTRIES" "k < NR_CREDIT_ENTRIES" "unat p = slot (unat h) k"
  shows "unat (if p \<ge> h then p - h + 1 else of_nat NR_CREDIT_ENTRIES - (h - p - 1)) = Suc k"
proof (cases "p \<ge> h")
  case True
  then have "unat (p - h) = k" using assms by (auto simp: unat_sub word_le_nat_alt slot_if split: if_splits)
  then show ?thesis using True assms nr_bounds by (simp add: unat_add_u32)
next
  case False
  then have lt: "unat p < unat h" by (simp add: word_le_nat_alt)
  then have d: "unat (h - p) = NR_CREDIT_ENTRIES - k" "1 \<le> h - p"
    using assms by (auto simp: unat_sub word_le_nat_alt slot_if split: if_splits)
  then have "unat (h - p - 1) = NR_CREDIT_ENTRIES - k - 1" by (simp add: unat_sub)
  then have "unat (of_nat NR_CREDIT_ENTRIES - (h - p - 1)) = Suc k"
    using assms(2) by (simp add: unat_sub word_le_nat_alt)
  then show ?thesis using False by simp
qed

lemma unat_Suc_nr: "k < NR_CREDIT_ENTRIES \<Longrightarrow> unat (of_nat (Suc k) :: u32) = Suc k"
  using nr_bounds by (simp add: unat_of_nat del: of_nat_Suc)

text \<open>One request, in terms of the loop's postcondition.\<close>

lemma chmodel_request_served:
  assumes wf: "chm_wf ch0" and adv: "chmodel_advance ch0 t = Inr ch" and srv: "served t ch rt"
  defines "k \<equiv> unat (request_offs t rt)"
  obtains av' pos' rem' d' k' where
    "loop_post (unat (ch_head ch)) k (ch_avail_credits ch) (needed ch len) 0 av' pos' rem' d' k'"
    "chmodel_request t ch0 rt len = Inr (
       (rt + (ucast (ch_xfer_lat ch * xfer_units len)
              + ucast (if d' > needed ch len div ch_max_credits ch
                       then d' - needed ch len div ch_max_credits ch else 0) * UNIT_TIME_INTERVAL),
        ch\<lparr>ch_avail_credits := av',
           ch_valid_len := (if of_nat (Suc k') > ch_valid_len ch then of_nat (Suc k')
                            else ch_valid_len ch)\<rparr>))"
proof -
  let ?nr = "of_nat NR_CREDIT_ENTRIES :: u32"
  have wf': "chm_wf ch" by (rule chmodel_advance_wf [OF wf adv])
  then have h: "unat (ch_head ch) < NR_CREDIT_ENTRIES" and m: "ch_max_credits ch \<noteq> 0"
    and v: "\<not> ch_valid_len ch > ?nr"
    by (auto simp: chm_wf_def word_less_nat_alt)
  have k: "k < NR_CREDIT_ENTRIES" "t \<le> rt" using srv by (simp_all add: served_def k_def)
  let ?pos = "(ch_head ch + request_offs t rt) mod ?nr"
  have p: "unat ?pos = slot (unat (ch_head ch)) k"
    unfolding k_def using unat_add_mod_nr(2) [OF h, of "request_offs t rt"] k(1) by (simp add: k_def)
  obtain av' pos' rem' d' k' where
    lp: "chmodel_loop (ch_head ch) (ch_avail_credits ch) ?pos (needed ch len) 0 = Some (av', pos', rem', d')"
    and post: "loop_post (unat (ch_head ch)) k (ch_avail_credits ch) (needed ch len) 0 av' pos' rem' d' k'"
  proof -
    have "unat (0 :: u32) \<le> k" by simp
    from chmodel_loop_spec [OF h k(1) p this, of "ch_avail_credits ch" "needed ch len"] that
    show ?thesis by blast
  qed
  have k': "k' < NR_CREDIT_ENTRIES" "unat pos' = slot (unat (ch_head ch)) k'"
    using post by (simp_all add: loop_post_def)
  have "(if pos' \<ge> ch_head ch then pos' - ch_head ch + 1 else ?nr - (ch_head ch - pos' - 1)) = of_nat (Suc k')"
    by (simp only: word_unat_eq_iff window_length [OF h k'] unat_Suc_nr [OF k'(1)])
  moreover have "\<not> rt < t" "\<not> request_offs t rt \<ge> ?nr" using k by (auto simp: word_le_nat_alt word_less_nat_alt k_def)
  ultimately have "chmodel_request t ch0 rt len = Inr (
       (rt + (ucast (ch_xfer_lat ch * xfer_units len)
              + ucast (if d' > needed ch len div ch_max_credits ch
                       then d' - needed ch len div ch_max_credits ch else 0) * UNIT_TIME_INTERVAL),
        ch\<lparr>ch_avail_credits := av',
           ch_valid_len := (if of_nat (Suc k') > ch_valid_len ch then of_nat (Suc k')
                            else ch_valid_len ch)\<rparr>))"
    using v m lp unfolding chmodel_request_def adv bindR_Inr Let_def
      request_offs_def [symmetric] xfer_units_def [symmetric] needed_def [symmetric]
    by simp
  with post show ?thesis by (rule that)
qed

text \<open>The window grows to the last slot touched, so untouched slots stay full.\<close>

lemma loop_post_wf:
  assumes "chm_wf ch"
    "loop_post (unat (ch_head ch)) k (ch_avail_credits ch) need 0 av' pos' rem' d' k'"
  shows "chm_wf (ch\<lparr>ch_avail_credits := av',
     ch_valid_len := (if of_nat (Suc k') > ch_valid_len ch then of_nat (Suc k') else ch_valid_len ch)\<rparr>)"
proof -
  let ?N = NR_CREDIT_ENTRIES
  let ?h = "unat (ch_head ch)"
  have k': "k' < ?N" and le: "\<And>i. av' i \<le> ch_avail_credits ch i"
    and touched: "\<And>i. av' i \<noteq> ch_avail_credits ch i \<Longrightarrow> \<exists>j\<in>{k..k'}. i = slot ?h j"
    using assms(2) by (auto simp: loop_post_def)
  have sk: "unat (of_nat (Suc k') :: u32) = Suc k'"
    using k' by (rule unat_Suc_nr)
  then have vl: "unat (if of_nat (Suc k') > ch_valid_len ch then of_nat (Suc k') else ch_valid_len ch)
      = max (Suc k') (unat (ch_valid_len ch))"
    by (auto simp: word_less_nat_alt simp del: of_nat_Suc)
  have "unat (av' i) \<le> unat (ch_max_credits ch)" if "i < ?N" for i
    using assms(1) le [of i] that by (auto simp: chm_wf_def word_le_nat_alt intro: order_trans)
  moreover have "av' (slot ?h j) = ucast (ch_max_credits ch)"
    if j: "j < ?N" "max (Suc k') (unat (ch_valid_len ch)) \<le> j" for j
  proof -
    have "av' (slot ?h j) = ch_avail_credits ch (slot ?h j)"
    proof (rule ccontr)
      assume "\<not> ?thesis"
      from touched [OF this] obtain i where i: "i \<in> {k..k'}" "slot ?h j = slot ?h i" by blast
      then have "j = i" using slot_inj [OF _ j(1) _ i(2)] k' assms(1) by (simp add: chm_wf_def)
      then show False using i j by simp
    qed
    then show ?thesis using assms(1) j by (simp add: chm_wf_def)
  qed
  ultimately show ?thesis
    using assms(1) k' unfolding chm_wf_def by (simp add: vl del: of_nat_Suc)
qed

lemma unserved_request:
  assumes "chm_wf ch0" "chmodel_advance ch0 t = Inr ch" "\<not> served t ch rt"
  shows "chmodel_request t ch0 rt len = Inr (rt, ch)"
proof -
  have "rt < t \<or> \<not> rt < t \<and> request_offs t rt \<ge> of_nat NR_CREDIT_ENTRIES"
    using assms(3) by (auto simp: served_def word_le_nat_alt not_less)
  then show ?thesis
    unfolding chmodel_request_def assms(2) bindR_Inr Let_def request_offs_def [symmetric] by auto
qed

text \<open>Draining full slots costs at least \<open>max_credits\<close> per slot passed.\<close>

lemma drained_cost:
  assumes "loop_post h k av need d av' pos' rem' d' k'" "h < NR_CREDIT_ENTRIES"
    and full: "\<And>j. k \<le> j \<Longrightarrow> j < NR_CREDIT_ENTRIES \<Longrightarrow> unat (av (slot h j)) = mx"
  shows "(k' - k) * mx \<le> unat need"
proof -
  let ?N = NR_CREDIT_ENTRIES
  let ?S = "slot h ` {k..<k'}"
  have k': "k' < ?N" and z: "\<And>j. j \<in> {k..<k'} \<Longrightarrow> av' (slot h j) = 0"
    and le: "\<And>i. unat (av' i) \<le> unat (av i)"
    and cons: "credits av' + unat need = credits av + unat rem'"
    using assms(1) by (auto simp: loop_post_def word_le_nat_alt)
  have S: "?S \<subseteq> {..<?N}" by auto
  have "inj_on (slot h) {k..<k'}"
    using slot_inj [OF assms(2)] k' by (auto simp: inj_on_def)
  then have "(\<Sum>i\<in>?S. unat (av i)) = (k' - k) * mx"
    using full k' by (simp add: sum.reindex)
  moreover have "(\<Sum>i\<in>?S. unat (av' i)) = 0" using z by simp
  moreover have split: "credits f = (\<Sum>i\<in>?S. unat (f i)) + (\<Sum>i\<in>{..<?N} - ?S. unat (f i))"
    for f :: "nat \<Rightarrow> u8"
    unfolding credits_def using S by (metis add.commute finite_lessThan sum.subset_diff)
  moreover have "(\<Sum>i\<in>{..<?N} - ?S. unat (av' i)) \<le> (\<Sum>i\<in>{..<?N} - ?S. unat (av i))"
    using le by (rule sum_mono)
  ultimately show ?thesis using cons split [of av] split [of av'] by linarith
qed

subsection \<open>Properties\<close>

lemma chmodel_request_total:
  assumes "chm_wf ch"
  shows "\<exists>r ch'. chmodel_request t ch rt len = Inr (r, ch') \<and> chm_wf ch'"
proof -
  obtain ch1 where adv: "chmodel_advance ch t = Inr ch1"
    using chmodel_advance_spec [OF assms] by blast
  have wf1: "chm_wf ch1" by (rule chmodel_advance_wf [OF assms adv])
  show ?thesis
  proof (cases "served t ch1 rt")
    case True
    from chmodel_request_served [OF assms adv True, of len] loop_post_wf [OF wf1]
    show ?thesis by metis
  next
    case False
    then show ?thesis using unserved_request [OF assms adv] wf1 by blast
  qed
qed

text \<open>\<^bold>\<open>C22.\<close>  From a well-formed channel model (as \<open>chmodel_init\<close> builds it) every request returns:
  no fault, no endless search, and the model is well-formed again.  In particular the check for an
  oversized \<open>valid_len\<close> in the source never fires.\<close>

theorem chmodel_request_invariant:
  assumes "chm_wf ch"
  shows "(\<exists>r ch'. chmodel_request t ch rt len = Inr (r, ch') \<and> chm_wf ch') \<and>
    (\<forall>ch1. chmodel_advance ch t = Inr ch1 \<longrightarrow> \<not> ch_valid_len ch1 > of_nat NR_CREDIT_ENTRIES)"
  using chmodel_request_total [OF assms] chmodel_advance_wf [OF assms]
  by (auto simp: chm_wf_def word_less_nat_alt not_less)

definition example_channel :: channel_model where
  "example_channel = \<lparr>ch_cur_time = 0, ch_head = 0, ch_valid_len = 0, ch_max_credits = 26,
     ch_command_credits = 0, ch_xfer_lat = 152, ch_last = 0, ch_avail_credits = (\<lambda>_. 26)\<rparr>"

lemma example_channel_wf: "chm_wf example_channel"
  by (simp add: chm_wf_def example_channel_def NR_CREDIT_ENTRIES_def)

theorem chmodel_request_invariant_witness:
  "chm_wf example_channel \<and>
   (\<exists>r ch'. chmodel_request 8000 example_channel 9000 4096 = Inr (r, ch') \<and> chm_wf ch')"
  using example_channel_wf chmodel_request_invariant [OF example_channel_wf, of 8000 9000 4096] by blast

text \<open>\<^bold>\<open>C23.\<close>  Where a request's credits come from and what it costs.  A request that is served, at offset \<open>o\<close> from the
  head, takes its credits from the consecutive slots \<open>o\<close> to some \<open>k\<close> and touches no other slot; all of these but
  \<open>k\<close> are drained; what the ring loses is exactly what the request needs less what it could not get (\<open>missing\<close>),
  and something is missing only when \<open>k\<close> is the last slot of the ring and is drained as well.  The answer is the
  request time plus \<open>xfer_lat\<close> per unit plus one interval for every slot passed beyond those an idle channel needs.\<close>

theorem chmodel_request_credits:
  assumes "chm_wf ch" "chmodel_advance ch t = Inr ch1" "served t ch1 rt"
    and "chmodel_request t ch rt len = Inr (r, ch2)"
  shows "\<exists>k missing. unat (request_offs t rt) \<le> k \<and> k < NR_CREDIT_ENTRIES \<and>
    credits (ch_avail_credits ch2) + unat (needed ch1 len) = credits (ch_avail_credits ch1) + missing \<and>
    (\<forall>i. ch_avail_credits ch2 i \<le> ch_avail_credits ch1 i) \<and>
    (\<forall>i. i \<notin> slot (unat (ch_head ch1)) ` {unat (request_offs t rt)..k} \<longrightarrow> ch_avail_credits ch2 i = ch_avail_credits ch1 i) \<and>
    (\<forall>j\<in>{unat (request_offs t rt)..<k}. ch_avail_credits ch2 (slot (unat (ch_head ch1)) j) = 0) \<and>
    (missing = 0 \<or> k = NR_CREDIT_ENTRIES - 1 \<and> ch_avail_credits ch2 (slot (unat (ch_head ch1)) k) = 0) \<and>
    r = rt + (ucast (ch_xfer_lat ch1 * xfer_units len) +
      of_nat (k - unat (request_offs t rt) - unat (needed ch1 len) div unat (ch_max_credits ch1)) * UNIT_TIME_INTERVAL)"
proof (rule chmodel_request_served [OF assms(1-3), of len])
  fix av' pos' rem' d' k'
  assume post: "loop_post (unat (ch_head ch1)) (unat (request_offs t rt))
      (ch_avail_credits ch1) (needed ch1 len) 0 av' pos' rem' d' k'"
    and eq: "chmodel_request t ch rt len = Inr (
       (rt + (ucast (ch_xfer_lat ch1 * xfer_units len)
              + ucast (if d' > needed ch1 len div ch_max_credits ch1
                       then d' - needed ch1 len div ch_max_credits ch1 else 0) * UNIT_TIME_INTERVAL),
        ch1\<lparr>ch_avail_credits := av',
           ch_valid_len := (if of_nat (Suc k') > ch_valid_len ch1 then of_nat (Suc k')
                            else ch_valid_len ch1)\<rparr>))"
  let ?D = "needed ch1 len div ch_max_credits ch1" and ?k = "unat (request_offs t rt)"
  have d: "unat d' = k' - ?k" using post by (simp add: loop_post_def)
  have "unat (if d' > ?D then d' - ?D else 0) = unat d' - unat ?D"
    by (auto simp: word_less_nat_alt unat_sub word_le_nat_alt)
  then have "ucast (if d' > ?D then d' - ?D else 0) = (of_nat (unat d' - unat ?D) :: u64)"
    by (metis of_nat_unat)
  then have r: "r = rt + (ucast (ch_xfer_lat ch1 * xfer_units len) + of_nat (k' - ?k - unat (needed ch1 len) div unat (ch_max_credits ch1)) * UNIT_TIME_INTERVAL)"
    using eq assms(4) d by (simp add: unat_div_distrib)
  from eq assms(4) have av: "ch_avail_credits ch2 = av'" by auto
  have un: "\<forall>i. i \<notin> slot (unat (ch_head ch1)) ` {?k..k'} \<longrightarrow> av' i = ch_avail_credits ch1 i" using post unfolding loop_post_def by blast
  show ?thesis unfolding av using post r un
    by (intro exI [of _ k'] exI [of _ "unat rem'"]) (auto simp: loop_post_def)
qed

lemma example_advance:
  "chmodel_advance example_channel 8000 = Inr (example_channel\<lparr>ch_cur_time := 8000\<rparr>)"
  by (simp add: chmodel_advance_def example_channel_def memset_credits_def UNIT_TIME_INTERVAL_def
      NR_CREDIT_ENTRIES_def word_le_nat_alt word_less_nat_alt)

lemma example_served: "served 8000 ch 13000"
  by (simp add: served_def request_offs_def UNIT_TIME_INTERVAL_def NR_CREDIT_ENTRIES_def)

theorem chmodel_request_credits_witness:
  "\<exists>r ch2 k missing. chmodel_request 8000 example_channel 13000 4096 = Inr (r, ch2) \<and> unat (request_offs 8000 13000) \<le> k \<and>
    credits (ch_avail_credits ch2) + unat (needed (example_channel\<lparr>ch_cur_time := 8000\<rparr>) 4096) =
      credits (ch_avail_credits example_channel) + missing \<and>
    (\<forall>j\<in>{unat (request_offs 8000 13000)..<k}. ch_avail_credits ch2 (slot 0 j) = 0)"
proof -
  obtain r ch2 where rq: "chmodel_request 8000 example_channel 13000 4096 = Inr (r, ch2)"
    using chmodel_request_total [OF example_channel_wf] by blast
  have h: "unat (ch_head (example_channel\<lparr>ch_cur_time := 8000\<rparr>)) = 0" by (simp add: example_channel_def)
  show ?thesis
    using chmodel_request_credits [OF example_channel_wf example_advance example_served rq] rq unfolding h
    by auto
qed

text \<open>On an idle channel the model is exact.  When all slots from the request's slot on still
  have their full credits, the transfer takes precisely \<open>xfer_lat\<close> per unit, whatever the length:
  no queueing delay is added.\<close>

theorem chmodel_request_idle:
  assumes "chm_wf ch" "chmodel_advance ch t = Inr ch1" "served t ch1 rt"
    and "\<forall>j\<in>{unat (request_offs t rt)..<NR_CREDIT_ENTRIES}.
       ch_avail_credits ch1 (slot (unat (ch_head ch1)) j) = ucast (ch_max_credits ch1)"
  shows "\<exists>ch2. chmodel_request t ch rt len =
    Inr ((rt + ucast (ch_xfer_lat ch1 * xfer_units len), ch2))"
proof (rule chmodel_request_served [OF assms(1-3), of len])
  fix av' pos' rem' d' k'
  assume post: "loop_post (unat (ch_head ch1)) (unat (request_offs t rt))
      (ch_avail_credits ch1) (needed ch1 len) 0 av' pos' rem' d' k'"
    and eq: "chmodel_request t ch rt len = Inr (
       (rt + (ucast (ch_xfer_lat ch1 * xfer_units len)
              + ucast (if d' > needed ch1 len div ch_max_credits ch1
                       then d' - needed ch1 len div ch_max_credits ch1 else 0) * UNIT_TIME_INTERVAL),
        ch1\<lparr>ch_avail_credits := av',
           ch_valid_len := (if of_nat (Suc k') > ch_valid_len ch1 then of_nat (Suc k')
                            else ch_valid_len ch1)\<rparr>))"
  let ?mx = "unat (ch_max_credits ch1)"
  have wf: "unat (ch_head ch1) < NR_CREDIT_ENTRIES" "0 < ?mx" "?mx < 256"
    using chmodel_advance_wf [OF assms(1,2)] by (simp_all add: chm_wf_def)
  have "(k' - unat (request_offs t rt)) * ?mx \<le> unat (needed ch1 len)"
    using assms(4) wf(3) by (intro drained_cost [OF post wf(1)]) (simp add: unat_ucast_32_8)
  then have "k' - unat (request_offs t rt) \<le> unat (needed ch1 len) div ?mx"
    using wf(2) by (simp add: less_eq_div_iff_mult_less_eq)
  moreover have "unat d' = k' - unat (request_offs t rt)" using post by (simp add: loop_post_def)
  ultimately have "\<not> d' > needed ch1 len div ch_max_credits ch1"
    by (simp add: word_less_nat_alt unat_div_distrib not_less)
  then show ?thesis using eq by simp
qed

theorem chmodel_request_idle_witness:
  "\<exists>ch2. chmodel_request 8000 example_channel 13000 4096 = Inr (13000 + 152 * 32, ch2)"
proof -
  have "\<forall>j\<in>{unat (request_offs 8000 13000)..<NR_CREDIT_ENTRIES}.
      ch_avail_credits (example_channel\<lparr>ch_cur_time := 8000\<rparr>)
        (slot (unat (ch_head (example_channel\<lparr>ch_cur_time := 8000\<rparr>))) j) =
      ucast (ch_max_credits (example_channel\<lparr>ch_cur_time := 8000\<rparr>))"
    by (simp add: example_channel_def)
  from chmodel_request_idle [OF example_channel_wf example_advance example_served this, of 4096]
  show ?thesis
    by (simp add: example_channel_def xfer_units_def DIV_ROUND_UP_def UNIT_XFER_SIZE_def)
qed

end
