(* ===== verification/Lru.thy ===== *)
theory Lru
  imports VPrelude
begin

text \<open>
  The recency list of \<^verbatim>\<open>nvmevirt/lru.c\<close>, in which the FTL keeps its append buffers.  The items are
  allocated by the caller and linked through their \<^verbatim>\<open>prev\<close> and \<^verbatim>\<open>next\<close> pointers, so the model has
  an explicit heap: an address is a number, a pointer is an \<open>addr option\<close> (\<open>None\<close> is \<^verbatim>\<open>NULL\<close>), and every
  access through a pointer goes through \<open>deref\<close>.  \<open>items\<close> is the array indexed by id.  Sizes and ids
  are \<^verbatim>\<open>uint32_t\<close> counters that stay small; they are naturals.
  The operations are shown to implement a list of items, most recently used first.
\<close>

type_synonym addr = nat

definition MAX_CAPACITY :: nat where
  "MAX_CAPACITY = 128"

record item =
  it_id :: nat
  it_prev :: "addr option"
  it_next :: "addr option"

record lru_cache =
  lru_head :: "addr option"
  lru_tail :: "addr option"
  lru_capacity :: nat
  lru_size :: nat
  lru_items :: "nat \<Rightarrow> addr option"

record lru_state =
  ls_cache :: lru_cache
  ls_heap :: "addr \<Rightarrow> item"

subsection \<open>Pointers\<close>

definition deref :: "addr option \<Rightarrow> addr result" where
  "deref p = (case p of None \<Rightarrow> Inl Null_deref | Some a \<Rightarrow> Inr a)"

abbreviation upd_cache :: "(lru_cache \<Rightarrow> lru_cache) \<Rightarrow> lru_state \<Rightarrow> lru_state" where
  "upd_cache f s \<equiv> s\<lparr>ls_cache := f (ls_cache s)\<rparr>"

definition set_prev :: "addr option \<Rightarrow> addr option \<Rightarrow> lru_state \<Rightarrow> lru_state result" where
  "set_prev p v s = bindR (deref p) (\<lambda>a.
     Inr (s\<lparr>ls_heap := (ls_heap s)(a := (ls_heap s a)\<lparr>it_prev := v\<rparr>)\<rparr>))"

definition set_next :: "addr option \<Rightarrow> addr option \<Rightarrow> lru_state \<Rightarrow> lru_state result" where
  "set_next p v s = bindR (deref p) (\<lambda>a.
     Inr (s\<lparr>ls_heap := (ls_heap s)(a := (ls_heap s a)\<lparr>it_next := v\<rparr>)\<rparr>))"

text \<open>A store to the array \<^verbatim>\<open>items\<close>; an index outside it is a fault.\<close>

definition set_items :: "nat \<Rightarrow> addr option \<Rightarrow> lru_state \<Rightarrow> lru_state result" where
  "set_items i v s = (if i < MAX_CAPACITY
     then Inr (upd_cache (\<lambda>c. c\<lparr>lru_items := (lru_items c)(i := v)\<rparr>) s) else Inl Out_of_bounds)"

subsection \<open>Operations\<close>

definition lru_cache_init :: "nat \<Rightarrow> lru_cache \<Rightarrow> lru_cache" where
  "lru_cache_init capacity c = c\<lparr>lru_head := None, lru_tail := None, lru_capacity := capacity, lru_size := 0\<rparr>"

definition lru_cache_get :: "lru_state \<Rightarrow> nat \<Rightarrow> (addr option \<times> lru_state) result" where
  "lru_cache_get s i =
     (let c = ls_cache s in
      if lru_size c = 0 \<or> i \<ge> MAX_CAPACITY then Inr (None, s)
      else case lru_items c i of
        None \<Rightarrow> Inl Bug_on
      | Some a \<Rightarrow>
          if Some a \<noteq> lru_head c then
            let prev = it_prev (ls_heap s a); next = it_next (ls_heap s a) in
            bindR (if Some a = lru_tail c
                   then set_next prev None (upd_cache (\<lambda>c. c\<lparr>lru_tail := prev\<rparr>) s)
                   else bindR (set_next prev next s) (\<lambda>s1. set_prev next prev s1)) (\<lambda>s1.
            bindR (set_prev (Some a) None s1) (\<lambda>s2.
            bindR (set_next (Some a) (lru_head (ls_cache s2)) s2) (\<lambda>s3.
            bindR (set_prev (lru_head (ls_cache s3)) (Some a) s3) (\<lambda>s4.
              Inr (Some a, upd_cache (\<lambda>c. c\<lparr>lru_head := Some a\<rparr>) s4)))))
          else Inr (Some a, s))"

definition lru_cache_set :: "lru_state \<Rightarrow> addr \<Rightarrow> lru_state result" where
  "lru_cache_set s it =
     (let i = it_id (ls_heap s it) in
      bindR (if lru_size (ls_cache s) = lru_capacity (ls_cache s)
             then bindR (deref (lru_tail (ls_cache s))) (\<lambda>lru.
                  let s1 = upd_cache (\<lambda>c. c\<lparr>lru_tail := it_prev (ls_heap s lru)\<rparr>) s in
                  bindR (set_next (lru_tail (ls_cache s1)) None s1) (\<lambda>s2.
                  bindR (set_items (it_id (ls_heap s2 lru)) None s2) (\<lambda>s3.
                    Inr (upd_cache (\<lambda>c. c\<lparr>lru_size := lru_size c - 1\<rparr>) s3))))
             else Inr s) (\<lambda>s1.
      bindR (set_prev (Some it) None s1) (\<lambda>s2.
      bindR (set_next (Some it) (lru_head (ls_cache s2)) s2) (\<lambda>s3.
      bindR (if lru_head (ls_cache s3) \<noteq> None then set_prev (lru_head (ls_cache s3)) (Some it) s3
             else Inr (upd_cache (\<lambda>c. c\<lparr>lru_tail := Some it\<rparr>) s3)) (\<lambda>s4.
      bindR (set_items i (Some it) (upd_cache (\<lambda>c. c\<lparr>lru_head := Some it\<rparr>) s4)) (\<lambda>s5.
        Inr (upd_cache (\<lambda>c. c\<lparr>lru_size := lru_size c + 1\<rparr>) s5)))))))"

definition lru_cache_remove :: "lru_state \<Rightarrow> nat \<Rightarrow> lru_state result" where
  "lru_cache_remove s i =
     (let c = ls_cache s in
      if lru_size c = 0 \<or> i \<ge> MAX_CAPACITY then Inl Bug_on
      else case lru_items c i of
        None \<Rightarrow> Inl Bug_on
      | Some a \<Rightarrow>
          let prev = it_prev (ls_heap s a); next = it_next (ls_heap s a) in
          bindR (if Some a = lru_head c
                 then let s1 = upd_cache (\<lambda>c. c\<lparr>lru_head := next\<rparr>) s in
                      if next \<noteq> None then set_prev next None s1
                      else Inr (upd_cache (\<lambda>c. c\<lparr>lru_tail := None\<rparr>) s1)
                 else if Some a = lru_tail c
                 then set_next prev None (upd_cache (\<lambda>c. c\<lparr>lru_tail := prev\<rparr>) s)
                 else bindR (set_next prev next s) (\<lambda>s1. set_prev next prev s1)) (\<lambda>s1.
          bindR (set_items i None s1) (\<lambda>s2.
            Inr (upd_cache (\<lambda>c. c\<lparr>lru_size := lru_size c - 1\<rparr>) s2))))"

definition lru_cache_get_oldest :: "lru_state \<Rightarrow> (addr option \<times> lru_state) result" where
  "lru_cache_get_oldest s =
     (let c = ls_cache s in
      if lru_size c = 0 then Inr (None, s)
      else bindR (if lru_tail c = lru_head c
                  then Inr (upd_cache (\<lambda>c. c\<lparr>lru_head := None, lru_tail := None\<rparr>) s)
                  else bindR (deref (lru_tail c)) (\<lambda>oldest.
                       let s1 = upd_cache (\<lambda>c. c\<lparr>lru_tail := it_prev (ls_heap s oldest)\<rparr>) s
                       in set_next (lru_tail (ls_cache s1)) None s1)) (\<lambda>s1.
           bindR (deref (lru_tail c)) (\<lambda>oldest.
           bindR (set_items (it_id (ls_heap s1 oldest)) None s1) (\<lambda>s2.
             Inr (Some oldest, upd_cache (\<lambda>c. c\<lparr>lru_size := lru_size c - 1\<rparr>) s2)))))"

subsection \<open>Linked segments\<close>

text \<open>\<open>linked h p xs n\<close>: the items \<open>xs\<close> are linked in both directions, the first one's \<open>prev\<close> is \<open>p\<close> and
  the last one's \<open>next\<close> is \<open>n\<close>.\<close>

fun linked :: "(addr \<Rightarrow> item) \<Rightarrow> addr option \<Rightarrow> addr list \<Rightarrow> addr option \<Rightarrow> bool" where
  "linked h p [] n \<longleftrightarrow> True"
| "linked h p [x] n \<longleftrightarrow> it_prev (h x) = p \<and> it_next (h x) = n"
| "linked h p (x # y # ys) n \<longleftrightarrow> it_prev (h x) = p \<and> it_next (h x) = Some y \<and> linked h (Some x) (y # ys) n"

definition first_of :: "'a list \<Rightarrow> 'a option \<Rightarrow> 'a option" where
  "first_of xs d = (case xs of [] \<Rightarrow> d | x # _ \<Rightarrow> Some x)"

definition last_of :: "'a list \<Rightarrow> 'a option \<Rightarrow> 'a option" where
  "last_of xs d = (if xs = [] then d else Some (last xs))"

lemma ends_simps [simp]:
  "first_of [] d = d" "first_of (x # xs) d = Some x" "last_of [] d = d" "last_of (xs @ [x]) d = Some x"
  "first_of (xs @ ys) d = first_of xs (first_of ys d)" "last_of (x # xs) d = last_of xs (Some x)"
  by (auto simp: first_of_def last_of_def split: list.splits)

lemma last_of_append [simp]: "last_of (xs @ ys) d = last_of ys (last_of xs d)"
  by (auto simp: last_of_def)

lemma last_of_in: "Some a = last_of xs d \<Longrightarrow> Some a = d \<or> a \<in> set xs"
  by (auto simp: last_of_def split: if_splits)

lemma linked_Cons: "linked h p (x # xs) n \<longleftrightarrow> it_prev (h x) = p \<and> it_next (h x) = first_of xs n \<and> linked h (Some x) xs n"
  by (cases xs) auto

lemma linked_append [simp]:
  "linked h p (xs @ ys) n \<longleftrightarrow> linked h p xs (first_of ys n) \<and> linked h (last_of xs p) ys n"
  by (induction xs arbitrary: p) (auto simp: linked_Cons)

lemma linked_frame [simp]: "x \<notin> set xs \<Longrightarrow> linked (h(x := v)) p xs n = linked h p xs n"
  by (induction xs arbitrary: p) (auto simp: linked_Cons)

subsection \<open>The list a cache represents\<close>

definition item_ids :: "lru_state \<Rightarrow> addr \<Rightarrow> nat" where
  "item_ids s a = it_id (ls_heap s a)"

definition lru_shape :: "lru_state \<Rightarrow> addr list \<Rightarrow> bool" where
  "lru_shape s xs \<longleftrightarrow> distinct xs \<and> linked (ls_heap s) None xs None \<and>
     lru_head (ls_cache s) = first_of xs None \<and> lru_tail (ls_cache s) = last_of xs None \<and>
     lru_size (ls_cache s) = length xs"

definition lru_index :: "(addr \<Rightarrow> nat) \<Rightarrow> (nat \<Rightarrow> addr option) \<Rightarrow> addr set \<Rightarrow> bool" where
  "lru_index ident items A \<longleftrightarrow> inj_on ident A \<and> (\<forall>a\<in>A. ident a < MAX_CAPACITY) \<and>
     (\<forall>i a. i < MAX_CAPACITY \<longrightarrow> items i = Some a \<longleftrightarrow> a \<in> A \<and> ident a = i)"

definition lru_inv :: "lru_state \<Rightarrow> addr list \<Rightarrow> bool" where
  "lru_inv s xs \<longleftrightarrow> lru_shape s xs \<and> lru_index (item_ids s) (lru_items (ls_cache s)) (set xs)"

text \<open>The operations change links, head, tail, size and \<open>items\<close> only.\<close>

definition lru_frame :: "lru_state \<Rightarrow> lru_state \<Rightarrow> bool" where
  "lru_frame s s' \<longleftrightarrow> item_ids s' = item_ids s \<and> lru_capacity (ls_cache s') = lru_capacity (ls_cache s)"

lemma deref_Some [simp]: "deref (Some a) = Inr a" "deref None = Inl Null_deref"
  by (simp_all add: deref_def)

lemma set_links [simp]:
  "set_prev (Some a) v s = Inr (s\<lparr>ls_heap := (ls_heap s)(a := (ls_heap s a)\<lparr>it_prev := v\<rparr>)\<rparr>)"
  "set_next (Some a) v s = Inr (s\<lparr>ls_heap := (ls_heap s)(a := (ls_heap s a)\<lparr>it_next := v\<rparr>)\<rparr>)"
  by (simp_all add: set_prev_def set_next_def)

lemma item_ids_heap [simp]:
  "(\<And>a. it_id (h a) = it_id (ls_heap s a)) \<Longrightarrow> item_ids (s\<lparr>ls_heap := h\<rparr>) = item_ids s"
  by (auto simp: item_ids_def)

lemma item_ids_cache [simp]: "item_ids (s\<lparr>ls_cache := c\<rparr>) = item_ids s"
  "item_ids (s\<lparr>ls_cache := c, ls_heap := h\<rparr>) = item_ids (s\<lparr>ls_heap := h\<rparr>)"
  by (auto simp: item_ids_def)

lemma lru_index_in:
  "lru_index ident items A \<Longrightarrow> a \<in> A \<Longrightarrow> items (ident a) = Some a \<and> ident a < MAX_CAPACITY"
  by (auto simp: lru_index_def)

lemma lru_index_remove:
  "lru_index ident items (insert a A) \<Longrightarrow> a \<notin> A \<Longrightarrow> lru_index ident (items(ident a := None)) A"
  by (auto simp: lru_index_def) (metis imageI)

lemma lru_index_insert:
  "lru_index ident items A \<Longrightarrow> ident a < MAX_CAPACITY \<Longrightarrow> ident a \<notin> ident ` A \<Longrightarrow>
   lru_index ident (items(ident a := Some a)) (insert a A)"
  by (auto simp: lru_index_def) (metis imageI)

lemma lru_index_None:
  "lru_index ident items A \<Longrightarrow> i < MAX_CAPACITY \<Longrightarrow> items i = None \<longleftrightarrow> i \<notin> ident ` A"
  unfolding lru_index_def by (metis (no_types, lifting) image_iff not_Some_eq)

lemma set_items_ok:
  "i < MAX_CAPACITY \<Longrightarrow> set_items i v s =
     Inr (upd_cache (\<lambda>c. c\<lparr>lru_items := (lru_items c)(i := v)\<rparr>) s)"
  by (simp add: set_items_def)

text \<open>An item in the list is alone, first, last or inside.\<close>

lemma list_position:
  obtains "as = []" "bs = []" | y bs' where "as = []" "bs = y # bs'" | z where "as = [z]" "bs = []"
  | w ws z where "as = w # ws @ [z]" "bs = []" | z y bs' where "as = [z]" "bs = y # bs'"
  | w ws z y bs' where "as = w # ws @ [z]" "bs = y # bs'"
  by (cases as; cases bs; cases "tl as" rule: rev_cases) auto

lemma get_moves_front:
  assumes inv: "lru_inv s (as @ a # bs)"
  shows "\<exists>s'. lru_cache_get s (item_ids s a) = Inr (Some a, s') \<and> lru_inv s' (a # as @ bs) \<and> lru_frame s s'"
proof -
  have ix: "lru_index (item_ids s) (lru_items (ls_cache s)) (insert a (set as \<union> set bs))"
    and sh: "lru_shape s (as @ a # bs)" using inv by (simp_all add: lru_inv_def)
  have "lru_size (ls_cache s) \<noteq> 0" using sh by (simp add: lru_shape_def)
  note unf = lru_cache_get_def Let_def this lru_index_in [OF ix, of a, simplified]
  have "\<exists>s'. lru_cache_get s (item_ids s a) = Inr (Some a, s') \<and> lru_shape s' (a # as @ bs) \<and>
      lru_frame s s' \<and> lru_items (ls_cache s') = lru_items (ls_cache s)"
    using sh by (cases as bs rule: list_position)
      (auto simp: unf not_le lru_shape_def lru_frame_def linked_Cons dest: last_of_in)
  then show ?thesis using ix by (auto simp: lru_inv_def lru_frame_def)
qed

lemma remove_unlinks:
  assumes inv: "lru_inv s (as @ a # bs)"
  shows "\<exists>s'. lru_cache_remove s (item_ids s a) = Inr s' \<and> lru_inv s' (as @ bs) \<and> lru_frame s s'"
proof -
  have ix: "lru_index (item_ids s) (lru_items (ls_cache s)) (insert a (set as \<union> set bs))"
    and sh: "lru_shape s (as @ a # bs)" using inv by (simp_all add: lru_inv_def)
  have "lru_size (ls_cache s) \<noteq> 0" "a \<notin> set as \<union> set bs" using sh by (simp_all add: lru_shape_def)
  note unf = lru_cache_remove_def Let_def this(1) lru_index_in [OF ix, of a, simplified] set_items_ok
  have "\<exists>s'. lru_cache_remove s (item_ids s a) = Inr s' \<and> lru_shape s' (as @ bs) \<and>
      lru_frame s s' \<and> lru_items (ls_cache s') = (lru_items (ls_cache s))(item_ids s a := None)"
    using sh by (cases as bs rule: list_position)
      (auto simp: unf not_le lru_shape_def lru_frame_def linked_Cons dest: last_of_in)
  then show ?thesis
    using lru_index_remove [OF ix \<open>a \<notin> set as \<union> set bs\<close>] by (auto simp: lru_inv_def lru_frame_def)
qed

lemma oldest_takes_last:
  assumes inv: "lru_inv s (as @ [a])"
  shows "\<exists>s'. lru_cache_get_oldest s = Inr (Some a, s') \<and> lru_inv s' as \<and> lru_frame s s'"
proof -
  have ix: "lru_index (item_ids s) (lru_items (ls_cache s)) (insert a (set as))"
    and sh: "lru_shape s (as @ [a])" using inv by (simp_all add: lru_inv_def)
  have a: "a \<notin> set as" using sh by (simp add: lru_shape_def)
  have id: "it_id (ls_heap s a) < MAX_CAPACITY" using lru_index_in [OF ix, of a] by (simp add: item_ids_def)
  have "\<exists>s'. lru_cache_get_oldest s = Inr (Some a, s') \<and> lru_shape s' as \<and>
      lru_frame s s' \<and> lru_items (ls_cache s') = (lru_items (ls_cache s))(it_id (ls_heap s a) := None)"
    using sh id by (cases as "[] :: addr list" rule: list_position)
      (auto simp: lru_cache_get_oldest_def Let_def set_items_ok not_le lru_shape_def lru_frame_def linked_Cons)
  then show ?thesis
    using lru_index_remove [OF ix a] by (auto simp: lru_inv_def lru_frame_def item_ids_def [symmetric])
qed

lemma set_pushes_front:
  assumes inv: "lru_inv s xs" and new: "item_ids s a < MAX_CAPACITY" "a \<notin> set xs" "item_ids s a \<notin> item_ids s ` set xs"
    and room: "length xs \<noteq> lru_capacity (ls_cache s)"
  shows "\<exists>s'. lru_cache_set s a = Inr s' \<and> lru_inv s' (a # xs) \<and> lru_frame s s'"
proof -
  have ix: "lru_index (item_ids s) (lru_items (ls_cache s)) (set xs)" and sh: "lru_shape s xs"
    using inv by (simp_all add: lru_inv_def)
  have id: "it_id (ls_heap s a) < MAX_CAPACITY" using new by (simp add: item_ids_def)
  have "\<exists>s'. lru_cache_set s a = Inr s' \<and> lru_shape s' (a # xs) \<and>
      lru_frame s s' \<and> lru_items (ls_cache s') = (lru_items (ls_cache s))(it_id (ls_heap s a) := Some a)"
    using sh id new(2) room by (cases xs)
      (auto simp: lru_cache_set_def Let_def set_items_ok not_le lru_shape_def lru_frame_def linked_Cons)
  then show ?thesis
    using lru_index_insert [OF ix new(1,3)] by (auto simp: lru_inv_def lru_frame_def item_ids_def [symmetric])
qed

lemma set_evicts_last:
  assumes inv: "lru_inv s (w # ws @ [z])"
    and new: "item_ids s a < MAX_CAPACITY" "a \<notin> set (w # ws @ [z])" "item_ids s a \<notin> item_ids s ` set (w # ws @ [z])"
    and full: "length (w # ws @ [z]) = lru_capacity (ls_cache s)"
  shows "\<exists>s'. lru_cache_set s a = Inr s' \<and> lru_inv s' (a # w # ws) \<and> lru_frame s s'"
proof -
  have ix: "lru_index (item_ids s) (lru_items (ls_cache s)) (insert z (set (w # ws)))"
    and sh: "lru_shape s (w # ws @ [z])" using inv by (simp_all add: lru_inv_def insert_commute)
  have z: "z \<notin> set (w # ws)" using sh by (auto simp: lru_shape_def)
  have id: "it_id (ls_heap s a) < MAX_CAPACITY" "it_id (ls_heap s z) < MAX_CAPACITY"
    using new lru_index_in [OF ix, of z] by (simp_all add: item_ids_def)
  note cap = full [symmetric, simplified]
  have "\<exists>s'. lru_cache_set s a = Inr s' \<and> lru_shape s' (a # w # ws) \<and> lru_frame s s' \<and>
      lru_items (ls_cache s') = (lru_items (ls_cache s))(it_id (ls_heap s z) := None, it_id (ls_heap s a) := Some a)"
    using sh id new(2) cap by (cases ws rule: rev_cases)
      (auto simp: lru_cache_set_def Let_def set_items_ok not_le lru_shape_def lru_frame_def linked_Cons)
  moreover have "item_ids s a \<notin> item_ids s ` set (w # ws)" using new(3) by auto
  ultimately show ?thesis
    using lru_index_insert [OF lru_index_remove [OF ix z] new(1)] by (auto simp: lru_inv_def lru_frame_def item_ids_def [symmetric])
qed

subsection \<open>The contract of a recency list\<close>

text \<open>
  A recency list holds at most \<open>cap\<close> items with distinct ids, most recently used first.  The
  specification is partial: it is undefined on the calls the code does not allow (an id that is not in
  the list, an item that is already there, an eviction that would empty the list).
\<close>

datatype lru_op = LGet nat | LSet addr | LRemove nat | LOldest

fun lru_spec :: "nat \<Rightarrow> (addr \<Rightarrow> nat) \<Rightarrow> addr list \<Rightarrow> lru_op \<Rightarrow> (addr option \<times> addr list) option" where
  "lru_spec cap ident xs (LGet i) =
     (if xs = [] \<or> MAX_CAPACITY \<le> i then Some (None, xs)
      else case List.find (\<lambda>a. ident a = i) xs of None \<Rightarrow> None | Some a \<Rightarrow> Some (Some a, a # remove1 a xs))"
| "lru_spec cap ident xs (LSet a) =
     (if MAX_CAPACITY \<le> ident a \<or> a \<in> set xs \<or> ident a \<in> ident ` set xs then None
      else if length xs \<noteq> cap then Some (None, a # xs)
      else if length xs < 2 then None
      else Some (None, a # butlast xs))"
| "lru_spec cap ident xs (LRemove i) =
     (case List.find (\<lambda>a. ident a = i) xs of None \<Rightarrow> None | Some a \<Rightarrow> Some (None, remove1 a xs))"
| "lru_spec cap ident xs LOldest =
     (if xs = [] then Some (None, []) else Some (Some (last xs), butlast xs))"

fun lru_spec_run :: "nat \<Rightarrow> (addr \<Rightarrow> nat) \<Rightarrow> addr list \<Rightarrow> lru_op list \<Rightarrow> (addr option list \<times> addr list) option" where
  "lru_spec_run cap ident xs [] = Some ([], xs)"
| "lru_spec_run cap ident xs (opn # ops) =
     (case lru_spec cap ident xs opn of None \<Rightarrow> None
      | Some (r, ys) \<Rightarrow> (case lru_spec_run cap ident ys ops of None \<Rightarrow> None
                        | Some (rs, zs) \<Rightarrow> Some (r # rs, zs)))"

fun lru_step :: "lru_state \<Rightarrow> lru_op \<Rightarrow> (addr option \<times> lru_state) result" where
  "lru_step s (LGet i) = lru_cache_get s i"
| "lru_step s (LSet a) = bindR (lru_cache_set s a) (\<lambda>s'. Inr (None, s'))"
| "lru_step s (LRemove i) = bindR (lru_cache_remove s i) (\<lambda>s'. Inr (None, s'))"
| "lru_step s LOldest = lru_cache_get_oldest s"

fun op_run :: "('s \<Rightarrow> 'o \<Rightarrow> ('r \<times> 's) result) \<Rightarrow> 's \<Rightarrow> 'o list \<Rightarrow> ('r list \<times> 's) result" where
  "op_run step s [] = Inr ([], s)"
| "op_run step s (opn # ops) =
     bindR (step s opn) (\<lambda>(r, s1). bindR (op_run step s1 ops) (\<lambda>(rs, s2). Inr (r # rs, s2)))"

text \<open>The interface the FTL relies on: each allowed call is answered as the list answers it, and ids and
  capacity never change.  A sequence of calls is then answered as the list answers it.\<close>

locale recency_list =
  fixes step :: "'s \<Rightarrow> lru_op \<Rightarrow> (addr option \<times> 's) result"
    and repr :: "'s \<Rightarrow> addr list \<Rightarrow> bool"
    and ident :: "'s \<Rightarrow> addr \<Rightarrow> nat"
    and cap :: "'s \<Rightarrow> nat"
  assumes step_ok: "repr s xs \<Longrightarrow> lru_spec (cap s) (ident s) xs opn = Some (r, ys) \<Longrightarrow>
      \<exists>s'. step s opn = Inr (r, s') \<and> repr s' ys \<and> ident s' = ident s \<and> cap s' = cap s"
begin

lemma run_simulates:
  "repr s xs \<Longrightarrow> lru_spec_run (cap s) (ident s) xs ops = Some (rs, ys) \<Longrightarrow>
   \<exists>s'. op_run step s ops = Inr (rs, s') \<and> repr s' ys"
proof (induction ops arbitrary: s xs rs)
  case (Cons opn ops)
  then obtain r zs rs' where z: "lru_spec (cap s) (ident s) xs opn = Some (r, zs)"
    "lru_spec_run (cap s) (ident s) zs ops = Some (rs', ys)" "rs = r # rs'"
    by (auto split: option.splits)
  obtain s1 where s1: "step s opn = Inr (r, s1)" "repr s1 zs" "ident s1 = ident s" "cap s1 = cap s"
    using step_ok [OF Cons.prems(1) z(1)] by blast
  show ?case using Cons.IH [OF s1(2)] s1 z by auto
qed auto

end

lemma find_split:
  "distinct xs \<Longrightarrow> List.find P xs = Some a \<Longrightarrow> \<exists>as bs. xs = as @ a # bs \<and> remove1 a xs = as @ bs \<and> P a"
proof (induction xs)
  case (Cons x xs)
  show ?case
  proof (cases "P x")
    case False
    then obtain as bs where "xs = as @ a # bs" "remove1 a xs = as @ bs" "P a" "x \<noteq> a"
      using Cons by auto
    then have "x # xs = (x # as) @ a # bs \<and> remove1 a (x # xs) = (x # as) @ bs \<and> P a" by simp
    then show ?thesis by blast
  qed (use Cons in auto)
qed simp

lemma lru_inv_distinct: "lru_inv s xs \<Longrightarrow> distinct xs"
  by (simp add: lru_inv_def lru_shape_def)

lemma lru_step_refines:
  assumes "lru_inv s xs" "lru_spec (lru_capacity (ls_cache s)) (item_ids s) xs opn = Some (r, ys)"
  shows "\<exists>s'. lru_step s opn = Inr (r, s') \<and> lru_inv s' ys \<and> lru_frame s s'"
proof (cases opn)
  case (LGet i)
  show ?thesis
  proof (cases "xs = [] \<or> MAX_CAPACITY \<le> i")
    case True
    then show ?thesis using assms LGet
      by (auto simp: lru_cache_get_def lru_inv_def lru_shape_def lru_frame_def)
  next
    case False
    then obtain a where "List.find (\<lambda>a. item_ids s a = i) xs = Some a" "r = Some a" "ys = a # remove1 a xs"
      using assms(2) LGet by (auto split: option.splits)
    moreover then obtain as bs where "xs = as @ a # bs" "remove1 a xs = as @ bs" "item_ids s a = i"
      using find_split [OF lru_inv_distinct [OF assms(1)]] by blast
    ultimately show ?thesis using get_moves_front [of s as a bs] assms(1) LGet by auto
  qed
next
  case (LSet a)
  show ?thesis
  proof (cases "length xs = lru_capacity (ls_cache s)")
    case True
    then obtain w ws z where "xs = w # ws @ [z]" using assms LSet
      by (cases xs; cases "tl xs" rule: rev_cases) (auto split: if_splits)
    then show ?thesis using assms LSet set_evicts_last [of s w ws z a] True
      by (auto simp: split: if_splits)
  next
    case False
    then show ?thesis using assms LSet set_pushes_front [of s xs a] by (auto split: if_splits)
  qed
next
  case (LRemove i)
  then obtain a where "List.find (\<lambda>a. item_ids s a = i) xs = Some a" "r = None" "ys = remove1 a xs"
    using assms by (auto split: option.splits)
  moreover then obtain as bs where "xs = as @ a # bs" "remove1 a xs = as @ bs" "item_ids s a = i"
    using find_split [OF lru_inv_distinct [OF assms(1)]] by blast
  ultimately show ?thesis using remove_unlinks [of s as a bs] assms(1) LRemove by auto
next
  case LOldest
  show ?thesis
  proof (cases "xs = []")
    case True
    then show ?thesis using assms LOldest
      by (auto simp: lru_cache_get_oldest_def lru_inv_def lru_shape_def lru_frame_def)
  qed (use assms LOldest oldest_takes_last [of s "butlast xs" "last xs"] in auto)
qed

interpretation lru: recency_list lru_step lru_inv item_ids "\<lambda>s. lru_capacity (ls_cache s)"
  by unfold_locales (use lru_step_refines in \<open>auto simp: lru_frame_def\<close>)

subsection \<open>Properties\<close>

lemma lru_init_inv:
  assumes "\<And>i. lru_items c i = None"
  shows "lru_inv \<lparr>ls_cache = lru_cache_init cap c, ls_heap = h\<rparr> []"
  using assms by (simp add: lru_inv_def lru_shape_def lru_index_def lru_cache_init_def)

text \<open>
  \<^bold>\<open>C31.\<close>  The LRU cache is a recency list.  After \<open>lru_cache_init\<close> on zeroed memory, every sequence of
  get, set, remove and get-oldest calls that the specification allows runs without a null dereference,
  an index out of bounds or a failed assertion; it returns the specified items, evicts the least
  recently used item exactly when the cache is full, and ends with the links, the \<open>items\<close> array and the
  size representing the specified list.
\<close>

theorem lru_refines_recency_list:
  assumes "\<And>i. lru_items c i = None"
    and "lru_spec_run cap (\<lambda>a. it_id (h a)) [] ops = Some (rs, ys)"
  shows "\<exists>s'. op_run lru_step \<lparr>ls_cache = lru_cache_init cap c, ls_heap = h\<rparr> ops = Inr (rs, s') \<and> lru_inv s' ys"
  using lru.run_simulates [OF lru_init_inv [OF assms(1), of cap h], of ops rs ys] assms(2)
  by (simp add: item_ids_def [abs_def] lru_cache_init_def)

definition blank_lru :: lru_cache where
  "blank_lru = \<lparr>lru_head = None, lru_tail = None, lru_capacity = 0, lru_size = 0, lru_items = (\<lambda>_. None)\<rparr>"

definition sample_items :: "addr \<Rightarrow> item" where
  "sample_items a = \<lparr>it_id = a mod 128, it_prev = None, it_next = None\<rparr>"

theorem lru_refines_recency_list_witness:
  "\<exists>s'. op_run lru_step \<lparr>ls_cache = lru_cache_init 2 blank_lru, ls_heap = sample_items\<rparr>
     [LSet 1, LSet 2, LGet 1, LSet 3, LOldest] = Inr ([None, None, Some 1, None, Some 1], s') \<and> lru_inv s' [3]"
proof (rule lru_refines_recency_list)
  show "lru_items blank_lru i = None" for i by (simp add: blank_lru_def)
  show "lru_spec_run 2 (\<lambda>a. it_id (sample_items a)) [] [LSet 1, LSet 2, LGet 1, LSet 3, LOldest] =
      Some ([None, None, Some 1, None, Some 1], [3])"
    by (simp add: sample_items_def MAX_CAPACITY_def)
qed

text \<open>
  Calls outside the contract are caught by an assertion: \<open>lru_cache_get\<close> and \<open>lru_cache_remove\<close> of
  an id that is not in a non-empty cache stop in \<^verbatim>\<open>BUG_ON\<close>, and a get from an empty cache answers
  \<^verbatim>\<open>NULL\<close>.
\<close>

theorem lru_missing_id:
  assumes "lru_inv s xs" "i \<notin> item_ids s ` set xs" "i < MAX_CAPACITY"
  shows "lru_cache_get s i = (if xs = [] then Inr (None, s) else Inl Bug_on) \<and> lru_cache_remove s i = Inl Bug_on"
proof -
  have "lru_items (ls_cache s) i = None" "lru_size (ls_cache s) = length xs"
    using assms lru_index_None by (auto simp: lru_inv_def lru_shape_def)
  then show ?thesis using assms(3) by (simp add: lru_cache_get_def lru_cache_remove_def Let_def)
qed

theorem lru_missing_id_witness:
  "lru_cache_get \<lparr>ls_cache = lru_cache_init 2 blank_lru, ls_heap = sample_items\<rparr> 5 =
     Inr (None, \<lparr>ls_cache = lru_cache_init 2 blank_lru, ls_heap = sample_items\<rparr>)"
  using lru_missing_id [OF lru_init_inv [of blank_lru 2 sample_items], of 5]
  by (simp add: blank_lru_def MAX_CAPACITY_def)

text \<open>
  The smallest cache: when the list that has to give up an item has fewer than two, the eviction
  in \<open>lru_cache_set\<close> dereferences \<^verbatim>\<open>NULL\<close>.  A cache of capacity 0 or 1 cannot be used.
\<close>

theorem lru_set_small_capacity:
  assumes "lru_inv s xs" "length xs = lru_capacity (ls_cache s)" "length xs < 2"
  shows "lru_cache_set s a = Inl Null_deref"
  using assms(1,3) assms(2) [symmetric]
  by (cases xs) (auto simp: lru_inv_def lru_shape_def lru_cache_set_def Let_def set_next_def linked_Cons)

theorem lru_set_small_capacity_witness:
  "lru_cache_set \<lparr>ls_cache = lru_cache_init 0 blank_lru, ls_heap = sample_items\<rparr> 5 = Inl Null_deref"
  by (rule lru_set_small_capacity [OF lru_init_inv]) (simp_all add: blank_lru_def lru_cache_init_def)

end
