(* ===== verification/City.thy ===== *)
theory City
  imports VPrelude
begin

unbundle bit_operations_syntax

text \<open>
  \<^verbatim>\<open>city.c\<close>: the CityHash family the demand FTL hashes its keys with.

  A \<^verbatim>\<open>const uint8_t *\<close> is a position in a byte array \<open>mem\<close>; positions are integers because the
  code forms addresses such as \<^verbatim>\<open>s + len - tail_done\<close> that may lie before \<^verbatim>\<open>s\<close>.  A load that does
  not lie inside the array is \<open>Inl Out_of_bounds\<close>.  \<^verbatim>\<open>size_t\<close> and \<^verbatim>\<open>uint64_t\<close> are 64-bit words, so the
  arithmetic of the hash wraps as in C.  The loads of one C expression or block are made first and
  the arithmetic on the loaded values follows; loads have no effect, so their order is immaterial.
  The byte order is the little-endian one of the supported hosts (\<^verbatim>\<open>WORDS_BIGENDIAN\<close> is not defined).

  The \<^verbatim>\<open>CityHashCrc\<close> group is compiled only with \<^verbatim>\<open>__SSE4_2__\<close>; the intrinsic \<^verbatim>\<open>_mm_crc32_u64\<close> it
  uses is the parameter \<open>crc\<close> of its definitions.

  The main results: for every length, the hash functions return, they never read outside the
  \<^verbatim>\<open>len\<close> bytes they are given, and the value depends on nothing else; the exception is
  \<^verbatim>\<open>CityHash128\<close>, which reads 16 bytes whatever the length is.
\<close>

section \<open>Loads and mixing functions\<close>

type_synonym mem = "u8 list"

record uint128 =
  first :: u64
  second :: u64

definition le_word :: "u8 list \<Rightarrow> 'a::len word" where
  "le_word bs = foldr (\<lambda>b acc. ucast b OR push_bit 8 acc) bs 0"

definition load_bytes :: "mem \<Rightarrow> int \<Rightarrow> nat \<Rightarrow> mem result" where
  "load_bytes m p n = (if 0 \<le> p \<and> p + int n \<le> int (length m)
     then Inr (take n (drop (nat p) m)) else Inl Out_of_bounds)"

definition UNALIGNED_LOAD64 :: "mem \<Rightarrow> int \<Rightarrow> u64 result" where
  "UNALIGNED_LOAD64 m p = bindR (load_bytes m p 8) (\<lambda>bs. Inr (le_word bs))"

definition UNALIGNED_LOAD32 :: "mem \<Rightarrow> int \<Rightarrow> u32 result" where
  "UNALIGNED_LOAD32 m p = bindR (load_bytes m p 4) (\<lambda>bs. Inr (le_word bs))"

definition get_byte :: "mem \<Rightarrow> int \<Rightarrow> u8 result" where
  "get_byte m p = (if 0 \<le> p \<and> p < int (length m) then Inr (m ! nat p) else Inl Out_of_bounds)"

definition bswap_32 :: "u32 \<Rightarrow> u32" where
  "bswap_32 x = push_bit 24 (x AND 0xff) OR push_bit 8 (x AND 0xff00)
     OR (drop_bit 8 x AND 0xff00) OR (drop_bit 24 x AND 0xff)"

definition bswap_64 :: "u64 \<Rightarrow> u64" where
  "bswap_64 x = push_bit 32 (ucast (bswap_32 (ucast x))) OR ucast (bswap_32 (ucast (drop_bit 32 x)))"

definition Hash128to64 :: "uint128 \<Rightarrow> u64" where
  "Hash128to64 x =
     (let kMul = 0x9ddfea08eb382d69;
          a = (first x XOR second x) * kMul;
          a = a XOR drop_bit 47 a;
          b = (second x XOR a) * kMul;
          b = b XOR drop_bit 47 b
      in b * kMul)"

definition Fetch64 :: "mem \<Rightarrow> int \<Rightarrow> u64 result" where
  "Fetch64 m p = UNALIGNED_LOAD64 m p"

definition Fetch32 :: "mem \<Rightarrow> int \<Rightarrow> u32 result" where
  "Fetch32 m p = UNALIGNED_LOAD32 m p"

definition k0 :: u64 where "k0 = 0xc3a5c85c97cb3127"

definition k1 :: u64 where "k1 = 0xb492b66fbe98f273"

definition k2 :: u64 where "k2 = 0x9ae16a3b2f90404f"

definition c1 :: u32 where "c1 = 0xcc9e2d51"

definition c2 :: u32 where "c2 = 0x1b873593"

definition fmix :: "u32 \<Rightarrow> u32" where
  "fmix h =
     (let h = h XOR drop_bit 16 h;
          h = h * 0x85ebca6b;
          h = h XOR drop_bit 13 h;
          h = h * 0xc2b2ae35
      in h XOR drop_bit 16 h)"

definition Rotate32 :: "u32 \<Rightarrow> nat \<Rightarrow> u32" where
  "Rotate32 val shift = (if shift = 0 then val else drop_bit shift val OR push_bit (32 - shift) val)"

definition PERMUTE3 :: "'a \<times> 'a \<times> 'a \<Rightarrow> 'a \<times> 'a \<times> 'a" where
  "PERMUTE3 t = (case t of (a, b, c) \<Rightarrow> (c, a, b))"

definition Mur :: "u32 \<Rightarrow> u32 \<Rightarrow> u32" where
  "Mur a h =
     (let a = a * c1;
          a = Rotate32 a 17;
          a = a * c2;
          h = h XOR a;
          h = Rotate32 h 19
      in h * 5 + 0xe6546b64)"

section \<open>The 32-bit hash\<close>

definition Hash32Len13to24 :: "mem \<Rightarrow> int \<Rightarrow> u64 \<Rightarrow> u32 result" where
  "Hash32Len13to24 m s len =
     bindR (Fetch32 m (s - 4 + uint (drop_bit 1 len))) (\<lambda>a.
     bindR (Fetch32 m (s + 4)) (\<lambda>b.
     bindR (Fetch32 m (s + uint len - 8)) (\<lambda>c.
     bindR (Fetch32 m (s + uint (drop_bit 1 len))) (\<lambda>d.
     bindR (Fetch32 m s) (\<lambda>e.
     bindR (Fetch32 m (s + uint len - 4)) (\<lambda>f.
     Inr (let h = ucast len in fmix (Mur f (Mur e (Mur d (Mur c (Mur b (Mur a h))))))))))))) "

fun len0to4_loop :: "mem \<Rightarrow> u32 \<Rightarrow> u32 \<Rightarrow> u32 \<times> u32" where
  "len0to4_loop [] b c = (b, c)"
| "len0to4_loop (v # vs) b c = (let b = b * c1 + scast v in len0to4_loop vs b (c XOR b))"

definition Hash32Len0to4 :: "mem \<Rightarrow> int \<Rightarrow> u64 \<Rightarrow> u32 result" where
  "Hash32Len0to4 m s len =
     bindR (load_bytes m s (unat len)) (\<lambda>bs.
     Inr (case len0to4_loop bs 0 9 of (b, c) \<Rightarrow> fmix (Mur b (Mur (ucast len) c))))"

definition Hash32Len5to12 :: "mem \<Rightarrow> int \<Rightarrow> u64 \<Rightarrow> u32 result" where
  "Hash32Len5to12 m s len =
     bindR (Fetch32 m s) (\<lambda>fa.
     bindR (Fetch32 m (s + uint len - 4)) (\<lambda>fb.
     bindR (Fetch32 m (s + uint (drop_bit 1 len AND 4))) (\<lambda>fc.
     Inr (let a = ucast len; b = ucast (len * 5); c = 9; d = b;
              a = a + fa; b = b + fb; c = c + fc
          in fmix (Mur c (Mur b (Mur a d)))))))"

definition mix_a :: "u32 \<Rightarrow> u32" where
  "mix_a x = Rotate32 (x * c1) 17 * c2"

definition city32_step :: "mem \<Rightarrow> int \<Rightarrow> u32 \<times> u32 \<times> u32 \<Rightarrow> (u32 \<times> u32 \<times> u32) result" where
  "city32_step m s st = (case st of (h, g, f) \<Rightarrow>
     bindR (Fetch32 m s) (\<lambda>l0.
     bindR (Fetch32 m (s + 4)) (\<lambda>a1.
     bindR (Fetch32 m (s + 8)) (\<lambda>l2.
     bindR (Fetch32 m (s + 12)) (\<lambda>l3.
     bindR (Fetch32 m (s + 16)) (\<lambda>a4.
     Inr (let a0 = mix_a l0; a2 = mix_a l2; a3 = mix_a l3;
              h = h XOR a0; h = Rotate32 h 18; h = h * 5 + 0xe6546b64;
              f = f + a1; f = Rotate32 f 19; f = f * c1;
              g = g + a2; g = Rotate32 g 18; g = g * 5 + 0xe6546b64;
              h = h XOR (a3 + a1); h = Rotate32 h 19; h = h * 5 + 0xe6546b64;
              g = g XOR a4; g = bswap_32 g * 5;
              h = h + a4 * 5; h = bswap_32 h;
              f = f + a0
          in case PERMUTE3 (f, h, g) of (f, h, g) \<Rightarrow> (h, g, f))))))))"


lemma Fetch32_InrD: "Fetch32 m p = Inr v \<Longrightarrow> 0 \<le> p \<and> p + 4 \<le> int (length m)"
  by (auto simp: Fetch32_def UNALIGNED_LOAD32_def load_bytes_def split: if_splits)

lemma Fetch64_InrD: "Fetch64 m p = Inr v \<Longrightarrow> 0 \<le> p \<and> p + 8 \<le> int (length m)"
  by (auto simp: Fetch64_def UNALIGNED_LOAD64_def load_bytes_def split: if_splits)

lemma city32_step_InrD: "city32_step m s st = Inr st' \<Longrightarrow> 0 \<le> s \<and> s + 20 \<le> int (length m)"
  by (auto simp: city32_step_def bindR_eq_Inr split: prod.splits dest!: Fetch32_InrD)

text \<open>
  The do-while loops carry no bound of their own in the model: every round loads from the array, so
  a loop that would run on forever leaves the array and ends in \<open>Out_of_bounds\<close>.
\<close>

function city32_loop :: "mem \<Rightarrow> int \<Rightarrow> u64 \<Rightarrow> u32 \<times> u32 \<times> u32 \<Rightarrow> (u32 \<times> u32 \<times> u32) result" where
  "city32_loop m s iters st =
     bindR (city32_step m s st) (\<lambda>st.
     let s = s + 20; iters = iters - 1 in
     if iters \<noteq> 0 then city32_loop m s iters st else Inr st)"
  by pat_completeness auto
termination
  by (relation "measure (\<lambda>(m, s, _). nat (int (length m) - s))") (auto dest!: city32_step_InrD)

declare city32_loop.simps [simp del]

definition CityHash32 :: "mem \<Rightarrow> int \<Rightarrow> u64 \<Rightarrow> u32 result" where
  "CityHash32 m s len =
     (if len \<le> 24 then
        (if len \<le> 12 then (if len \<le> 4 then Hash32Len0to4 m s len else Hash32Len5to12 m s len)
         else Hash32Len13to24 m s len)
      else
        bindR (Fetch32 m (s + uint len - 4)) (\<lambda>l0.
        bindR (Fetch32 m (s + uint len - 8)) (\<lambda>l1.
        bindR (Fetch32 m (s + uint len - 16)) (\<lambda>l2.
        bindR (Fetch32 m (s + uint len - 12)) (\<lambda>l3.
        bindR (Fetch32 m (s + uint len - 20)) (\<lambda>l4.
        bindR (city32_loop m s ((len - 1) div 20)
          (let h = ucast len; g = c1 * ucast len; f = g;
               a0 = mix_a l0; a1 = mix_a l1; a2 = mix_a l2; a3 = mix_a l3; a4 = mix_a l4;
               h = h XOR a0; h = Rotate32 h 19; h = h * 5 + 0xe6546b64;
               h = h XOR a2; h = Rotate32 h 19; h = h * 5 + 0xe6546b64;
               g = g XOR a1; g = Rotate32 g 19; g = g * 5 + 0xe6546b64;
               g = g XOR a3; g = Rotate32 g 19; g = g * 5 + 0xe6546b64;
               f = f + a4; f = Rotate32 f 19; f = f * 5 + 0xe6546b64
           in (h, g, f))) (\<lambda>st.
        Inr (case st of (h, g, f) \<Rightarrow>
          let g = Rotate32 g 11 * c1; g = Rotate32 g 17 * c1;
              f = Rotate32 f 11 * c1; f = Rotate32 f 17 * c1;
              h = Rotate32 (h + g) 19; h = h * 5 + 0xe6546b64; h = Rotate32 h 17 * c1;
              h = Rotate32 (h + f) 19; h = h * 5 + 0xe6546b64; h = Rotate32 h 17 * c1
          in h))))))))"

section \<open>The 64-bit hash\<close>

definition Rotate :: "u64 \<Rightarrow> nat \<Rightarrow> u64" where
  "Rotate val shift = (if shift = 0 then val else drop_bit shift val OR push_bit (64 - shift) val)"

definition ShiftMix :: "u64 \<Rightarrow> u64" where
  "ShiftMix val = val XOR drop_bit 47 val"

definition HashLen16 :: "u64 \<Rightarrow> u64 \<Rightarrow> u64" where
  "HashLen16 u v = Hash128to64 \<lparr>first = u, second = v\<rparr>"

definition HashLen16Mul :: "u64 \<Rightarrow> u64 \<Rightarrow> u64 \<Rightarrow> u64" where
  "HashLen16Mul u v mul =
     (let a = (u XOR v) * mul;
          a = a XOR drop_bit 47 a;
          b = (v XOR a) * mul;
          b = b XOR drop_bit 47 b
      in b * mul)"

definition HashLen0to16 :: "mem \<Rightarrow> int \<Rightarrow> u64 \<Rightarrow> u64 result" where
  "HashLen0to16 m s len =
     (if 8 \<le> len then
        bindR (Fetch64 m s) (\<lambda>fa.
        bindR (Fetch64 m (s + uint len - 8)) (\<lambda>b.
        Inr (let mul = k2 + len * 2;
                 a = fa + k2;
                 c = Rotate b 37 * mul + a;
                 d = (Rotate a 25 + b) * mul
             in HashLen16Mul c d mul)))
      else if 4 \<le> len then
        bindR (Fetch32 m s) (\<lambda>fa.
        bindR (Fetch32 m (s + uint len - 4)) (\<lambda>fb.
        Inr (let mul = k2 + len * 2;
                 a = ucast fa :: u64
             in HashLen16Mul (len + push_bit 3 a) (ucast fb) mul)))
      else if 0 < len then
        bindR (get_byte m s) (\<lambda>a.
        bindR (get_byte m (s + uint (drop_bit 1 len))) (\<lambda>b.
        bindR (get_byte m (s + uint (len - 1))) (\<lambda>c.
        Inr (let y = ucast a + push_bit 8 (ucast b) :: u32;
                 z = ucast len + push_bit 2 (ucast c) :: u32
             in ShiftMix (ucast y * k2 XOR ucast z * k0) * k2))))
      else Inr k2)"

definition HashLen17to32 :: "mem \<Rightarrow> int \<Rightarrow> u64 \<Rightarrow> u64 result" where
  "HashLen17to32 m s len =
     bindR (Fetch64 m s) (\<lambda>fa.
     bindR (Fetch64 m (s + 8)) (\<lambda>b.
     bindR (Fetch64 m (s + uint len - 8)) (\<lambda>fc.
     bindR (Fetch64 m (s + uint len - 16)) (\<lambda>fd.
     Inr (let mul = k2 + len * 2;
              a = fa * k1;
              c = fc * mul;
              d = fd * k2
          in HashLen16Mul (Rotate (a + b) 43 + Rotate c 30 + d) (a + Rotate (b + k2) 18 + c) mul)))))"

definition WeakHashLen32WithSeeds :: "u64 \<Rightarrow> u64 \<Rightarrow> u64 \<Rightarrow> u64 \<Rightarrow> u64 \<Rightarrow> u64 \<Rightarrow> uint128" where
  "WeakHashLen32WithSeeds w x y z a b =
     (let a = a + w;
          b = Rotate (b + a + z) 21;
          c = a;
          a = a + x;
          a = a + y;
          b = b + Rotate a 44
      in \<lparr>first = a + z, second = b + c\<rparr>)"

definition WeakHashLen32WithSeedsArray :: "mem \<Rightarrow> int \<Rightarrow> u64 \<Rightarrow> u64 \<Rightarrow> uint128 result" where
  "WeakHashLen32WithSeedsArray m s a b =
     bindR (Fetch64 m s) (\<lambda>w.
     bindR (Fetch64 m (s + 8)) (\<lambda>x.
     bindR (Fetch64 m (s + 16)) (\<lambda>y.
     bindR (Fetch64 m (s + 24)) (\<lambda>z.
     Inr (WeakHashLen32WithSeeds w x y z a b)))))"

definition HashLen33to64 :: "mem \<Rightarrow> int \<Rightarrow> u64 \<Rightarrow> u64 result" where
  "HashLen33to64 m s len =
     bindR (Fetch64 m s) (\<lambda>fa.
     bindR (Fetch64 m (s + 8)) (\<lambda>b.
     bindR (Fetch64 m (s + uint len - 24)) (\<lambda>c.
     bindR (Fetch64 m (s + uint len - 32)) (\<lambda>d.
     bindR (Fetch64 m (s + 16)) (\<lambda>fe.
     bindR (Fetch64 m (s + 24)) (\<lambda>ff.
     bindR (Fetch64 m (s + uint len - 8)) (\<lambda>g.
     bindR (Fetch64 m (s + uint len - 16)) (\<lambda>fh.
     Inr (let mul = k2 + len * 2;
              a = fa * k2;
              e = fe * k2;
              f = ff * 9;
              h = fh * mul;
              u = Rotate (a + g) 43 + (Rotate b 30 + c) * 9;
              v = ((a + g) XOR d) + f + 1;
              w = bswap_64 ((u + v) * mul) + h;
              x = Rotate (e + f) 42 + c;
              y = (bswap_64 ((v + w) * mul) + g) * mul;
              z = e + f + c;
              a = bswap_64 ((x + z) * mul + y) + b;
              b = ShiftMix ((z + a) * mul + d + h) * mul
          in b + x)))))))))"

text \<open>The 56 bytes of state of the long hashes and the inner loop they share.\<close>

record city_state =
  cx :: u64
  cy :: u64
  cz :: u64
  cv :: uint128
  cw :: uint128

definition city_step :: "mem \<Rightarrow> int \<Rightarrow> city_state \<Rightarrow> city_state result" where
  "city_step m s st =
     bindR (Fetch64 m (s + 8)) (\<lambda>f8.
     bindR (Fetch64 m (s + 48)) (\<lambda>f48.
     bindR (Fetch64 m (s + 40)) (\<lambda>f40.
     bindR (Fetch64 m (s + 16)) (\<lambda>f16.
     let x = cx st; y = cy st; z = cz st; v = cv st; w = cw st;
         x = Rotate (x + y + first v + f8) 37 * k1;
         y = Rotate (y + second v + f48) 42 * k1;
         x = x XOR second w;
         y = y + (first v + f40);
         z = Rotate (z + first w) 33 * k1 in
     bindR (WeakHashLen32WithSeedsArray m s (second v * k1) (x + first w)) (\<lambda>v'.
     bindR (WeakHashLen32WithSeedsArray m (s + 32) (z + second w) (y + f16)) (\<lambda>w'.
     Inr \<lparr>cx = z, cy = y, cz = x, cv = v', cw = w'\<rparr>))))))"

lemma city_step_InrD: "city_step m s st = Inr st' \<Longrightarrow> 0 \<le> s \<and> s + 56 \<le> int (length m)"
  by (auto simp: city_step_def WeakHashLen32WithSeedsArray_def Let_def bindR_eq_Inr dest!: Fetch64_InrD)

function city64_loop :: "mem \<Rightarrow> int \<Rightarrow> u64 \<Rightarrow> city_state \<Rightarrow> city_state result" where
  "city64_loop m s len st =
     bindR (city_step m s st) (\<lambda>st.
     let s = s + 64; len = len - 64 in
     if len \<noteq> 0 then city64_loop m s len st else Inr st)"
  by pat_completeness auto
termination
  by (relation "measure (\<lambda>(m, s, _). nat (int (length m) - s))") (auto dest!: city_step_InrD)

declare city64_loop.simps [simp del]

definition CityHash64 :: "mem \<Rightarrow> int \<Rightarrow> u64 \<Rightarrow> u64 result" where
  "CityHash64 m s len =
     (if len \<le> 32 then (if len \<le> 16 then HashLen0to16 m s len else HashLen17to32 m s len)
      else if len \<le> 64 then HashLen33to64 m s len
      else
        bindR (Fetch64 m (s + uint len - 40)) (\<lambda>x.
        bindR (Fetch64 m (s + uint len - 16)) (\<lambda>f16.
        bindR (Fetch64 m (s + uint len - 56)) (\<lambda>f56.
        bindR (Fetch64 m (s + uint len - 48)) (\<lambda>f48.
        bindR (Fetch64 m (s + uint len - 24)) (\<lambda>f24.
        let y = f16 + f56; z = HashLen16 (f48 + len) f24 in
        bindR (WeakHashLen32WithSeedsArray m (s + uint len - 64) len z) (\<lambda>v.
        bindR (WeakHashLen32WithSeedsArray m (s + uint len - 32) (y + k1) x) (\<lambda>w.
        bindR (Fetch64 m s) (\<lambda>f0.
        bindR (city64_loop m s ((len - 1) AND NOT 63)
          \<lparr>cx = x * k1 + f0, cy = y, cz = z, cv = v, cw = w\<rparr>) (\<lambda>st.
        Inr (HashLen16 (HashLen16 (first (cv st)) (first (cw st)) + ShiftMix (cy st) * k1 + cz st)
               (HashLen16 (second (cv st)) (second (cw st)) + cx st))))))))))))"

definition CityHash64WithSeeds :: "mem \<Rightarrow> int \<Rightarrow> u64 \<Rightarrow> u64 \<Rightarrow> u64 \<Rightarrow> u64 result" where
  "CityHash64WithSeeds m s len seed0 seed1 =
     bindR (CityHash64 m s len) (\<lambda>h. Inr (HashLen16 (h - seed0) seed1))"

definition CityHash64WithSeed :: "mem \<Rightarrow> int \<Rightarrow> u64 \<Rightarrow> u64 \<Rightarrow> u64 result" where
  "CityHash64WithSeed m s len seed = CityHash64WithSeeds m s len k2 seed"

section \<open>The 128-bit hash\<close>

definition murmur_step :: "mem \<Rightarrow> int \<Rightarrow> u64 \<times> u64 \<times> u64 \<times> u64 \<Rightarrow> (u64 \<times> u64 \<times> u64 \<times> u64) result" where
  "murmur_step m s st = (case st of (a, b, c, d) \<Rightarrow>
     bindR (Fetch64 m s) (\<lambda>f0.
     bindR (Fetch64 m (s + 8)) (\<lambda>f8.
     Inr (let a = a XOR (ShiftMix (f0 * k1) * k1);
              a = a * k1;
              b = b XOR a;
              c = c XOR (ShiftMix (f8 * k1) * k1);
              c = c * k1;
              d = d XOR c
          in (a, b, c, d)))))"

lemma murmur_step_InrD: "murmur_step m s st = Inr st' \<Longrightarrow> 0 \<le> s \<and> s + 16 \<le> int (length m)"
  by (auto simp: murmur_step_def bindR_eq_Inr split: prod.splits dest!: Fetch64_InrD)

function murmur_loop ::
  "mem \<Rightarrow> int \<Rightarrow> int \<Rightarrow> u64 \<times> u64 \<times> u64 \<times> u64 \<Rightarrow> (u64 \<times> u64 \<times> u64 \<times> u64) result" where
  "murmur_loop m s l st =
     bindR (murmur_step m s st) (\<lambda>st.
     let s = s + 16; l = l - 16 in
     if 0 < l then murmur_loop m s l st else Inr st)"
  by pat_completeness auto
termination
  by (relation "measure (\<lambda>(m, s, _). nat (int (length m) - s))") (auto dest!: murmur_step_InrD)

declare murmur_loop.simps [simp del]

text \<open>\<^verbatim>\<open>signed long l = len - 16\<close>: the difference wraps as unsigned and is read as signed.\<close>

definition CityMurmur :: "mem \<Rightarrow> int \<Rightarrow> u64 \<Rightarrow> uint128 \<Rightarrow> uint128 result" where
  "CityMurmur m s len seed =
     (let a = first seed; b = second seed; l = sint (len - 16) in
      bindR (if l \<le> 0 then
               bindR (HashLen0to16 m s len) (\<lambda>h.
               let a = ShiftMix (a * k1) * k1; c = b * k1 + h in
               bindR (if 8 \<le> len then Fetch64 m s else Inr c) (\<lambda>e.
               Inr (a, b, c, ShiftMix (a + e))))
             else
               bindR (Fetch64 m (s + uint len - 8)) (\<lambda>f8.
               bindR (Fetch64 m (s + uint len - 16)) (\<lambda>f16.
               let c = HashLen16 (f8 + k1) a; d = HashLen16 (b + len) (c + f16) in
               murmur_loop m s l (a + d, b, c, d))))
        (\<lambda>(a, b, c, d).
         let a = HashLen16 a c; b = HashLen16 d b in
         Inr \<lparr>first = a XOR b, second = HashLen16 b a\<rparr>))"

function city128_loop :: "mem \<Rightarrow> int \<Rightarrow> u64 \<Rightarrow> city_state \<Rightarrow> (int \<times> u64 \<times> city_state) result" where
  "city128_loop m s len st =
     bindR (city_step m s st) (\<lambda>st.
     bindR (city_step m (s + 64) st) (\<lambda>st.
     let s = s + 128; len = len - 128 in
     if 128 \<le> len then city128_loop m s len st else Inr (s, len, st)))"
  by pat_completeness auto
termination
  by (relation "measure (\<lambda>(m, s, _). nat (int (length m) - s))") (auto dest!: city_step_InrD)

declare city128_loop.simps [simp del]

text \<open>
  The tail loop counts \<open>tail_done\<close> up by 32 while it is below \<open>len\<close>.  The loop before leaves
  \<open>len < 128\<close>, so the counter stays at most 128 and is a natural number here.
\<close>

definition tail_step :: "mem \<Rightarrow> int \<Rightarrow> city_state \<Rightarrow> city_state result" where
  "tail_step m p st =
     bindR (Fetch64 m (p + 16)) (\<lambda>f16.
     bindR (Fetch64 m p) (\<lambda>f0.
     let x = cx st; y = cy st; z = cz st; v = cv st; w = cw st;
         y = Rotate (x + y) 42 * k0 + second v;
         w = w\<lparr>first := first w + f16\<rparr>;
         x = x * k0 + first w;
         z = z + (second w + f0);
         w = w\<lparr>second := second w + first v\<rparr> in
     bindR (WeakHashLen32WithSeedsArray m p (first v + z) (second v)) (\<lambda>v.
     Inr \<lparr>cx = x, cy = y, cz = z, cv = v\<lparr>first := first v * k0\<rparr>, cw = w\<rparr>)))"

function tail_loop :: "mem \<Rightarrow> int \<Rightarrow> nat \<Rightarrow> nat \<Rightarrow> city_state \<Rightarrow> city_state result" where
  "tail_loop m s len tail_done st =
     (if tail_done < len then
        let tail_done = tail_done + 32 in
        bindR (tail_step m (s + int len - int tail_done) st) (\<lambda>st. tail_loop m s len tail_done st)
      else Inr st)"
  by pat_completeness auto
termination
  by (relation "measure (\<lambda>(m, s, len, td, _). len - td)") auto

declare tail_loop.simps [simp del]

definition city128_finish :: "mem \<Rightarrow> int \<times> u64 \<times> city_state \<Rightarrow> uint128 result" where
  "city128_finish m t = (case t of (s, len, st) \<Rightarrow>
     let x = cx st; y = cy st; z = cz st; v = cv st; w = cw st;
         x = x + Rotate (first v + z) 49 * k0;
         y = y * k0 + Rotate (second w) 37;
         z = z * k0 + Rotate (first w) 27;
         w = w\<lparr>first := first w * 9\<rparr>;
         v = v\<lparr>first := first v * k0\<rparr> in
     bindR (tail_loop m s (unat len) 0 \<lparr>cx = x, cy = y, cz = z, cv = v, cw = w\<rparr>) (\<lambda>st.
     let v = cv st; w = cw st;
         x = HashLen16 (cx st) (first v);
         y = HashLen16 (cy st + cz st) (first w) in
     Inr \<lparr>first = HashLen16 (x + second v) (second w) + y,
          second = HashLen16 (x + second w) (y + second v)\<rparr>))"

definition CityHash128WithSeed :: "mem \<Rightarrow> int \<Rightarrow> u64 \<Rightarrow> uint128 \<Rightarrow> uint128 result" where
  "CityHash128WithSeed m s len seed =
     (if len < 128 then CityMurmur m s len seed
      else
        bindR (Fetch64 m s) (\<lambda>f0.
        bindR (Fetch64 m (s + 8)) (\<lambda>f8.
        bindR (Fetch64 m (s + 88)) (\<lambda>f88.
        let x = first seed; y = second seed; z = len * k1;
            v1 = Rotate (y XOR k1) 49 * k1 + f0;
            v2 = Rotate v1 42 * k1 + f8;
            w1 = Rotate (y + z) 35 * k1 + x;
            w2 = Rotate (x + f88) 53 * k1 in
        bindR (city128_loop m s len \<lparr>cx = x, cy = y, cz = z, cv = \<lparr>first = v1, second = v2\<rparr>,
                                     cw = \<lparr>first = w1, second = w2\<rparr>\<rparr>)
          (city128_finish m)))))"

definition CityHash128 :: "mem \<Rightarrow> int \<Rightarrow> u64 \<Rightarrow> uint128 result" where
  "CityHash128 m s len =
     bindR (Fetch64 m s) (\<lambda>f0.
     bindR (Fetch64 m (s + 8)) (\<lambda>f8.
     let output1 = \<lparr>first = f0, second = f8 + k0\<rparr>; output2 = \<lparr>first = k0, second = k1\<rparr> in
     if 16 \<le> len then CityHash128WithSeed m (s + 16) (len - 16) output1
     else CityHash128WithSeed m s len output2))"

section \<open>The CRC variants\<close>

record crc_state =
  ra :: u64
  rb :: u64
  rc :: u64
  rd :: u64
  re :: u64
  rf :: u64
  rg :: u64
  rh :: u64
  rx :: u64
  ry :: u64
  rz :: u64

definition CHUNK :: "(u64 \<Rightarrow> u64 \<Rightarrow> u64) \<Rightarrow> nat \<Rightarrow> mem \<Rightarrow> int \<Rightarrow> crc_state \<Rightarrow> crc_state result" where
  "CHUNK crc r m s st =
     bindR (Fetch64 m s) (\<lambda>f0.
     bindR (Fetch64 m (s + 8)) (\<lambda>f8.
     bindR (Fetch64 m (s + 16)) (\<lambda>f16.
     bindR (Fetch64 m (s + 24)) (\<lambda>f24.
     bindR (Fetch64 m (s + 32)) (\<lambda>f32.
     Inr (let a = ra st; b = rb st; c = rc st; d = rd st; e = re st; f = rf st; g = rg st; h = rh st;
              (x, z, y) = PERMUTE3 (rx st, rz st, ry st);
              b = b + f0; c = c + f8; d = d + f16; e = e + f24; f = f + f32;
              a = a + b; h = h + f; b = b + c; f = f + d; g = g + e;
              e = e + z; g = g + x;
              z = crc z (b + g); y = crc y (e + h); x = crc x (f + a);
              e = Rotate e r;
              c = c + e
          in \<lparr>ra = a, rb = b, rc = c, rd = d, re = e, rf = f, rg = g, rh = h, rx = x, ry = y, rz = z\<rparr>))))))"

definition perm_ahc :: "crc_state \<Rightarrow> crc_state" where
  "perm_ahc st = (case PERMUTE3 (ra st, rh st, rc st) of (a, h, c) \<Rightarrow> st\<lparr>ra := a, rh := h, rc := c\<rparr>)"

definition perm_ahf :: "crc_state \<Rightarrow> crc_state" where
  "perm_ahf st = (case PERMUTE3 (ra st, rh st, rf st) of (a, h, f) \<Rightarrow> st\<lparr>ra := a, rh := h, rf := f\<rparr>)"

definition perm_bhf :: "crc_state \<Rightarrow> crc_state" where
  "perm_bhf st = (case PERMUTE3 (rb st, rh st, rf st) of (b, h, f) \<Rightarrow> st\<lparr>rb := b, rh := h, rf := f\<rparr>)"

definition perm_bhd :: "crc_state \<Rightarrow> crc_state" where
  "perm_bhd st = (case PERMUTE3 (rb st, rh st, rd st) of (b, h, d) \<Rightarrow> st\<lparr>rb := b, rh := h, rd := d\<rparr>)"

definition perm_bhe :: "crc_state \<Rightarrow> crc_state" where
  "perm_bhe st = (case PERMUTE3 (rb st, rh st, re st) of (b, h, e) \<Rightarrow> st\<lparr>rb := b, rh := h, re := e\<rparr>)"

definition perm_ahe :: "crc_state \<Rightarrow> crc_state" where
  "perm_ahe st = (case PERMUTE3 (ra st, rh st, re st) of (a, h, e) \<Rightarrow> st\<lparr>ra := a, rh := h, re := e\<rparr>)"

definition perm_chg :: "crc_state \<Rightarrow> crc_state" where
  "perm_chg st = (case PERMUTE3 (rc st, rh st, rg st) of (c, h, g) \<Rightarrow> st\<lparr>rc := c, rh := h, rg := g\<rparr>)"

definition crc_round :: "(u64 \<Rightarrow> u64 \<Rightarrow> u64) \<Rightarrow> mem \<Rightarrow> int \<Rightarrow> crc_state \<Rightarrow> crc_state result" where
  "crc_round crc m s st =
     bindR (CHUNK crc 0 m s st) (\<lambda>st.
     bindR (CHUNK crc 33 m (s + 40) (perm_ahc st)) (\<lambda>st.
     bindR (CHUNK crc 0 m (s + 80) (perm_ahf st)) (\<lambda>st.
     bindR (CHUNK crc 42 m (s + 120) (perm_bhf st)) (\<lambda>st.
     bindR (CHUNK crc 0 m (s + 160) (perm_bhd st)) (\<lambda>st.
     bindR (CHUNK crc 33 m (s + 200) (perm_bhe st)) (\<lambda>st.
     Inr (perm_ahe st)))))))"

lemma CHUNK_InrD: "CHUNK crc r m s st = Inr st' \<Longrightarrow> 0 \<le> s \<and> s + 40 \<le> int (length m)"
  unfolding CHUNK_def by (elim bindR_InrE, (drule Fetch64_InrD)+, linarith)

lemma crc_round_InrD: "crc_round crc m s st = Inr st' \<Longrightarrow> 0 \<le> s \<and> s + 240 \<le> int (length m)"
  unfolding crc_round_def by (elim bindR_InrE, (drule CHUNK_InrD)+, linarith)

function crc_loop ::
  "(u64 \<Rightarrow> u64 \<Rightarrow> u64) \<Rightarrow> mem \<Rightarrow> int \<Rightarrow> u64 \<Rightarrow> crc_state \<Rightarrow> (int \<times> crc_state) result" where
  "crc_loop crc m s iters st =
     bindR (crc_round crc m s st) (\<lambda>st.
     let s = s + 240; iters = iters - 1 in
     if 0 < iters then crc_loop crc m s iters st else Inr (s, st))"
  by pat_completeness auto
termination
  by (relation "measure (\<lambda>(_, m, s, _). nat (int (length m) - s))") (auto dest!: crc_round_InrD)

declare crc_loop.simps [simp del]

definition crc_rest :: "(u64 \<Rightarrow> u64 \<Rightarrow> u64) \<Rightarrow> mem \<Rightarrow> int \<Rightarrow> crc_state \<Rightarrow> crc_state result" where
  "crc_rest crc m s st =
     bindR (CHUNK crc 29 m s st) (\<lambda>st.
     Inr (perm_chg (st\<lparr>re := re st XOR Rotate (ra st) 20, rh := rh st + Rotate (rb st) 30,
                       rg := rg st XOR Rotate (rc st) 40, rf := rf st + Rotate (rd st) 34\<rparr>)))"

lemma crc_rest_InrD: "crc_rest crc m s st = Inr st' \<Longrightarrow> 0 \<le> s \<and> s + 40 \<le> int (length m)"
  by (auto simp: crc_rest_def bindR_eq_Inr dest!: CHUNK_InrD)

function crc_rest_loop ::
  "(u64 \<Rightarrow> u64 \<Rightarrow> u64) \<Rightarrow> mem \<Rightarrow> int \<Rightarrow> u64 \<Rightarrow> crc_state \<Rightarrow> (int \<times> u64 \<times> crc_state) result" where
  "crc_rest_loop crc m s len st =
     (if 40 \<le> len then
        bindR (crc_rest crc m s st) (\<lambda>st. crc_rest_loop crc m (s + 40) (len - 40) st)
      else Inr (s, len, st))"
  by pat_completeness auto
termination
  by (relation "measure (\<lambda>(_, m, s, _). nat (int (length m) - s))") (auto dest!: crc_rest_InrD)

declare crc_rest_loop.simps [simp del]

definition crc_finish :: "u64 \<Rightarrow> u64 \<Rightarrow> crc_state \<Rightarrow> u64 list" where
  "crc_finish result0 result1 st =
     (let a = ra st; b = rb st; c = rc st; d = rd st; e = re st; f = rf st; g = rg st; h = rh st;
          x = rx st; y = ry st; z = rz st;
          result0 = result0 XOR h;
          result1 = result1 XOR g;
          g = g + h;
          a = HashLen16 a (g + z);
          x = x + push_bit 32 y;
          b = b + x;
          c = HashLen16 c z + h;
          d = HashLen16 d (e + result0);
          g = g + e;
          h = h + HashLen16 x f;
          e = HashLen16 a d + g;
          z = HashLen16 b c + a;
          y = HashLen16 g h + c;
          result0 = e + z + y + x;
          a = ShiftMix ((a + y) * k0) * k0 + b;
          result1 = result1 + (a + result0);
          a = ShiftMix (a * k0) * k0 + c;
          result2 = a + result1;
          a = ShiftMix ((a + e) * k0) * k0;
          result3 = a + result2
      in [result0, result1, result2, result3])"

definition crc_last :: "(u64 \<Rightarrow> u64 \<Rightarrow> u64) \<Rightarrow> mem \<Rightarrow> int \<times> u64 \<times> crc_state \<Rightarrow> crc_state result" where
  "crc_last crc m t = (case t of (s, len, st) \<Rightarrow>
     if 0 < len then
       bindR (CHUNK crc 33 m (s + uint len - 40) st) (\<lambda>st.
       Inr (st\<lparr>re := re st XOR Rotate (ra st) 43, rh := rh st + Rotate (rb st) 42,
               rg := rg st XOR Rotate (rc st) 41, rf := rf st + Rotate (rd st) 40\<rparr>))
     else Inr st)"

definition crc_tail ::
  "(u64 \<Rightarrow> u64 \<Rightarrow> u64) \<Rightarrow> mem \<Rightarrow> u64 \<Rightarrow> u64 \<Rightarrow> u64 \<Rightarrow> int \<times> crc_state \<Rightarrow> u64 list result" where
  "crc_tail crc m len result0 result1 t = (case t of (s, st) \<Rightarrow>
     bindR (crc_rest_loop crc m s len st) (\<lambda>t.
     bindR (crc_last crc m t) (\<lambda>st.
     Inr (crc_finish result0 result1 st))))"

definition CityHashCrc256Long ::
  "(u64 \<Rightarrow> u64 \<Rightarrow> u64) \<Rightarrow> mem \<Rightarrow> int \<Rightarrow> u64 \<Rightarrow> u32 \<Rightarrow> u64 list result" where
  "CityHashCrc256Long crc m s len seed =
     bindR (Fetch64 m (s + 56)) (\<lambda>f56.
     bindR (Fetch64 m (s + 96)) (\<lambda>f96.
     bindR (Fetch64 m (s + 120)) (\<lambda>f120.
     bindR (Fetch64 m (s + 184)) (\<lambda>f184.
     let a = f56 + k0; b = f96 + k0;
         c = HashLen16 b len;
         d = f120 * k0 + len;
         e = f184 + ucast seed;
         iters = len div 240 in
     bindR (crc_loop crc m s iters
       \<lparr>ra = a, rb = b, rc = c, rd = d, re = e, rf = 0, rg = 0, rh = c + d,
        rx = ucast seed, ry = 0, rz = 0\<rparr>)
       (crc_tail crc m (len - iters * 240) c d)))))"

definition CityHashCrc256Short :: "(u64 \<Rightarrow> u64 \<Rightarrow> u64) \<Rightarrow> mem \<Rightarrow> int \<Rightarrow> u64 \<Rightarrow> u64 list result" where
  "CityHashCrc256Short crc m s len =
     bindR (load_bytes m s (unat len)) (\<lambda>bs.
     CityHashCrc256Long crc (bs @ replicate (240 - unat len) 0) 0 240 (NOT (ucast len)))"

definition CityHashCrc256 :: "(u64 \<Rightarrow> u64 \<Rightarrow> u64) \<Rightarrow> mem \<Rightarrow> int \<Rightarrow> u64 \<Rightarrow> u64 list result" where
  "CityHashCrc256 crc m s len =
     (if 240 \<le> len then CityHashCrc256Long crc m s len 0 else CityHashCrc256Short crc m s len)"

definition CityHashCrc128WithSeed ::
  "(u64 \<Rightarrow> u64 \<Rightarrow> u64) \<Rightarrow> mem \<Rightarrow> int \<Rightarrow> u64 \<Rightarrow> uint128 \<Rightarrow> uint128 result" where
  "CityHashCrc128WithSeed crc m s len seed =
     (if len \<le> 900 then CityHash128WithSeed m s len seed
      else bindR (CityHashCrc256 crc m s len) (\<lambda>result.
        let u = second seed + result ! 0;
            v = first seed + result ! 1 in
        Inr \<lparr>first = HashLen16 u (v + result ! 2),
             second = HashLen16 (Rotate v 32) (u * k0 + result ! 3)\<rparr>))"

definition CityHashCrc128 :: "(u64 \<Rightarrow> u64 \<Rightarrow> u64) \<Rightarrow> mem \<Rightarrow> int \<Rightarrow> u64 \<Rightarrow> uint128 result" where
  "CityHashCrc128 crc m s len =
     (if len \<le> 900 then CityHash128 m s len
      else bindR (CityHashCrc256 crc m s len) (\<lambda>result.
        Inr \<lparr>first = result ! 2, second = result ! 3\<rparr>))"

section \<open>Reading only the key\<close>

text \<open>
  \<open>window m s n m' d\<close>: the \<open>n\<close> bytes of \<open>m\<close> at \<open>s\<close> exist, and the same bytes stand in \<open>m'\<close> shifted
  by \<open>d\<close>.  A function that returns the same value on both sides of every window reads nothing but
  the \<open>n\<close> bytes, since \<open>m'\<close> may be the array of exactly these bytes.
\<close>

definition window :: "mem \<Rightarrow> int \<Rightarrow> int \<Rightarrow> mem \<Rightarrow> int \<Rightarrow> bool" where
  "window m s n m' d \<longleftrightarrow> 0 \<le> s \<and> s + n \<le> int (length m) \<and> 0 \<le> s + d \<and> s + d + n \<le> int (length m')
     \<and> (\<forall>q. s \<le> q \<and> q < s + n \<longrightarrow> m ! nat q = m' ! nat (q + d))"

definition agrees :: "'a result \<Rightarrow> 'a result \<Rightarrow> bool" where
  "agrees r r' \<longleftrightarrow> (\<exists>h. r = Inr h \<and> r' = Inr h)"

named_theorems agree_intros \<open>structural rules of agrees\<close>
named_theorems window_agree \<open>loads and hashes that agree on a window\<close>

lemma window_mono:
  assumes "window m s n m' d" "s \<le> p" "p + k \<le> s + n"
  shows "window m p k m' d"
  using assms unfolding window_def by auto

lemma agreesI [agree_intros]: "agrees (Inr h) (Inr h)"
  by (simp add: agrees_def)

lemma agrees_bind [agree_intros]:
  "agrees r r' \<Longrightarrow> (\<And>x. agrees (f x) (f' x)) \<Longrightarrow> agrees (bindR r f) (bindR r' f')"
  by (auto simp: agrees_def)

lemma agrees_if [agree_intros]:
  "(b \<Longrightarrow> agrees r r') \<Longrightarrow> (\<not> b \<Longrightarrow> agrees t t') \<Longrightarrow> agrees (if b then r else t) (if b then r' else t')"
  by simp

lemma agrees_let [agree_intros]:
  "(\<And>x. agrees (f x) (f' x)) \<Longrightarrow> agrees (Let e f) (Let e f')"
  by simp

lemma agrees_prod [agree_intros]:
  "(\<And>x y. agrees (f x y) (f' x y)) \<Longrightarrow> agrees (case_prod f t) (case_prod f' t)"
  by (cases t) simp

lemma load_bytes_agree [window_agree]:
  assumes "window m s n m' d" "s \<le> p" "p + int k \<le> s + n" "p' = p + d"
  shows "agrees (load_bytes m p k) (load_bytes m' p' k)"
proof -
  have "take k (drop (nat p) m) = take k (drop (nat (p + d)) m')"
  proof (rule nth_equalityI)
    fix i assume "i < length (take k (drop (nat p) m))"
    then have i: "i < k" by simp
    have "m ! nat (p + int i) = m' ! nat (p + int i + d)"
      using assms i by (auto simp: window_def)
    moreover have "nat (p + int i) = nat p + i" "nat (p + int i + d) = nat (p + d) + i"
      "nat p \<le> length m" "nat (p + d) \<le> length m'"
      using assms by (auto simp: window_def)
    ultimately show "take k (drop (nat p) m) ! i = take k (drop (nat (p + d)) m') ! i"
      using i by simp
  qed (use assms in \<open>auto simp: window_def\<close>)
  then show ?thesis using assms by (auto simp: agrees_def load_bytes_def window_def)
qed

lemma fetch_agree [window_agree]:
  assumes "window m s n m' d" "s \<le> p" "p + 8 \<le> s + n" "p' = p + d"
  shows "agrees (Fetch64 m p) (Fetch64 m' p')"
  unfolding Fetch64_def UNALIGNED_LOAD64_def
  by (rule agrees_bind, rule load_bytes_agree [OF assms(1)]) (use assms in \<open>auto intro: agreesI\<close>)

lemma fetch_bind:
  assumes "window m s n m' d" "s \<le> p" "p + 8 \<le> s + n" "p' = p + d" "\<And>x. agrees (f x) (f' x)"
  shows "agrees (bindR (Fetch64 m p) f) (bindR (Fetch64 m' p') f')"
  using assms by (intro agrees_bind fetch_agree)

lemma fetch32_agree [window_agree]:
  assumes "window m s n m' d" "s \<le> p" "p + 4 \<le> s + n" "p' = p + d"
  shows "agrees (Fetch32 m p) (Fetch32 m' p')"
  unfolding Fetch32_def UNALIGNED_LOAD32_def
  by (rule agrees_bind, rule load_bytes_agree [OF assms(1)]) (use assms in \<open>auto intro: agreesI\<close>)

lemma get_byte_agree [window_agree]:
  assumes "window m s n m' d" "s \<le> p" "p < s + n" "p' = p + d"
  shows "agrees (get_byte m p) (get_byte m' p')"
  using assms by (auto simp: agrees_def get_byte_def window_def)

lemma weak_agree [window_agree]:
  assumes "window m s n m' d" "s \<le> p" "p + 32 \<le> s + n" "p' = p + d"
  shows "agrees (WeakHashLen32WithSeedsArray m p a b) (WeakHashLen32WithSeedsArray m' p' a b)"
  unfolding WeakHashLen32WithSeedsArray_def
  by (intro agree_intros window_agree [OF assms(1)]) (use assms in simp_all)

lemma city_step_agree [window_agree]:
  assumes "window m s n m' d" "s \<le> p" "p + 64 \<le> s + n" "p' = p + d"
  shows "agrees (city_step m p st) (city_step m' p' st)"
  unfolding city_step_def
  by (intro agree_intros window_agree [OF assms(1)]) (use assms in simp_all)

lemma murmur_step_agree [window_agree]:
  assumes "window m s n m' d" "s \<le> p" "p + 16 \<le> s + n" "p' = p + d"
  shows "agrees (murmur_step m p st) (murmur_step m' p' st)"
  unfolding murmur_step_def
  by (intro agree_intros window_agree [OF assms(1)]) (use assms in simp_all)

lemma tail_step_agree [window_agree]:
  assumes "window m s n m' d" "s \<le> p" "p + 32 \<le> s + n" "p' = p + d"
  shows "agrees (tail_step m p st) (tail_step m' p' st)"
  unfolding tail_step_def
  by (intro agree_intros window_agree [OF assms(1)]) (use assms in simp_all)

lemma city32_step_agree [window_agree]:
  assumes "window m s n m' d" "s \<le> p" "p + 20 \<le> s + n" "p' = p + d"
  shows "agrees (city32_step m p st) (city32_step m' p' st)"
  unfolding city32_step_def
  by (intro agree_intros window_agree [OF assms(1)]) (use assms in simp_all)

lemma CHUNK_agree [window_agree]:
  assumes "window m s n m' d" "s \<le> p" "p + 40 \<le> s + n" "p' = p + d"
  shows "agrees (CHUNK crc r m p st) (CHUNK crc r m' p' st)"
  unfolding CHUNK_def
  by (intro agree_intros window_agree [OF assms(1)]) (use assms in simp_all)

lemma crc_round_agree [window_agree]:
  assumes "window m s n m' d" "s \<le> p" "p + 240 \<le> s + n" "p' = p + d"
  shows "agrees (crc_round crc m p st) (crc_round crc m' p' st)"
  unfolding crc_round_def
  by (intro agree_intros window_agree [OF assms(1)]) (use assms in simp_all)

lemma crc_rest_agree [window_agree]:
  assumes "window m s n m' d" "s \<le> p" "p + 40 \<le> s + n" "p' = p + d"
  shows "agrees (crc_rest crc m p st) (crc_rest crc m' p' st)"
  unfolding crc_rest_def
  by (intro agree_intros window_agree [OF assms(1)]) (use assms in simp_all)

subsection \<open>The loops\<close>

text \<open>Counting down a 64-bit word in C does not wrap as long as the word is large enough.\<close>

lemma uint_diff: "c \<le> w \<Longrightarrow> uint (w - c) = uint w - uint c" for w c :: u64
  by (simp add: uint_minus_simple_alt word_le_def)

lemma word_le_uint: "w \<le> v \<longleftrightarrow> uint w \<le> uint v" for w v :: u64
  by (simp add: word_le_def)

lemma word_less_uint: "w < v \<longleftrightarrow> uint w < uint v" for w v :: u64
  by (simp add: word_less_def)

lemma uint_eq_0: "w = 0 \<longleftrightarrow> uint w = 0" for w :: u64
  by (simp add: word_uint_eq_iff)

lemma add_shift: "p + d + numeral k = p + numeral k + d" for p d :: int
  by simp

lemma city64_loop_agree:
  assumes w: "window m s n m' d"
  shows "s \<le> p \<Longrightarrow> p + uint len \<le> s + n \<Longrightarrow> uint len = 64 * (1 + int k) \<Longrightarrow>
    agrees (city64_loop m p len st) (city64_loop m' (p + d) len st)"
proof (induction k arbitrary: p len st)
  case (0 p len st)
  then have "len = 64" by (simp add: word_uint_eq_iff)
  then show ?case
    unfolding city64_loop.simps [of m p] city64_loop.simps [of m' "p + d"] Let_def
    by (intro agree_intros window_agree [OF w]) (use 0 in simp_all)
next
  case (Suc k p len st)
  have "uint (len - 64) = uint len - 64" using Suc.prems by (simp add: uint_diff word_le_uint)
  then have "agrees (city64_loop m (p + 64) (len - 64) x) (city64_loop m' (p + d + 64) (len - 64) x)" for x
    using Suc.IH [of "p + 64" "len - 64" x] Suc.prems by (simp add: algebra_simps)
  then show ?case
    unfolding city64_loop.simps [of m p] city64_loop.simps [of m' "p + d"] Let_def
    by (intro agree_intros window_agree [OF w]) (use Suc.prems in simp_all)
qed

lemma city32_loop_agree:
  assumes w: "window m s n m' d"
  shows "s \<le> p \<Longrightarrow> p + 20 * uint iters \<le> s + n \<Longrightarrow> uint iters = 1 + int k \<Longrightarrow>
    agrees (city32_loop m p iters st) (city32_loop m' (p + d) iters st)"
proof (induction k arbitrary: p iters st)
  case (0 p iters st)
  then have "iters = 1" by (simp add: word_uint_eq_iff)
  then show ?case
    unfolding city32_loop.simps [of m p] city32_loop.simps [of m' "p + d"] Let_def
    by (intro agree_intros window_agree [OF w]) (use 0 in simp_all)
next
  case (Suc k p iters st)
  have "uint (iters - 1) = uint iters - 1" using Suc.prems by (simp add: uint_diff word_le_uint)
  then have "agrees (city32_loop m (p + 20) (iters - 1) x) (city32_loop m' (p + d + 20) (iters - 1) x)" for x
    using Suc.IH [of "p + 20" "iters - 1" x] Suc.prems by (simp add: algebra_simps)
  then show ?case
    unfolding city32_loop.simps [of m p] city32_loop.simps [of m' "p + d"] Let_def
    by (intro agree_intros window_agree [OF w]) (use Suc.prems in simp_all)
qed

lemma murmur_loop_agree:
  assumes w: "window m s n m' d"
  shows "0 < l \<Longrightarrow> s \<le> p \<Longrightarrow> p + l + 15 \<le> s + n \<Longrightarrow>
    agrees (murmur_loop m p l st) (murmur_loop m' (p + d) l st)"
proof (induction "nat l" arbitrary: l p st rule: less_induct)
  case (less l p st)
  have "agrees (murmur_loop m (p + 16) (l - 16) x) (murmur_loop m' (p + d + 16) (l - 16) x)" if "0 < l - 16" for x
    using less.hyps [of "l - 16" "p + 16" x] less.prems that by (simp add: algebra_simps)
  then show ?case
    unfolding murmur_loop.simps [of m p] murmur_loop.simps [of m' "p + d"] Let_def
    by (intro agree_intros window_agree [OF w]) (use less.prems in simp_all)
qed

lemma tail_loop_agree:
  assumes w: "window m s n m' d" and p: "s + 31 \<le> p" "p + int len \<le> s + n"
  shows "agrees (tail_loop m p len td st) (tail_loop m' (p + d) len td st)"
proof (induction "len - td" arbitrary: td st rule: less_induct)
  case (less td st)
  then have "td < len \<Longrightarrow> agrees (tail_loop m p len (td + 32) x) (tail_loop m' (p + d) len (td + 32) x)" for x
    by simp
  then show ?case
    unfolding tail_loop.simps [of m p len td] tail_loop.simps [of m' "p + d" len td] Let_def
    by (intro agree_intros window_agree [OF w]) (use p in simp_all)
qed

lemma city128_loop_agree:
  assumes w: "window m s n m' d"
  shows "s \<le> p \<Longrightarrow> p + uint len \<le> s + n \<Longrightarrow> 128 \<le> uint len \<Longrightarrow>
    \<exists>q len' st'. city128_loop m p len st = Inr (q, len', st') \<and> city128_loop m' (p + d) len st = Inr (q + d, len', st')
      \<and> p + 128 \<le> q \<and> q + uint len' = p + uint len \<and> uint len' < 128"
proof (induction "nat (uint len)" arbitrary: len p st rule: less_induct)
  case (less len p st)
  have u: "uint (len - 128) = uint len - 128" using less.prems by (simp add: uint_diff word_le_uint)
  have lt: "nat (uint (len - 128)) < nat (uint len)" using u less.prems by (simp del: nat_uint_eq)
  obtain st1 where 1: "city_step m p st = Inr st1" "city_step m' (p + d) st = Inr st1"
    using city_step_agree [OF w, of p "p + d" st] less.prems by (auto simp: agrees_def)
  obtain st2 where 2: "city_step m (p + 64) st1 = Inr st2" "city_step m' (p + d + 64) st1 = Inr st2"
    using city_step_agree [OF w, of "p + 64" "p + d + 64" st1] less.prems by (auto simp: agrees_def)
  have m: "city128_loop m p len st = (if 128 \<le> uint (len - 128)
      then city128_loop m (p + 128) (len - 128) st2 else Inr (p + 128, len - 128, st2))"
    using 1 2 by (subst city128_loop.simps) (simp add: word_le_uint)
  have m': "city128_loop m' (p + d) len st = (if 128 \<le> uint (len - 128)
      then city128_loop m' (p + 128 + d) (len - 128) st2 else Inr (p + 128 + d, len - 128, st2))"
    using 1 2 by (subst city128_loop.simps) (simp add: word_le_uint add_shift)
  show ?case
  proof (cases "128 \<le> uint (len - 128)")
    case True
    then obtain q len' st' where "city128_loop m (p + 128) (len - 128) st2 = Inr (q, len', st')"
      "city128_loop m' (p + 128 + d) (len - 128) st2 = Inr (q + d, len', st')"
      "p + 128 + 128 \<le> q" "q + uint len' = p + 128 + uint (len - 128)" "uint len' < 128"
      using less.hyps [OF lt, of "p + 128" st2] less.prems u by auto
    then show ?thesis using True m m' u by auto
  qed (use m m' u less.prems in auto)
qed

lemma crc_loop_agree:
  assumes w: "window m s n m' d"
  shows "s \<le> p \<Longrightarrow> p + 240 * uint iters \<le> s + n \<Longrightarrow> uint iters = 1 + int k \<Longrightarrow>
    \<exists>st'. crc_loop crc m p iters st = Inr (p + 240 * uint iters, st')
      \<and> crc_loop crc m' (p + d) iters st = Inr (p + 240 * uint iters + d, st')"
proof (induction k arbitrary: iters p st)
  case (0 iters p st)
  then have "iters = 1" by (simp add: word_uint_eq_iff)
  then show ?case
    using crc_round_agree [OF w, of p "p + d" crc st] 0
    by (auto simp: agrees_def crc_loop.simps)
next
  case (Suc k iters p st)
  have u: "uint (iters - 1) = uint iters - 1" using Suc.prems by (simp add: uint_diff word_le_uint)
  obtain st1 where 1: "crc_round crc m p st = Inr st1" "crc_round crc m' (p + d) st = Inr st1"
    using crc_round_agree [OF w, of p "p + d" crc st] Suc.prems by (auto simp: agrees_def)
  have "crc_loop crc m p iters st = crc_loop crc m (p + 240) (iters - 1) st1"
    using 1 Suc.prems u by (subst crc_loop.simps) (simp add: word_less_uint)
  moreover have "crc_loop crc m' (p + d) iters st = crc_loop crc m' (p + 240 + d) (iters - 1) st1"
    using 1 Suc.prems u by (subst crc_loop.simps) (simp add: word_less_uint add_shift)
  moreover have "p + 240 + 240 * uint (iters - 1) = p + 240 * uint iters" using u by simp
  ultimately show ?case using Suc.IH [of "p + 240" "iters - 1" st1] Suc.prems u by auto
qed

lemma crc_rest_loop_agree:
  assumes w: "window m s n m' d"
  shows "s \<le> p \<Longrightarrow> p + uint len \<le> s + n \<Longrightarrow>
    \<exists>q len' st'. crc_rest_loop crc m p len st = Inr (q, len', st')
      \<and> crc_rest_loop crc m' (p + d) len st = Inr (q + d, len', st')
      \<and> p \<le> q \<and> q + uint len' = p + uint len"
proof (induction "nat (uint len)" arbitrary: len p st rule: less_induct)
  case (less len p st)
  show ?case
  proof (cases "40 \<le> uint len")
    case True
    have u: "uint (len - 40) = uint len - 40" using True by (simp add: uint_diff word_le_uint)
    have lt: "nat (uint (len - 40)) < nat (uint len)" using u True by (simp del: nat_uint_eq)
    obtain st1 where 1: "crc_rest crc m p st = Inr st1" "crc_rest crc m' (p + d) st = Inr st1"
      using crc_rest_agree [OF w, of p "p + d" crc st] less.prems True by (auto simp: agrees_def)
    have "crc_rest_loop crc m p len st = crc_rest_loop crc m (p + 40) (len - 40) st1"
      using 1 True by (subst crc_rest_loop.simps) (simp add: word_le_uint)
    moreover have "crc_rest_loop crc m' (p + d) len st = crc_rest_loop crc m' (p + 40 + d) (len - 40) st1"
      using 1 True by (subst crc_rest_loop.simps) (simp add: word_le_uint add_shift)
    moreover obtain q len' st' where "crc_rest_loop crc m (p + 40) (len - 40) st1 = Inr (q, len', st')"
      "crc_rest_loop crc m' (p + 40 + d) (len - 40) st1 = Inr (q + d, len', st')"
      "p + 40 \<le> q" "q + uint len' = p + 40 + uint (len - 40)"
      using less.hyps [OF lt, of "p + 40" st1] less.prems True u by auto
    ultimately show ?thesis using u by auto
  next
    case False
    then show ?thesis by (simp add: crc_rest_loop.simps word_le_uint)
  qed
qed

subsection \<open>The hash functions\<close>

lemma uint_half: "uint (drop_bit (Suc 0) (w :: u64)) = uint w div 2"
  by (simp add: drop_bit_Suc uint_div_distrib)

lemma HashLen0to16_agree:
  assumes w: "window m s (uint len) m' d"
  shows "agrees (HashLen0to16 m s len) (HashLen0to16 m' (s + d) len)"
  unfolding HashLen0to16_def
  by (intro agree_intros window_agree [OF w])
     (auto simp: word_le_uint word_less_uint uint_half uint_diff)

lemma HashLen17to32_agree:
  assumes w: "window m s (uint len) m' d" and "16 < uint len"
  shows "agrees (HashLen17to32 m s len) (HashLen17to32 m' (s + d) len)"
  unfolding HashLen17to32_def
  by (intro agree_intros window_agree [OF w]) (use assms(2) in auto)

lemma HashLen33to64_agree:
  assumes w: "window m s (uint len) m' d" and "32 < uint len"
  shows "agrees (HashLen33to64 m s len) (HashLen33to64 m' (s + d) len)"
  unfolding HashLen33to64_def
  by (intro agree_intros window_agree [OF w]) (use assms(2) in auto)

text \<open>\<^verbatim>\<open>(len - 1) & ~63\<close> is the largest multiple of 64 below \<^verbatim>\<open>len\<close>.\<close>

lemma mask_blocks:
  assumes "64 < uint (len :: u64)"
  obtains k where "uint ((len - 1) AND NOT 63) = 64 * (1 + int k)" "uint ((len - 1) AND NOT 63) < uint len"
proof -
  have y: "uint (len - 1) = uint len - 1" using assms by (simp add: uint_diff word_le_uint)
  have mask: "(63 :: u64) = mask 6" by (simp add: mask_eq_exp_minus_1)
  have "(len - 1) AND NOT 63 = (len - 1) - ((len - 1) AND 63)"
    by (subst disjunctive_diff_eq_and_not) (auto simp: bit_simps intro!: arg_cong2 [where f = "(AND)"] bit_eqI)
  also have "(len - 1) AND 63 = (len - 1) mod 64"
    unfolding mask by (simp flip: take_bit_eq_mask add: take_bit_eq_mod)
  finally have "uint ((len - 1) AND NOT 63) = uint (len - 1) - uint ((len - 1) mod 64)"
    using uint_diff [of "(len - 1) mod 64" "len - 1"]
    by (simp add: word_le_uint uint_mod_distrib zmod_le_nonneg_dividend)
  also have "\<dots> = 64 * ((uint len - 1) div 64)"
    by (simp add: uint_mod_distrib y minus_mod_eq_mult_div)
  finally have e: "uint ((len - 1) AND NOT 63) = 64 * ((uint len - 1) div 64)" .
  show ?thesis
    by (rule that [of "nat ((uint len - 1) div 64 - 1)"]) (use e assms in auto)
qed

lemma CityHash64_agree:
  assumes w: "window m s (uint len) m' d"
  shows "agrees (CityHash64 m s len) (CityHash64 m' (s + d) len)"
proof (cases "64 < uint len")
  case True
  then obtain k where "uint ((len - 1) AND NOT 63) = 64 * (1 + int k)" "uint ((len - 1) AND NOT 63) < uint len"
    by (rule mask_blocks)
  then show ?thesis unfolding CityHash64_def
    using True
    by (intro agree_intros window_agree [OF w] city64_loop_agree [OF w]) (auto simp: word_le_uint)
next
  case False
  have "agrees (HashLen17to32 m s len) (HashLen17to32 m' (s + d) len)" if "\<not> len \<le> 16"
    using HashLen17to32_agree [OF w] that by (simp add: word_le_uint)
  moreover have "agrees (HashLen33to64 m s len) (HashLen33to64 m' (s + d) len)" if "\<not> len \<le> 32"
    using HashLen33to64_agree [OF w] that by (simp add: word_le_uint)
  ultimately show ?thesis
    using False HashLen0to16_agree [OF w] by (simp add: CityHash64_def word_le_uint)
qed

lemma sint_of_int_64: "- (2 ^ 63) \<le> k \<Longrightarrow> k < 2 ^ 63 \<Longrightarrow> sint (word_of_int k :: u64) = k"
  by (simp add: signed_of_int signed_take_bit_int_eq_self)

lemma sint_minus_16:
  assumes "uint (len :: u64) < 128"
  shows "sint (len - 16) = uint len - 16"
proof -
  have "- (2 ^ 63) \<le> uint len - 16" by (rule order_trans [of _ "- 16"]) simp_all
  then show ?thesis using sint_of_int_64 [of "uint len - 16"] assms by simp
qed

lemma CityMurmur_agree:
  assumes w: "window m s (uint len) m' d" and len: "uint len < 128"
  shows "agrees (CityMurmur m s len seed) (CityMurmur m' (s + d) len seed)"
proof -
  have "agrees (murmur_loop m s (uint len - 16) st) (murmur_loop m' (s + d) (uint len - 16) st)"
    if "\<not> uint len - 16 \<le> 0" for st
    using murmur_loop_agree [OF w, of "uint len - 16" s st] that by simp
  then show ?thesis
    unfolding CityMurmur_def sint_minus_16 [OF len] Let_def
    by (intro agree_intros window_agree [OF w] HashLen0to16_agree [OF w]) (auto simp: word_le_uint)
qed

lemma CityHash128WithSeed_agree:
  assumes w: "window m s (uint len) m' d"
  shows "agrees (CityHash128WithSeed m s len seed) (CityHash128WithSeed m' (s + d) len seed)"
proof (cases "uint len < 128")
  case True
  then show ?thesis using CityMurmur_agree [OF w] by (simp add: CityHash128WithSeed_def word_less_uint)
next
  case False
  have finish: "agrees (city128_finish m (q, len', st)) (city128_finish m' (q + d, len', st))"
    if "s + 128 \<le> q" "q + uint len' = s + uint len" for q len' st
    unfolding city128_finish_def prod.case
    by (intro agree_intros tail_loop_agree [OF w]) (use that in simp_all)
  have loop: "agrees (bindR (city128_loop m s len st) (city128_finish m))
      (bindR (city128_loop m' (s + d) len st) (city128_finish m'))" for st
    using city128_loop_agree [OF w, of s len st] False finish by fastforce
  show ?thesis
    unfolding CityHash128WithSeed_def
    by (intro agrees_if agrees_let loop fetch_bind [OF w]) (use False in \<open>auto simp: word_less_uint\<close>)
qed

lemma crc_blocks:
  assumes "240 \<le> uint (len :: u64)"
  shows "uint (len div 240) = uint len div 240"
    and "uint (len - len div 240 * 240) = uint len - 240 * (uint len div 240)"
proof -
  show q: "uint (len div 240) = uint len div 240" by (simp add: uint_div_distrib)
  have "len div 240 * 240 = len - len mod 240" by (simp add: minus_mod_eq_div_mult)
  then have "len - len div 240 * 240 = len mod 240" by simp
  then show "uint (len - len div 240 * 240) = uint len - 240 * (uint len div 240)"
    by (simp add: uint_mod_distrib minus_mult_div_eq_mod)
qed

lemma CityHashCrc256Long_agree:
  assumes w: "window m s (uint len) m' d" and len: "240 \<le> uint len"
  shows "agrees (CityHashCrc256Long crc m s len seed) (CityHashCrc256Long crc m' (s + d) len seed)"
proof -
  define i where "i = len div 240"
  obtain k where k: "uint len div 240 = 1 + int k"
    using len zle_iff_zadd [of 1 "uint len div 240"] by (auto simp: pos_imp_zdiv_pos_iff)
  then have i: "uint i = 1 + int k" "240 * uint i \<le> uint len"
    and rest: "uint (len - i * 240) = uint len - 240 * uint i"
    using crc_blocks [OF len] len by (auto simp: i_def)
  have last: "agrees (crc_last crc m (q, l, st)) (crc_last crc m' (q + d, l, st))"
    if "s + 240 \<le> q" "q + uint l = s + uint len" for q l st
    unfolding crc_last_def prod.case
    by (intro agree_intros window_agree [OF w]) (use that in \<open>auto simp: word_less_uint\<close>)
  have tail: "agrees (crc_tail crc m (len - i * 240) r0 r1 (s + 240 * uint i, st))
      (crc_tail crc m' (len - i * 240) r0 r1 (s + 240 * uint i + d, st))" for r0 r1 st
  proof -
    obtain q l st' where "crc_rest_loop crc m (s + 240 * uint i) (len - i * 240) st = Inr (q, l, st')"
      "crc_rest_loop crc m' (s + 240 * uint i + d) (len - i * 240) st = Inr (q + d, l, st')"
      "s + 240 * uint i \<le> q" "q + uint l = s + uint len"
      using crc_rest_loop_agree [OF w, of "s + 240 * uint i" "len - i * 240" crc st] i rest by auto
    then show ?thesis
      using i last [of q l st'] by (auto simp: crc_tail_def intro!: agree_intros)
  qed
  have "agrees (bindR (crc_loop crc m s i st) (crc_tail crc m (len - i * 240) r0 r1))
      (bindR (crc_loop crc m' (s + d) i st) (crc_tail crc m' (len - i * 240) r0 r1))" for r0 r1 st
    using crc_loop_agree [OF w, of s i k crc st] i tail by auto
  then have "agrees (bindR (crc_loop crc m s (len div 240) st) (crc_tail crc m (len - len div 240 * 240) r0 r1))
      (bindR (crc_loop crc m' (s + d) (len div 240) st) (crc_tail crc m' (len - len div 240 * 240) r0 r1))"
    for r0 r1 st by (simp add: i_def)
  then show ?thesis
    unfolding CityHashCrc256Long_def Let_def
    by (intro fetch_bind [OF w]) (use len in auto)
qed

lemma load_bytes_length: "load_bytes m p n = Inr bs \<Longrightarrow> length bs = n"
  by (auto simp: load_bytes_def split: if_splits)

lemma CityHashCrc256_agree:
  assumes w: "window m s (uint len) m' d"
  shows "agrees (CityHashCrc256 crc m s len) (CityHashCrc256 crc m' (s + d) len)"
proof (cases "240 \<le> uint len")
  case True
  then show ?thesis using CityHashCrc256Long_agree [OF w] by (simp add: CityHashCrc256_def word_le_uint)
next
  case False
  have short: "window (bs @ replicate (240 - unat len) 0) 0 240 (bs @ replicate (240 - unat len) 0) 0"
    if "length bs = unat len" for bs
  proof -
    have "int (unat len) < 240" using False by simp
    then have "unat len + (240 - unat len) = 240" by linarith
    then show ?thesis using that by (simp add: window_def flip: of_nat_add)
  qed
  have "agrees (load_bytes m s (unat len)) (load_bytes m' (s + d) (unat len))"
    by (rule load_bytes_agree [OF w]) simp_all
  moreover have "length bs = unat len" if "load_bytes m s (unat len) = Inr bs" for bs
    using that by (rule load_bytes_length)
  ultimately obtain bs where bs: "load_bytes m s (unat len) = Inr bs"
    "load_bytes m' (s + d) (unat len) = Inr bs" "length bs = unat len"
    by (auto simp: agrees_def)
  show ?thesis
    using False bs CityHashCrc256Long_agree [of _ 0 240, OF _ , of _ _ 0 crc] short [OF bs(3)]
    by (simp add: CityHashCrc256_def CityHashCrc256Short_def word_le_uint)
qed

lemma CityHash128_agree:
  assumes w: "window m s (uint len) m' d" and len: "16 \<le> len"
  shows "agrees (CityHash128 m s len) (CityHash128 m' (s + d) len)"
proof -
  have u: "uint (len - 16) = uint len - 16" using len by (simp add: uint_diff)
  have "window m (s + 16) (uint (len - 16)) m' d"
    by (rule window_mono [OF w]) (use u in simp_all)
  then have "agrees (CityHash128WithSeed m (s + 16) (len - 16) seed)
      (CityHash128WithSeed m' (s + d + 16) (len - 16) seed)" for seed
    using CityHash128WithSeed_agree [of m "s + 16" "len - 16" m' d seed] by (simp add: add_shift)
  then show ?thesis
    unfolding CityHash128_def using len
    by (intro agree_intros window_agree [OF w]) (auto simp: word_le_uint)
qed

lemma uint_half_and_4:
  assumes "4 \<le> uint (len :: u64)"
  shows "uint (drop_bit (Suc 0) len AND 4) + 4 \<le> uint len"
proof (cases "uint len < 8")
  case True
  let ?y = "drop_bit (Suc 0) len"
  have "uint ?y < 4" using True by (simp add: uint_half)
  then have "uint ?y = 0 \<or> uint ?y = 1 \<or> uint ?y = 2 \<or> uint ?y = 3" using uint_ge_0 [of ?y] by linarith
  then have "?y = 0 \<or> ?y = 1 \<or> ?y = 2 \<or> ?y = 3" by (simp add: word_uint_eq_iff)
  then have "?y AND 4 = 0" by auto
  then show ?thesis using assms by simp
next
  case False
  have "drop_bit (Suc 0) len AND 4 \<le> 4" by (rule word_and_le1)
  then show ?thesis using False by (simp add: word_le_uint)
qed

lemma hash32_short_agree:
  assumes w: "window m s (uint len) m' d"
  shows "agrees (Hash32Len0to4 m s len) (Hash32Len0to4 m' (s + d) len)"
    and "4 < uint len \<Longrightarrow> agrees (Hash32Len5to12 m s len) (Hash32Len5to12 m' (s + d) len)"
    and "12 < uint len \<Longrightarrow> agrees (Hash32Len13to24 m s len) (Hash32Len13to24 m' (s + d) len)"
  unfolding Hash32Len0to4_def Hash32Len5to12_def Hash32Len13to24_def
    apply (intro agree_intros window_agree [OF w]; simp)
   apply (intro agree_intros window_agree [OF w]; use uint_half_and_4 [of len] in simp)
  apply (intro agree_intros window_agree [OF w]; simp add: uint_half)
  done

lemma CityHash32_agree:
  assumes w: "window m s (uint len) m' d"
  shows "agrees (CityHash32 m s len) (CityHash32 m' (s + d) len)"
proof (cases "uint len \<le> 24")
  case True
  then show ?thesis
    using hash32_short_agree [OF w] by (simp add: CityHash32_def word_le_uint)
next
  case False
  obtain k where "(uint len - 1) div 20 = 1 + int k"
    using False zle_iff_zadd [of 1 "(uint len - 1) div 20"] by (auto simp: pos_imp_zdiv_pos_iff)
  then have "uint ((len - 1) div 20) = 1 + int k" "20 * uint ((len - 1) div 20) \<le> uint len"
    using False by (auto simp: uint_div_distrib uint_diff word_le_uint)
  then show ?thesis
    unfolding CityHash32_def
    using False
    by (intro agree_intros window_agree [OF w] city32_loop_agree [OF w]) (auto simp: word_le_uint)
qed

section \<open>Properties\<close>

lemma window_slice:
  assumes "0 \<le> s" "s + uint (len :: u64) \<le> int (length m)"
  shows "window m s (uint len) (take (unat len) (drop (nat s) m)) (- s)"
proof -
  have "m ! nat q = take (unat len) (drop (nat s) m) ! nat (q - s)" if "s \<le> q" "q < s + uint len" for q
  proof -
    have "nat (q - s) < unat len" "nat s + nat (q - s) = nat q" "nat s \<le> length m"
      using that assms by (simp_all add: nat_less_iff)
    then show ?thesis by simp
  qed
  moreover have "int (unat len) + int (nat s) \<le> int (length m)" using assms by simp
  then have "unat len \<le> length m - nat s" by linarith
  ultimately show ?thesis using assms by (auto simp: window_def)
qed

text \<open>The bytes a hash is given, and what it means that it reads nothing else.\<close>

definition reads_only :: "(mem \<Rightarrow> int \<Rightarrow> 'a result) \<Rightarrow> mem \<Rightarrow> int \<Rightarrow> u64 \<Rightarrow> bool" where
  "reads_only hash m s len \<longleftrightarrow>
     (\<exists>h. hash m s = Inr h \<and> hash (take (unat len) (drop (nat s) m)) 0 = Inr h)"

lemma reads_onlyI:
  assumes "0 \<le> s" "s + uint len \<le> int (length m)"
    and "\<And>m' d. window m s (uint len) m' d \<Longrightarrow> agrees (hash m s) (hash m' (s + d))"
  shows "reads_only hash m s len"
  using assms(3) [OF window_slice [OF assms(1,2)]] by (simp add: reads_only_def agrees_def)

text \<open>
  \<^bold>\<open>C38.\<close>  Hashing a key with the 64-bit and 32-bit functions returns for every length, reads
  no byte outside the \<^verbatim>\<open>len\<close> bytes of the key, and the value is a function of these bytes alone: the
  array of exactly these bytes gives the same hash.  The loops over blocks of 64 and 20 bytes
  therefore end for every length.
\<close>

theorem city64_reads_key:
  assumes "0 \<le> s" "s + uint len \<le> int (length m)"
  shows "reads_only (\<lambda>m s. CityHash64 m s len) m s len
    \<and> reads_only (\<lambda>m s. CityHash64WithSeeds m s len seed0 seed1) m s len
    \<and> reads_only (\<lambda>m s. CityHash32 m s len) m s len"
  using assms
  by (auto intro!: reads_onlyI CityHash64_agree CityHash32_agree agrees_bind agreesI simp: CityHash64WithSeeds_def)

text \<open>The 100-byte array \<open>0, 1, ..., 99\<close>, hashed from position 3 on.\<close>

theorem city64_reads_key_witness:
  "reads_only (\<lambda>m s. CityHash64 m s 90) (map word_of_nat [0..<100]) 3 90
   \<and> reads_only (\<lambda>m s. CityHash64WithSeeds m s 90 1 2) (map word_of_nat [0..<100]) 3 90
   \<and> reads_only (\<lambda>m s. CityHash32 m s 90) (map word_of_nat [0..<100]) 3 90"
  using city64_reads_key [of 3 90 "map word_of_nat [0..<100]"] by simp

lemma CityHashCrc128_agree:
  assumes w: "window m s (uint len) m' d"
  shows "agrees (CityHashCrc128WithSeed crc m s len seed) (CityHashCrc128WithSeed crc m' (s + d) len seed)"
    "16 \<le> len \<Longrightarrow> agrees (CityHashCrc128 crc m s len) (CityHashCrc128 crc m' (s + d) len)"
  using CityHash128WithSeed_agree [OF w] CityHash128_agree [OF w] CityHashCrc256_agree [OF w, of crc]
  by (auto simp: CityHashCrc128WithSeed_def CityHashCrc128_def agrees_def Let_def)

text \<open>
  \<^bold>\<open>C39.\<close>  The 128-bit hash with a seed and, for every implementation \<open>crc\<close> of the intrinsic, \<^verbatim>\<open>CityHashCrc256\<close> and
  \<^verbatim>\<open>CityHashCrc128WithSeed\<close> return for every length and read only the \<^verbatim>\<open>len\<close> bytes they are given; \<^verbatim>\<open>CityHash128\<close> and
  \<^verbatim>\<open>CityHashCrc128\<close> do so from 16 bytes on.
\<close>

theorem city128_reads_key:
  assumes "0 \<le> s" "s + uint len \<le> int (length m)"
  shows "reads_only (\<lambda>m s. CityHash128WithSeed m s len seed) m s len
    \<and> reads_only (\<lambda>m s. CityHashCrc256 crc m s len) m s len
    \<and> reads_only (\<lambda>m s. CityHashCrc128WithSeed crc m s len seed) m s len
    \<and> (16 \<le> len \<longrightarrow> reads_only (\<lambda>m s. CityHash128 m s len) m s len \<and> reads_only (\<lambda>m s. CityHashCrc128 crc m s len) m s len)"
  using assms
  by (auto intro!: reads_onlyI CityHash128WithSeed_agree CityHash128_agree CityHashCrc256_agree CityHashCrc128_agree)

theorem city128_reads_key_witness:
  "reads_only (\<lambda>m s. CityHash128WithSeed m s 290 \<lparr>first = 1, second = 2\<rparr>) (map word_of_nat [0..<300]) 3 290
   \<and> reads_only (\<lambda>m s. CityHashCrc256 (XOR) m s 290) (map word_of_nat [0..<300]) 3 290
   \<and> reads_only (\<lambda>m s. CityHashCrc128WithSeed (XOR) m s 290 \<lparr>first = 1, second = 2\<rparr>) (map word_of_nat [0..<300]) 3 290
   \<and> reads_only (\<lambda>m s. CityHash128 m s 290) (map word_of_nat [0..<300]) 3 290
   \<and> reads_only (\<lambda>m s. CityHashCrc128 (XOR) m s 290) (map word_of_nat [0..<300]) 3 290"
  using city128_reads_key [of 3 290 "map word_of_nat [0..<300]"] by simp

text \<open>
  \<^bold>\<open>C40.\<close>  \<^verbatim>\<open>CityHash128\<close> loads the first 16 bytes before it looks at the length: on an array
  that ends with a key of fewer than 16 bytes it reads past the end, although the result for short
  keys does not depend on these bytes.
\<close>

theorem city128_short_overread:
  assumes "0 \<le> s" "s + uint len = int (length m)"
  shows "CityHash128 m s len = Inl Out_of_bounds \<longleftrightarrow> len < 16"
proof
  assume "len < 16"
  then have "s + 16 > int (length m)" using assms by (simp add: word_less_uint)
  then have "\<not> (s + 8 + 8 \<le> int (length m))" by simp
  then show "CityHash128 m s len = Inl Out_of_bounds"
    using assms by (auto simp: CityHash128_def Fetch64_def UNALIGNED_LOAD64_def load_bytes_def)
next
  assume oob: "CityHash128 m s len = Inl Out_of_bounds"
  show "len < 16"
  proof (rule ccontr)
    assume "\<not> len < 16"
    then have "reads_only (\<lambda>m s. CityHash128 m s len) m s len"
      using assms by (intro reads_onlyI CityHash128_agree) auto
    then show False using oob by (simp add: reads_only_def)
  qed
qed

theorem city128_short_overread_witness:
  "CityHash128 [1, 2, 3] 0 3 = Inl Out_of_bounds"
  using city128_short_overread [of 0 3 "[1, 2, 3]"] by simp

subsection \<open>The mixing functions lose no information\<close>

lemma xor_inj: "a XOR c = b XOR c \<Longrightarrow> a = b" "c XOR a = c XOR b \<Longrightarrow> a = b" for a b c :: "'a::len word"
proof -
  have *: "a = b" if "a XOR c = b XOR c" for a b c :: "'a::len word"
  proof -
    have "(a XOR c) XOR c = (b XOR c) XOR c" using that by simp
    then show ?thesis by (simp add: xor.assoc)
  qed
  show "a XOR c = b XOR c \<Longrightarrow> a = b" by (rule *)
  show "c XOR a = c XOR b \<Longrightarrow> a = b" by (rule * [of a c b]) (simp add: xor.commute)
qed

lemma xorshift_inj:
  fixes x y :: "'a::len word"
  assumes "x XOR drop_bit k x = y XOR drop_bit k y" "0 < k"
  shows "x = y"
proof -
  define z where "z = x XOR y"
  have "bit z n \<longleftrightarrow> bit z (k + n)" if "n < LENGTH('a)" for n
  proof -
    have "bit (x XOR drop_bit k x) n = bit (y XOR drop_bit k y) n" using assms(1) by simp
    then show ?thesis using that by (auto simp: z_def bit_simps)
  qed
  note shift = this
  have "\<not> bit z n" for n
  proof (induction "LENGTH('a) - n" arbitrary: n rule: less_induct)
    case less
    show ?case
    proof (cases "n < LENGTH('a)")
      case True
      then show ?thesis using less [of "k + n"] shift [of n] assms(2) by auto
    next
      case False
      then show ?thesis using bit_imp_le_length by (metis)
    qed
  qed
  then have "z = 0" by (intro bit_word_eqI) simp
  then show ?thesis by (intro xor_inj(1) [of x y y]) (simp add: z_def)
qed

lemma mult_unit_inj:
  fixes a b c i :: "'a::len word"
  assumes "a * c = b * c" "c * i = 1"
  shows "a = b"
proof -
  have "a * (c * i) = b * (c * i)" using assms(1) by (simp flip: mult.assoc)
  then show ?thesis using assms(2) by simp
qed

lemma kMul_inj: "a * 0x9ddfea08eb382d69 = b * 0x9ddfea08eb382d69 \<Longrightarrow> a = b" for a b :: u64
  by (erule mult_unit_inj [where i = "0xdc56e6f5090b32d9"]) simp

text \<open>
  The mixing steps lose no information: \<^verbatim>\<open>fmix\<close> and \<^verbatim>\<open>ShiftMix\<close> are
  injective, and for a fixed second argument so is \<^verbatim>\<open>HashLen16\<close>; hence two keys collide under
  \<^verbatim>\<open>CityHash64WithSeeds\<close> only if they collide under \<^verbatim>\<open>CityHash64\<close>.
\<close>

theorem city_mixers_injective:
  "inj fmix \<and> inj ShiftMix \<and> inj (\<lambda>u. HashLen16 u v)
   \<and> (CityHash64 m s len = Inr h \<and> CityHash64 m' s' len' = Inr h' \<longrightarrow>
       (CityHash64WithSeeds m s len seed0 seed1 = CityHash64WithSeeds m' s' len' seed0 seed1 \<longleftrightarrow> h = h'))"
proof -
  have fmix: "inj fmix"
    unfolding fmix_def Let_def
    by (rule injI, drule xorshift_inj, simp, drule mult_unit_inj [where i = "0x7ed1b41d"], simp,
        drule xorshift_inj, simp, drule mult_unit_inj [where i = "0xa5cb9243"], simp,
        drule xorshift_inj) simp_all
  have shift: "inj ShiftMix"
    unfolding ShiftMix_def by (rule injI, drule xorshift_inj) simp_all
  have hash: "inj (\<lambda>u. HashLen16 u v)" for v
    unfolding HashLen16_def Hash128to64_def Let_def uint128.simps
    by (rule injI, drule kMul_inj, drule xorshift_inj, simp, drule kMul_inj, drule xor_inj,
        drule xorshift_inj, simp, drule kMul_inj, erule xor_inj)
  show ?thesis using fmix shift hash injD [OF hash, of "h - seed0" seed1 "h' - seed0"]
    by (auto simp: CityHash64WithSeeds_def)
qed

theorem city_mixers_injective_witness:
  "CityHash64 [] 0 0 = Inr k2 \<and> CityHash64WithSeeds [] 0 0 1 2 = CityHash64WithSeeds [7] 1 0 1 2"
  using city_mixers_injective [of 0 "[]" 0 0 k2 "[7]" 1 0 k2 1 2]
  by (simp add: CityHash64_def HashLen0to16_def)

lemma shift_or_rotr:
  fixes w :: "'a::len word"
  assumes "k < LENGTH('a)" "0 < k"
  shows "drop_bit k w OR push_bit (LENGTH('a) - k) w = word_rotr k w"
proof (rule bit_word_eqI)
  fix n assume n: "n < LENGTH('a)"
  show "bit (drop_bit k w OR push_bit (LENGTH('a) - k) w) n = bit (word_rotr k w) n"
  proof (cases "n + k < LENGTH('a)")
    case True
    then show ?thesis using n assms by (auto simp: bit_simps add.commute)
  next
    case False
    then have "(n + k) mod LENGTH('a) = n - (LENGTH('a) - k)" using n assms by (simp add: mod_if)
    moreover have "\<not> bit w (k + n)" using False bit_imp_le_length [of w "k + n"] by auto
    ultimately show ?thesis using False n assms by (auto simp: bit_simps)
  qed
qed

lemma rotr_0: "word_rotr 0 w = w" for w :: "'a::len word"
  by (rule bit_word_eqI) (simp add: bit_word_rotr_iff)

text \<open>
  The shift-and-or rotations of the code are the rotations of the word library, for
  every distance below the width, the special case 0 included.
\<close>

theorem rotate_is_rotation:
  "(j < 32 \<longrightarrow> Rotate32 x j = word_rotr j x) \<and> (k < 64 \<longrightarrow> Rotate y k = word_rotr k y)"
  using shift_or_rotr [of j x] shift_or_rotr [of k y] by (auto simp: Rotate32_def Rotate_def rotr_0)

theorem rotate_is_rotation_witness: "Rotate32 0x12345678 8 = 0x78123456 \<and> Rotate 0xff 4 = 0xf00000000000000f"
  using rotate_is_rotation [of 8 "0x12345678" 4 "0xff"]
  by (simp add: Rotate32_def Rotate_def)

end
