(* ===== verification/Ssd.thy ===== *)
theory Ssd
  imports ChanModel
begin

text \<open>
  The NAND and timing model of \<^verbatim>\<open>nvmevirt/ssd.c\<close> and \<^verbatim>\<open>ssd.h\<close>, in the configuration
  \<^verbatim>\<open>SAMSUNG_970PRO_HASH_DFTL\<close> of \<^verbatim>\<open>ssd_config.h\<close>.

  The geometry fields are C ints and unsigned longs.  For every disk below 512 TiB their values and
  intermediate products fit (\<open>ssd_init_params_geometry\<close>), so they are naturals here.  Times are 64-bit words.
  \<^verbatim>\<open>__get_ioclock\<close> and \<^verbatim>\<open>__get_wallclock\<close> read the same CPU clock; the \<open>n\<close>-th reading is \<open>clk n\<close>
  for an arbitrary \<open>clk\<close>, and \<open>ssd_reads\<close> counts the readings.  The file-level spin locks \<^verbatim>\<open>spin\<close>
  and \<^verbatim>\<open>adv_spin\<close> are fields of the device.
  The functions that only free memory (\<^verbatim>\<open>ssd_remove\<close> and its helpers) are not modelled.
  The never-read fields \<^verbatim>\<open>gc_endtime\<close> and \<^verbatim>\<open>next_pln_avail_time\<close> are left out.
\<close>

subsection \<open>Configuration\<close>

definition KB :: "nat \<Rightarrow> nat" where
  "KB k = k * 1024"

definition PAGESIZE :: nat where "PAGESIZE = KB 4"
definition SSD_PARTITIONS :: nat where "SSD_PARTITIONS = 1"
definition NAND_CHANNELS :: nat where "NAND_CHANNELS = 8"
definition LUNS_PER_NAND_CH :: nat where "LUNS_PER_NAND_CH = 8"
definition PLNS_PER_LUN :: nat where "PLNS_PER_LUN = 1"
definition FLASH_PAGE_SIZE :: nat where "FLASH_PAGE_SIZE = KB 32"
definition ONESHOT_PAGE_SIZE :: nat where "ONESHOT_PAGE_SIZE = FLASH_PAGE_SIZE * 1"
definition BLKS_PER_PLN :: nat where "BLKS_PER_PLN = 0"
definition BLK_SIZE :: nat where "BLK_SIZE = KB 128"
definition MAX_CH_XFER_SIZE :: nat where "MAX_CH_XFER_SIZE = KB 16"
definition CELL_MODE :: nat where "CELL_MODE = 2"
definition GLOBAL_WB_SIZE :: nat where
  "GLOBAL_WB_SIZE = NAND_CHANNELS * LUNS_PER_NAND_CH * ONESHOT_PAGE_SIZE * 2"

lemmas config_defs =
  KB_def PAGESIZE_def SSD_PARTITIONS_def NAND_CHANNELS_def LUNS_PER_NAND_CH_def PLNS_PER_LUN_def
  FLASH_PAGE_SIZE_def ONESHOT_PAGE_SIZE_def BLKS_PER_PLN_def BLK_SIZE_def MAX_CH_XFER_SIZE_def
  CELL_MODE_def GLOBAL_WB_SIZE_def

subsection \<open>Data\<close>

text \<open>\<open>struct ppa\<close>: a 64-bit union of bit fields; \<open>mk_ppa\<close> stores values into the fields, which keep
  their low 16, 16, 8, 8, 8 and 8 bits.\<close>

record ppa =
  g_pg :: nat
  g_blk :: nat
  g_pl :: nat
  g_lun :: nat
  g_ch :: nat
  g_rsv :: nat

definition mk_ppa :: "nat \<Rightarrow> nat \<Rightarrow> nat \<Rightarrow> nat \<Rightarrow> nat \<Rightarrow> ppa" where
  "mk_ppa ch lun pl blk pg = \<lparr>g_pg = pg mod 2 ^ 16, g_blk = blk mod 2 ^ 16, g_pl = pl mod 2 ^ 8,
     g_lun = lun mod 2 ^ 8, g_ch = ch mod 2 ^ 8, g_rsv = 0\<rparr>"

definition ppa_word :: "ppa \<Rightarrow> nat" where
  "ppa_word p = g_pg p + 2 ^ 16 * g_blk p + 2 ^ 32 * g_pl p + 2 ^ 40 * g_lun p + 2 ^ 48 * g_ch p
     + 2 ^ 56 * g_rsv p"

definition UNMAPPED_PPA :: nat where
  "UNMAPPED_PPA = 2 ^ 64 - 1"

datatype sec_status = SEC_FREE | SEC_INVALID | SEC_VALID
datatype pg_status = PG_FREE | PG_INVALID | PG_VALID

record nand_page =
  np_sec :: "sec_status list"
  np_nsecs :: nat
  np_status :: pg_status

record nand_block =
  nb_pg :: "nand_page list"
  nb_npgs :: nat
  nb_ipc :: int
  nb_vpc :: int
  nb_igc :: int
  nb_vgc :: int
  nb_erase_cnt :: int
  nb_wp :: int

record nand_plane =
  npl_blk :: "nand_block list"
  npl_nblks :: nat

record nand_lun =
  nl_pl :: "nand_plane list"
  nl_npls :: nat
  nl_next_lun_avail_time :: u64
  nl_busy :: bool

record ssd_channel =
  sc_lun :: "nand_lun list"
  sc_nluns :: nat
  sc_perf_model :: channel_model

datatype nand_op = NAND_READ | NAND_WRITE | NAND_ERASE | NAND_NOP | NAND_other int

record nand_cmd =
  nc_type :: nat
  nc_cmd :: nand_op
  nc_xfer_size :: u64
  nc_stime :: u64
  nc_interleave_pci_dma :: bool
  nc_ppa :: ppa

record buffer =
  buf_size :: u64
  buf_remaining :: u64
  buf_lock :: bool

record ssdparams =
  secsz :: nat
  secs_per_pg :: nat
  pgsz :: nat
  pgs_per_flashpg :: nat
  flashpgs_per_blk :: nat
  pgs_per_oneshotpg :: nat
  oneshotpgs_per_blk :: nat
  pgs_per_blk :: nat
  blks_per_pl :: nat
  pls_per_lun :: nat
  luns_per_ch :: nat
  nchs :: nat
  cell_mode :: nat
  write_unit_size :: nat
  write_early_completion :: bool
  pg_4kb_rd_lat :: "nat list"
  pg_rd_lat :: "nat list"
  pg_wr_lat :: nat
  blk_er_lat :: nat
  max_ch_xfer_size :: nat
  fw_4kb_rd_lat :: nat
  fw_rd_lat :: nat
  fw_wbuf_lat0 :: nat
  fw_wbuf_lat1 :: nat
  fw_ch_xfer_lat :: nat
  ch_bandwidth :: nat
  pcie_bandwidth :: nat
  secs_per_blk :: nat
  secs_per_pl :: nat
  secs_per_lun :: nat
  secs_per_ch :: nat
  tt_secs :: nat
  pgs_per_pl :: nat
  pgs_per_lun :: nat
  pgs_per_ch :: nat
  tt_pgs :: nat
  blks_per_lun :: nat
  blks_per_ch :: nat
  tt_blks :: nat
  secs_per_line :: nat
  pgs_per_line :: nat
  flashpgs_per_line :: nat
  blks_per_line :: nat
  tt_lines :: nat
  pls_per_ch :: nat
  tt_pls :: nat
  tt_luns :: nat
  write_buffer_size :: nat

record ssd =
  ssd_sp :: ssdparams
  ssd_ch :: "ssd_channel list"
  ssd_pcie :: channel_model
  ssd_write_buffer :: buffer
  ssd_spin :: bool
  ssd_adv_spin :: bool
  ssd_reads :: nat

subsection \<open>Write buffer accounting\<close>

text \<open>Each operation spins until it gets the lock.  \<open>buffer_allocate\<close> answers with the allocated
  size as a \<^verbatim>\<open>uint32_t\<close>.\<close>

definition buffer_init :: "buffer \<Rightarrow> u64 \<Rightarrow> buffer" where
  "buffer_init buf sz = buf\<lparr>buf_lock := False, buf_size := sz, buf_remaining := sz\<rparr>"

definition buffer_allocate :: "buffer \<Rightarrow> u64 \<Rightarrow> (u32 \<times> buffer) result" where
  "buffer_allocate buf sz =
     (if buf_lock buf then Inl Deadlock
      else let sz1 = (if buf_remaining buf < sz then 0 else sz)
           in Inr (ucast sz1, buf\<lparr>buf_remaining := buf_remaining buf - sz1\<rparr>))"

definition buffer_release :: "buffer \<Rightarrow> u64 \<Rightarrow> (bool \<times> buffer) result" where
  "buffer_release buf sz =
     (if buf_lock buf then Inl Deadlock
      else Inr (True, buf\<lparr>buf_remaining := buf_remaining buf + sz\<rparr>))"

definition buffer_refill :: "buffer \<Rightarrow> buffer result" where
  "buffer_refill buf =
     (if buf_lock buf then Inl Deadlock else Inr (buf\<lparr>buf_remaining := buf_size buf\<rparr>))"

subsection \<open>Geometry\<close>

definition div_round_up :: "nat \<Rightarrow> nat \<Rightarrow> nat" where
  "div_round_up n d = (n + d - 1) div d"

text \<open>The static checks of the build (\<^verbatim>\<open>ONESHOT_PAGE_SIZE\<close> against page and flash page sizes) hold
  for the configuration and are kept as assertions.\<close>

definition ssd_init_params :: "nat \<Rightarrow> nat \<Rightarrow> ssdparams result" where
  "ssd_init_params capacity0 nparts =
    (if nparts = 0 then Inl Div_by_zero
     else if NAND_CHANNELS mod nparts \<noteq> 0 then Inl Bug_on
     else
      let secsz' = 512;
          secs_per_pg' = PAGESIZE div 512;
          pgsz' = secsz' * secs_per_pg';
          nchs' = NAND_CHANNELS div nparts;
          pls_per_lun' = PLNS_PER_LUN;
          luns_per_ch' = LUNS_PER_NAND_CH;
          capacity = capacity0 div nparts;
          blks_per_pl' =
            (if BLKS_PER_PLN > 0 then BLKS_PER_PLN
             else div_round_up capacity (BLK_SIZE * pls_per_lun' * luns_per_ch' * nchs'));
          blk_size =
            (if BLKS_PER_PLN > 0
             then div_round_up capacity (BLKS_PER_PLN * pls_per_lun' * luns_per_ch' * nchs')
             else BLK_SIZE)
      in if \<not> (BLKS_PER_PLN > 0) \<and> \<not> (BLK_SIZE > 0) then Inl Bug_on
         else if \<not> (ONESHOT_PAGE_SIZE mod pgsz' = 0 \<and> FLASH_PAGE_SIZE mod pgsz' = 0) then Inl Bug_on
         else if \<not> (ONESHOT_PAGE_SIZE mod FLASH_PAGE_SIZE = 0) then Inl Bug_on
         else
      let pgs_per_oneshotpg' = ONESHOT_PAGE_SIZE div pgsz';
          oneshotpgs_per_blk' = div_round_up blk_size ONESHOT_PAGE_SIZE;
          pgs_per_flashpg' = FLASH_PAGE_SIZE div pgsz';
          flashpgs_per_blk' = (ONESHOT_PAGE_SIZE div FLASH_PAGE_SIZE) * oneshotpgs_per_blk';
          pgs_per_blk' = pgs_per_oneshotpg' * oneshotpgs_per_blk';
          secs_per_blk' = secs_per_pg' * pgs_per_blk';
          secs_per_pl' = secs_per_blk' * blks_per_pl';
          secs_per_lun' = secs_per_pl' * pls_per_lun';
          secs_per_ch' = secs_per_lun' * luns_per_ch';
          pgs_per_pl' = pgs_per_blk' * blks_per_pl';
          pgs_per_lun' = pgs_per_pl' * pls_per_lun';
          pgs_per_ch' = pgs_per_lun' * luns_per_ch';
          blks_per_lun' = blks_per_pl' * pls_per_lun';
          blks_per_ch' = blks_per_lun' * luns_per_ch';
          pls_per_ch' = pls_per_lun' * luns_per_ch';
          tt_luns' = luns_per_ch' * nchs';
          blks_per_line' = tt_luns';
          pgs_per_line' = blks_per_line' * pgs_per_blk'
      in Inr \<lparr>secsz = secsz', secs_per_pg = secs_per_pg', pgsz = pgsz',
              pgs_per_flashpg = pgs_per_flashpg', flashpgs_per_blk = flashpgs_per_blk',
              pgs_per_oneshotpg = pgs_per_oneshotpg', oneshotpgs_per_blk = oneshotpgs_per_blk',
              pgs_per_blk = pgs_per_blk', blks_per_pl = blks_per_pl', pls_per_lun = pls_per_lun',
              luns_per_ch = luns_per_ch', nchs = nchs', cell_mode = CELL_MODE,
              write_unit_size = 512, write_early_completion = True,
              pg_4kb_rd_lat = [35760 - 6000, 35760 + 6000, 0],
              pg_rd_lat = [36013 - 6000, 36013 + 6000, 0],
              pg_wr_lat = 185000, blk_er_lat = 0, max_ch_xfer_size = MAX_CH_XFER_SIZE,
              fw_4kb_rd_lat = 21500, fw_rd_lat = 30490, fw_wbuf_lat0 = 4000, fw_wbuf_lat1 = 460,
              fw_ch_xfer_lat = 0, ch_bandwidth = 800, pcie_bandwidth = 3360,
              secs_per_blk = secs_per_blk', secs_per_pl = secs_per_pl',
              secs_per_lun = secs_per_lun', secs_per_ch = secs_per_ch',
              tt_secs = secs_per_ch' * nchs',
              pgs_per_pl = pgs_per_pl', pgs_per_lun = pgs_per_lun', pgs_per_ch = pgs_per_ch',
              tt_pgs = pgs_per_ch' * nchs',
              blks_per_lun = blks_per_lun', blks_per_ch = blks_per_ch',
              tt_blks = blks_per_ch' * nchs',
              secs_per_line = pgs_per_line' * secs_per_pg', pgs_per_line = pgs_per_line',
              flashpgs_per_line = pgs_per_line' div pgs_per_flashpg',
              blks_per_line = blks_per_line', tt_lines = blks_per_lun',
              pls_per_ch = pls_per_ch', tt_pls = pls_per_ch' * nchs', tt_luns = tt_luns',
              write_buffer_size = GLOBAL_WB_SIZE\<rparr>)"

subsection \<open>Building the device\<close>

definition ssd_init_nand_page :: "ssdparams \<Rightarrow> nand_page" where
  "ssd_init_nand_page spp =
     \<lparr>np_sec = replicate (secs_per_pg spp) SEC_FREE, np_nsecs = secs_per_pg spp, np_status = PG_FREE\<rparr>"

definition ssd_init_nand_blk :: "ssdparams \<Rightarrow> nand_block" where
  "ssd_init_nand_blk spp =
     \<lparr>nb_pg = replicate (pgs_per_blk spp) (ssd_init_nand_page spp), nb_npgs = pgs_per_blk spp,
      nb_ipc = 0, nb_vpc = 0, nb_igc = 0, nb_vgc = 0, nb_erase_cnt = 0, nb_wp = 0\<rparr>"

definition ssd_init_nand_plane :: "ssdparams \<Rightarrow> nand_plane" where
  "ssd_init_nand_plane spp =
     \<lparr>npl_blk = replicate (blks_per_pl spp) (ssd_init_nand_blk spp), npl_nblks = blks_per_pl spp\<rparr>"

definition ssd_init_nand_lun :: "ssdparams \<Rightarrow> nand_lun" where
  "ssd_init_nand_lun spp =
     \<lparr>nl_pl = replicate (pls_per_lun spp) (ssd_init_nand_plane spp), nl_npls = pls_per_lun spp,
      nl_next_lun_avail_time = 0, nl_busy = False\<rparr>"

text \<open>\<open>pm\<close> is the fresh memory of the channel's performance model.\<close>

definition ssd_init_ch :: "channel_model \<Rightarrow> ssdparams \<Rightarrow> ssd_channel result" where
  "ssd_init_ch pm spp =
     bindR (chmodel_init pm (of_nat (ch_bandwidth spp))) (\<lambda>pm1.
       Inr \<lparr>sc_lun = replicate (luns_per_ch spp) (ssd_init_nand_lun spp), sc_nluns = luns_per_ch spp,
            sc_perf_model = pm1\<lparr>ch_xfer_lat := ch_xfer_lat pm1 +
              ucast ((of_nat (fw_ch_xfer_lat spp) * UNIT_XFER_SIZE) div (of_nat (KB 4)))\<rparr>\<rparr>)"

definition ssd_init_pcie :: "channel_model \<Rightarrow> ssdparams \<Rightarrow> channel_model result" where
  "ssd_init_pcie pm spp = chmodel_init pm (of_nat (pcie_bandwidth spp))"

definition ssd_init :: "channel_model \<Rightarrow> ssdparams \<Rightarrow> ssd result" where
  "ssd_init pm spp =
     bindR (ssd_init_ch pm spp) (\<lambda>c.
     bindR (ssd_init_pcie pm spp) (\<lambda>pc.
       Inr \<lparr>ssd_sp = spp, ssd_ch = replicate (nchs spp) c, ssd_pcie = pc,
            ssd_write_buffer = buffer_init \<lparr>buf_size = 0, buf_remaining = 0, buf_lock = False\<rparr>
                                 (of_nat (write_buffer_size spp)),
            ssd_spin = False, ssd_adv_spin = False, ssd_reads = 0\<rparr>))"

subsection \<open>Locating NAND structures\<close>

text \<open>The accessors follow the nested arrays; an index outside them is a fault.\<close>

definition get_ch :: "ssd \<Rightarrow> ppa \<Rightarrow> ssd_channel result" where
  "get_ch s p = (if g_ch p < length (ssd_ch s) then Inr (ssd_ch s ! g_ch p) else Inl Out_of_bounds)"

definition get_lun :: "ssd \<Rightarrow> ppa \<Rightarrow> nand_lun result" where
  "get_lun s p = bindR (get_ch s p) (\<lambda>c.
     if g_lun p < length (sc_lun c) then Inr (sc_lun c ! g_lun p) else Inl Out_of_bounds)"

definition get_pl :: "ssd \<Rightarrow> ppa \<Rightarrow> nand_plane result" where
  "get_pl s p = bindR (get_lun s p) (\<lambda>l.
     if g_pl p < length (nl_pl l) then Inr (nl_pl l ! g_pl p) else Inl Out_of_bounds)"

definition get_blk :: "ssd \<Rightarrow> ppa \<Rightarrow> nand_block result" where
  "get_blk s p = bindR (get_pl s p) (\<lambda>pl.
     if g_blk p < length (npl_blk pl) then Inr (npl_blk pl ! g_blk p) else Inl Out_of_bounds)"

definition get_pg :: "ssd \<Rightarrow> ppa \<Rightarrow> nand_page result" where
  "get_pg s p = bindR (get_blk s p) (\<lambda>b.
     if g_pg p < length (nb_pg b) then Inr (nb_pg b ! g_pg p) else Inl Out_of_bounds)"

definition get_cell :: "ssdparams \<Rightarrow> ppa \<Rightarrow> nat" where
  "get_cell spp p = (g_pg p div pgs_per_flashpg spp) mod (cell_mode spp + 1)"

text \<open>Assigning through the returned pointers.\<close>

definition set_lun :: "ppa \<Rightarrow> (nand_lun \<Rightarrow> nand_lun) \<Rightarrow> ssd \<Rightarrow> ssd" where
  "set_lun p f s = s\<lparr>ssd_ch := (ssd_ch s)[g_ch p :=
     (ssd_ch s ! g_ch p)\<lparr>sc_lun := (sc_lun (ssd_ch s ! g_ch p))[g_lun p :=
        f (sc_lun (ssd_ch s ! g_ch p) ! g_lun p)]\<rparr>]\<rparr>"

definition set_perf_model :: "nat \<Rightarrow> channel_model \<Rightarrow> ssd \<Rightarrow> ssd" where
  "set_perf_model i pm s = s\<lparr>ssd_ch := (ssd_ch s)[i := (ssd_ch s ! i)\<lparr>sc_perf_model := pm\<rparr>]\<rparr>"

subsection \<open>Timing\<close>

definition read_clock :: "(nat \<Rightarrow> u64) \<Rightarrow> ssd \<Rightarrow> u64 \<times> ssd" where
  "read_clock clk s = (clk (ssd_reads s), s\<lparr>ssd_reads := Suc (ssd_reads s)\<rparr>)"

text \<open>A request on channel \<open>i\<close>, and one on the PCIe link under its own spin lock.\<close>

definition ch_request :: "(nat \<Rightarrow> u64) \<Rightarrow> ssd \<Rightarrow> nat \<Rightarrow> u64 \<Rightarrow> u64 \<Rightarrow> (u64 \<times> ssd) result" where
  "ch_request clk s i request_time len =
     (let (t, s1) = read_clock clk s
      in bindR (chmodel_request t (sc_perf_model (ssd_ch s1 ! i)) request_time len)
           (\<lambda>(r, pm). Inr (r, set_perf_model i pm s1)))"

definition ssd_advance_pcie ::
  "(nat \<Rightarrow> u64) \<Rightarrow> ssd \<Rightarrow> u64 \<Rightarrow> u64 \<Rightarrow> (u64 \<times> ssd) result" where
  "ssd_advance_pcie clk s request_time len =
     (if ssd_spin s then Inl Deadlock
      else let (t, s1) = read_clock clk (s\<lparr>ssd_spin := True\<rparr>)
           in bindR (chmodel_request t (ssd_pcie s1) request_time len)
                (\<lambda>(r, pm). Inr (r, s1\<lparr>ssd_pcie := pm, ssd_spin := False\<rparr>)))"

definition ssd_advance_write_buffer ::
  "(nat \<Rightarrow> u64) \<Rightarrow> ssd \<Rightarrow> u64 \<Rightarrow> u64 \<Rightarrow> (u64 \<times> ssd) result" where
  "ssd_advance_write_buffer clk s request_time len =
     (let spp = ssd_sp s;
          nsecs_latest = request_time + of_nat (fw_wbuf_lat0 spp);
          nsecs_latest = nsecs_latest + of_nat (fw_wbuf_lat1 spp) * DIV_ROUND_UP len (of_nat (KB 4))
      in ssd_advance_pcie clk s nsecs_latest len)"

text \<open>
  The transfer loop of a NAND read: chunks of at most \<open>max_ch_xfer_size\<close> bytes over the channel,
  each followed by a PCIe transfer when the two are overlapped.  The last channel end time and
  completion time are returned; they are unset when nothing is transferred.
\<close>

function nand_read_loop ::
  "(nat \<Rightarrow> u64) \<Rightarrow> ssd \<Rightarrow> nat \<Rightarrow> bool \<Rightarrow> u64 \<Rightarrow> u64 \<Rightarrow> (u64 \<times> u64) option \<Rightarrow>
   ((u64 \<times> u64) option \<times> ssd) result" where
  "nand_read_loop clk s i interleave chnl_stime remaining ends =
     (if remaining = 0 then Inr (ends, s)
      else let xfer_size = min remaining (of_nat (max_ch_xfer_size (ssd_sp s)))
           in if xfer_size = 0 then Inl Diverges
              else bindR (ch_request clk s i chnl_stime xfer_size) (\<lambda>(chnl_etime, s1).
                   bindR (if interleave then ssd_advance_pcie clk s1 chnl_etime xfer_size
                          else Inr (chnl_etime, s1)) (\<lambda>(completed_time, s2).
                     nand_read_loop clk s2 i interleave chnl_etime (remaining - xfer_size)
                       (Some (chnl_etime, completed_time)))))"
  by pat_completeness auto
termination
proof (relation "measure (\<lambda>(clk, s, i, il, t, r, x). unat r)", goal_cases)
  case (2 clk s i il t r x xs)
  then have "xs \<le> r" "0 < unat xs" by (simp_all add: unat_gt_0)
  then have "unat (r - xs) < unat r" by (simp add: unat_sub word_le_nat_alt)
  then show ?case by simp
qed simp

declare nand_read_loop.simps [simp del]

text \<open>\<open>ssd_advance_nand\<close> takes \<^verbatim>\<open>adv_spin\<close> on entry; the exits for an unmapped address and for an
  unknown command leave it held.\<close>

definition ssd_advance_nand ::
  "(nat \<Rightarrow> u64) \<Rightarrow> ssd \<Rightarrow> nand_cmd \<Rightarrow> (u64 \<times> ssd) result" where
  "ssd_advance_nand clk s ncmd =
     (let p = nc_ppa ncmd in
      if ssd_adv_spin s then Inl Deadlock
      else
       let s0 = s\<lparr>ssd_adv_spin := True\<rparr>;
           (cmd_stime, s1) = (if nc_stime ncmd = 0 then read_clock clk s0 else (nc_stime ncmd, s0))
       in if ppa_word p = UNMAPPED_PPA then Inr (cmd_stime, s1)
          else bindR (get_lun s1 p) (\<lambda>lun.
            let spp = ssd_sp s1;
                cell = get_cell spp p;
                start = max (nl_next_lun_avail_time lun) cmd_stime;
                finish = (\<lambda>avail completed s'.
                  Inr (completed, (set_lun p (\<lambda>l. l\<lparr>nl_next_lun_avail_time := avail\<rparr>) s')
                                    \<lparr>ssd_adv_spin := False\<rparr>))
            in case nc_cmd ncmd of
                 NAND_READ \<Rightarrow>
                   if cell \<ge> length (pg_rd_lat spp) then Inl Out_of_bounds
                   else let nand_etime = start + of_nat (if nc_xfer_size ncmd = 4096
                                            then pg_4kb_rd_lat spp ! cell else pg_rd_lat spp ! cell)
                        in bindR (nand_read_loop clk s1 (g_ch p) (nc_interleave_pci_dma ncmd)
                                    nand_etime (nc_xfer_size ncmd) None) (\<lambda>(ends, s2).
                             case ends of None \<Rightarrow> Inl Uninitialised
                             | Some (chnl_etime, completed_time) \<Rightarrow>
                                 finish chnl_etime completed_time s2)
               | NAND_WRITE \<Rightarrow>
                   bindR (ch_request clk s1 (g_ch p) start (nc_xfer_size ncmd)) (\<lambda>(chnl_etime, s2).
                     let nand_etime = chnl_etime + of_nat (pg_wr_lat spp)
                     in finish nand_etime nand_etime s2)
               | NAND_ERASE \<Rightarrow>
                   let nand_etime = start + of_nat (blk_er_lat spp)
                   in finish nand_etime nand_etime s1
               | NAND_NOP \<Rightarrow> finish start start s1
               | NAND_other c \<Rightarrow> Inr (0, s1)))"

fun latest_lun :: "u64 \<Rightarrow> nand_lun list \<Rightarrow> u64" where
  "latest_lun t [] = t"
| "latest_lun t (l # ls) = latest_lun (max t (nl_next_lun_avail_time l)) ls"

fun latest_ch :: "nat \<Rightarrow> u64 \<Rightarrow> ssd_channel list \<Rightarrow> u64" where
  "latest_ch n t [] = t"
| "latest_ch n t (c # cs) = latest_ch n (latest_lun t (take n (sc_lun c))) cs"

definition ssd_next_idle_time :: "(nat \<Rightarrow> u64) \<Rightarrow> ssd \<Rightarrow> u64 \<times> ssd" where
  "ssd_next_idle_time clk s =
     (let (latest, s1) = read_clock clk s; spp = ssd_sp s1
      in (latest_ch (luns_per_ch spp) latest (take (nchs spp) (ssd_ch s1)), s1))"

subsection \<open>Well-formed devices\<close>

definition geom_ok :: "ssdparams \<Rightarrow> bool" where
  "geom_ok spp \<longleftrightarrow>
     0 < pgs_per_oneshotpg spp \<and> 0 < oneshotpgs_per_blk spp \<and> 0 < pgs_per_flashpg spp \<and>
     0 < nchs spp \<and> nchs spp < 2 ^ 8 \<and> 0 < luns_per_ch spp \<and> luns_per_ch spp < 2 ^ 8 \<and>
     pls_per_lun spp = 1 \<and> 0 < blks_per_pl spp \<and> pgs_per_blk spp < 2 ^ 16 \<and> nchs spp \<le> pgs_per_ch spp \<and>
     pgs_per_blk spp = pgs_per_oneshotpg spp * oneshotpgs_per_blk spp \<and>
     pgs_per_pl spp = pgs_per_blk spp * blks_per_pl spp \<and>
     pgs_per_lun spp = pgs_per_pl spp * pls_per_lun spp \<and>
     pgs_per_ch spp = pgs_per_lun spp * luns_per_ch spp \<and>
     tt_pgs spp = pgs_per_ch spp * nchs spp \<and>
     pgs_per_line spp = luns_per_ch spp * nchs spp * pgs_per_blk spp \<and>
     tt_lines spp = blks_per_pl spp"

definition ssd_wf :: "ssd \<Rightarrow> bool" where
  "ssd_wf s \<longleftrightarrow> chm_wf (ssd_pcie s) \<and> (\<forall>c\<in>set (ssd_ch s). chm_wf (sc_perf_model c)) \<and> \<not> ssd_spin s"

text \<open>What a transfer leaves alone.\<close>

definition same_nand :: "ssd \<Rightarrow> ssd \<Rightarrow> bool" where
  "same_nand s s' \<longleftrightarrow> ssd_sp s' = ssd_sp s \<and> map sc_lun (ssd_ch s') = map sc_lun (ssd_ch s) \<and>
     ssd_write_buffer s' = ssd_write_buffer s \<and> ssd_adv_spin s' = ssd_adv_spin s"

lemma same_nand_refl [simp]: "same_nand s s"
  by (simp add: same_nand_def)

lemma same_nand_trans: "same_nand s t \<Longrightarrow> same_nand t u \<Longrightarrow> same_nand s u"
  by (simp add: same_nand_def)

lemma same_nand_length: "same_nand s s' \<Longrightarrow> length (ssd_ch s') = length (ssd_ch s)"
  by (auto simp: same_nand_def dest: arg_cong [where f = length])

text \<open>
  A link is a shared medium with its own queueing: from a well-formed device a transfer always
  returns, and nothing but the timing state of the links changes.  The NAND channels and the PCIe
  link are the two kinds of links of the device.
\<close>

locale xfer_link =
  fixes req :: "(nat \<Rightarrow> u64) \<Rightarrow> ssd \<Rightarrow> u64 \<Rightarrow> u64 \<Rightarrow> (u64 \<times> ssd) result"
    and present :: "ssd \<Rightarrow> bool"
  assumes req_ok: "ssd_wf s \<Longrightarrow> present s \<Longrightarrow>
      \<exists>r s'. req clk s t len = Inr (r, s') \<and> ssd_wf s' \<and> same_nand s s'"
    and present_same: "same_nand s s' \<Longrightarrow> present s' = present s"
begin

lemma reqE:
  assumes "ssd_wf s" "present s"
  obtains r s' where "req clk s t len = Inr (r, s')" "ssd_wf s'" "same_nand s s'" "present s'"
  using req_ok [OF assms, of clk t len] present_same assms(2) by blast

end

lemma set_perf_model_same [simp]: "i < length (ssd_ch s) \<Longrightarrow> same_nand s (set_perf_model i pm s)"
  by (simp add: same_nand_def set_perf_model_def map_update list_update_same_conv)

interpretation chan: xfer_link "\<lambda>clk s. ch_request clk s i" "\<lambda>s. i < length (ssd_ch s)" for i
proof
  fix s clk t len
  assume s: "ssd_wf s" "i < length (ssd_ch s)"
  let ?pm = "sc_perf_model (ssd_ch s ! i)"
  have "chm_wf ?pm" using s by (simp add: ssd_wf_def)
  then obtain r pm where r: "chmodel_request (clk (ssd_reads s)) ?pm t len = Inr (r, pm)" "chm_wf pm"
    using chmodel_request_total by blast
  have "ssd_wf (set_perf_model i pm (s\<lparr>ssd_reads := Suc (ssd_reads s)\<rparr>))"
    using s r(2) by (auto simp: ssd_wf_def set_perf_model_def dest!: set_update_subset_insert [THEN subsetD])
  moreover have "same_nand s (set_perf_model i pm (s\<lparr>ssd_reads := Suc (ssd_reads s)\<rparr>))"
    using s by (simp add: same_nand_def set_perf_model_def map_update list_update_same_conv)
  ultimately show "\<exists>r s'. ch_request clk s i t len = Inr (r, s') \<and> ssd_wf s' \<and> same_nand s s'"
    using r(1) by (simp add: ch_request_def read_clock_def)
qed (simp add: same_nand_length)

interpretation pcie: xfer_link ssd_advance_pcie "\<lambda>_. True"
proof
  fix s clk t len
  assume s: "ssd_wf s"
  then obtain r pm where r: "chmodel_request (clk (ssd_reads s)) (ssd_pcie s) t len = Inr (r, pm)" "chm_wf pm"
    using chmodel_request_total [of "ssd_pcie s"] unfolding ssd_wf_def by blast
  then show "\<exists>r s'. ssd_advance_pcie clk s t len = Inr (r, s') \<and> ssd_wf s' \<and> same_nand s s'"
    using s by (simp add: ssd_advance_pcie_def read_clock_def ssd_wf_def same_nand_def)
qed simp

lemma nand_read_loop_ok:
  assumes "ssd_wf s" "i < length (ssd_ch s)" "(of_nat (max_ch_xfer_size (ssd_sp s)) :: u64) \<noteq> 0"
    "remaining \<noteq> 0 \<or> ends \<noteq> None"
  shows "\<exists>e s'. nand_read_loop clk s i il t remaining ends = Inr (Some e, s') \<and> ssd_wf s' \<and> same_nand s s'"
  using assms
proof (induction clk s i il t remaining ends rule: nand_read_loop.induct)
  case (1 clk s i il t remaining ends)
  show ?case
  proof (cases "remaining = 0")
    case True
    then show ?thesis using "1.prems" by (auto simp: nand_read_loop.simps)
  next
    case False
    let ?xs = "min remaining (of_nat (max_ch_xfer_size (ssd_sp s)))"
    have xs: "?xs \<noteq> 0" using False "1.prems"(3) by (simp add: min_def)
    obtain et s1 where r1: "ch_request clk s i t ?xs = Inr (et, s1)" "ssd_wf s1" "same_nand s s1"
      "i < length (ssd_ch s1)" using "1.prems"(1,2) by (rule chan.reqE)
    obtain ct s2 where r2: "(if il then ssd_advance_pcie clk s1 et ?xs else Inr (et, s1)) = Inr (ct, s2)"
      "ssd_wf s2" "same_nand s1 s2"
      using r1(2) pcie.reqE [OF r1(2), of clk et ?xs] by (cases il) auto
    have s2: "same_nand s s2" using r1(3) r2(3) by (rule same_nand_trans)
    have "\<exists>e s'. nand_read_loop clk s2 i il et (remaining - ?xs) (Some (et, ct)) = Inr (Some e, s') \<and>
        ssd_wf s' \<and> same_nand s2 s'"
    proof (rule "1.IH" [OF False refl xs r1(1) refl r2(1) refl])
      show "i < length (ssd_ch s2)" using "1.prems"(2) same_nand_length [OF s2] by simp
      show "(of_nat (max_ch_xfer_size (ssd_sp s2)) :: u64) \<noteq> 0" using "1.prems"(3) s2 by (simp add: same_nand_def)
    qed (use r2 in simp_all)
    then show ?thesis
      using False xs r1(1) r2(1) same_nand_trans [OF s2]
      by (auto simp: nand_read_loop.simps [of clk s] Let_def simp del: min_def)
  qed
qed

text \<open>Without the overlap the last channel end time is the completion time.\<close>

lemma nand_read_loop_ends:
  "nand_read_loop clk s i False t remaining ends = Inr (Some (a, b), s') \<Longrightarrow> (\<And>x y. ends = Some (x, y) \<Longrightarrow> x = y) \<Longrightarrow> a = b"
proof (induction clk s i "False" t remaining ends rule: nand_read_loop.induct)
  case (1 clk s i t remaining ends)
  show ?case
  proof (cases "remaining = 0")
    case True
    then show ?thesis using "1.prems" by (simp add: nand_read_loop.simps [of clk s])
  next
    case False
    let ?xs = "min remaining (of_nat (max_ch_xfer_size (ssd_sp s)))"
    obtain et s1 where r: "?xs \<noteq> 0" "ch_request clk s i t ?xs = Inr (et, s1)"
      "nand_read_loop clk s1 i False et (remaining - ?xs) (Some (et, et)) = Inr (Some (a, b), s')"
      using "1.prems"(1) False by (auto simp: nand_read_loop.simps [of clk s] Let_def simp del: min_def elim!: bindR_InrE split: if_splits)
    show ?thesis by (rule "1.hyps" [OF False refl r(1,2) refl _ refl r(3)]) simp_all
  qed
qed

subsection \<open>Properties of the timing model\<close>

text \<open>The LUN a command addresses, and its availability time.\<close>

definition lun_at :: "ssd \<Rightarrow> ppa \<Rightarrow> nand_lun" where
  "lun_at s p = sc_lun (ssd_ch s ! g_ch p) ! g_lun p"

definition lun_in_range :: "ssd \<Rightarrow> ppa \<Rightarrow> bool" where
  "lun_in_range s p \<longleftrightarrow> g_ch p < length (ssd_ch s) \<and> g_lun p < length (sc_lun (ssd_ch s ! g_ch p))"

lemma get_lun_in_range: "lun_in_range s p \<Longrightarrow> get_lun s p = Inr (lun_at s p)"
  by (simp add: get_lun_def get_ch_def lun_in_range_def lun_at_def)

lemma lun_same_nand:
  assumes "same_nand s s'" "lun_in_range s p"
  shows "lun_in_range s' p" "lun_at s' p = lun_at s p"
proof -
  have len: "length (ssd_ch s') = length (ssd_ch s)" using assms(1) by (rule same_nand_length)
  have "sc_lun (ssd_ch s' ! g_ch p) = sc_lun (ssd_ch s ! g_ch p)"
    using assms len nth_map [of "g_ch p" "ssd_ch s" sc_lun] nth_map [of "g_ch p" "ssd_ch s'" sc_lun]
    by (simp add: same_nand_def lun_in_range_def)
  then show "lun_in_range s' p" "lun_at s' p = lun_at s p"
    using assms(2) len by (simp_all add: lun_in_range_def lun_at_def)
qed

lemma same_nand_sym: "same_nand s s' \<Longrightarrow> same_nand s' s"
  by (simp add: same_nand_def)

lemma lun_in_range_same: "same_nand s s' \<Longrightarrow> lun_in_range s' p = lun_in_range s p"
  using lun_same_nand(1) same_nand_sym by blast

lemma set_lun_spec:
  assumes "ssd_wf s" "lun_in_range s p"
  shows "ssd_wf (set_lun p f s)" "lun_at (set_lun p f s) p = f (lun_at s p)"
    "lun_in_range s q \<Longrightarrow> (g_ch q, g_lun q) \<noteq> (g_ch p, g_lun p) \<Longrightarrow> lun_at (set_lun p f s) q = lun_at s q"
    "ssd_sp (set_lun p f s) = ssd_sp s" "ssd_adv_spin (set_lun p f s) = ssd_adv_spin s"
    "lun_in_range (set_lun p f s) q = lun_in_range s q"
proof -
  show "lun_in_range (set_lun p f s) q = lun_in_range s q"
    using assms(2) by (auto simp: lun_in_range_def set_lun_def nth_list_update)
  show "ssd_wf (set_lun p f s)"
    using assms by (auto simp: ssd_wf_def set_lun_def lun_in_range_def
        dest!: set_update_subset_insert [THEN subsetD])
  show "lun_at (set_lun p f s) p = f (lun_at s p)"
    using assms(2) by (simp add: set_lun_def lun_at_def lun_in_range_def)
  show "lun_in_range s q \<Longrightarrow> (g_ch q, g_lun q) \<noteq> (g_ch p, g_lun p) \<Longrightarrow> lun_at (set_lun p f s) q = lun_at s q"
    using assms(2) by (cases "g_ch q = g_ch p") (auto simp: set_lun_def lun_at_def lun_in_range_def)
  show "ssd_sp (set_lun p f s) = ssd_sp s" "ssd_adv_spin (set_lun p f s) = ssd_adv_spin s"
    by (simp_all add: set_lun_def)
qed

text \<open>\<open>nand_done\<close>: the command has finished, the lock is free, and only the addressed LUN's
  availability time moved, to \<open>avail\<close>.\<close>

definition nand_done :: "ssd \<Rightarrow> ppa \<Rightarrow> u64 \<Rightarrow> ssd \<Rightarrow> bool" where
  "nand_done s p avail s' \<longleftrightarrow> ssd_wf s' \<and> \<not> ssd_adv_spin s' \<and> ssd_sp s' = ssd_sp s \<and>
     (\<forall>q. lun_in_range s' q = lun_in_range s q) \<and>
     lun_at s' p = (lun_at s p)\<lparr>nl_next_lun_avail_time := avail\<rparr> \<and>
     (\<forall>q. lun_in_range s q \<longrightarrow> (g_ch q, g_lun q) \<noteq> (g_ch p, g_lun p) \<longrightarrow> lun_at s' q = lun_at s q)"

lemma nand_done_finish:
  assumes "ssd_wf s2" "same_nand s s2" "lun_in_range s p"
  shows "nand_done s p avail
    ((set_lun p (\<lambda>l. l\<lparr>nl_next_lun_avail_time := avail\<rparr>) s2)\<lparr>ssd_adv_spin := False\<rparr>)"
proof -
  note r = lun_same_nand [OF assms(2)]
  note t = set_lun_spec [OF assms(1) r(1) [OF assms(3)], where f = "\<lambda>l. l\<lparr>nl_next_lun_avail_time := avail\<rparr>"]
  have r2: "lun_in_range (x\<lparr>ssd_adv_spin := b\<rparr>) q = lun_in_range x q" "lun_at (x\<lparr>ssd_adv_spin := b\<rparr>) q = lun_at x q"
    "ssd_wf (x\<lparr>ssd_adv_spin := b\<rparr>) = ssd_wf x" for x b q
    by (simp_all add: lun_in_range_def lun_at_def ssd_wf_def)
  show ?thesis
    using t r assms lun_in_range_same [OF assms(2)] assms(2) [unfolded same_nand_def]
    by (auto simp: nand_done_def r2)
qed

definition cmd_start :: "(nat \<Rightarrow> u64) \<Rightarrow> ssd \<Rightarrow> nand_cmd \<Rightarrow> u64" where
  "cmd_start clk s c = max (nl_next_lun_avail_time (lun_at s (nc_ppa c)))
     (if nc_stime c = 0 then clk (ssd_reads s) else nc_stime c)"

lemma advance_nand_cases:
  assumes "ssd_wf s" "\<not> ssd_adv_spin s" "lun_in_range s (nc_ppa c)" "ppa_word (nc_ppa c) \<noteq> UNMAPPED_PPA"
  shows "nc_cmd c = NAND_WRITE \<Longrightarrow> \<exists>e s'. ssd_advance_nand clk s c = Inr (e + of_nat (pg_wr_lat (ssd_sp s)), s') \<and>
      nand_done s (nc_ppa c) (e + of_nat (pg_wr_lat (ssd_sp s))) s'"
    "nc_cmd c = NAND_ERASE \<Longrightarrow> \<exists>s'. ssd_advance_nand clk s c =
        Inr (cmd_start clk s c + of_nat (blk_er_lat (ssd_sp s)), s') \<and>
      nand_done s (nc_ppa c) (cmd_start clk s c + of_nat (blk_er_lat (ssd_sp s))) s'"
    "nc_cmd c = NAND_NOP \<Longrightarrow> \<exists>s'. ssd_advance_nand clk s c = Inr (cmd_start clk s c, s') \<and>
      nand_done s (nc_ppa c) (cmd_start clk s c) s'"
    "nc_cmd c = NAND_READ \<Longrightarrow> get_cell (ssd_sp s) (nc_ppa c) < length (pg_rd_lat (ssd_sp s)) \<Longrightarrow>
      (of_nat (max_ch_xfer_size (ssd_sp s)) :: u64) \<noteq> 0 \<Longrightarrow> nc_xfer_size c \<noteq> 0 \<Longrightarrow>
      \<exists>t e s'. ssd_advance_nand clk s c = Inr (t, s') \<and> nand_done s (nc_ppa c) e s' \<and> (\<not> nc_interleave_pci_dma c \<longrightarrow> e = t)"
proof -
  define s1 where "s1 = (if nc_stime c = 0 then s\<lparr>ssd_adv_spin := True, ssd_reads := Suc (ssd_reads s)\<rparr>
    else s\<lparr>ssd_adv_spin := True\<rparr>)"
  let ?p = "nc_ppa c"
  have s1: "ssd_wf s1" "ssd_sp s1 = ssd_sp s" "lun_at s1 ?p = lun_at s ?p" "lun_in_range s1 ?p"
    "g_ch ?p < length (ssd_ch s1)"
    using assms by (simp_all add: s1_def ssd_wf_def lun_at_def lun_in_range_def)
  have done1: "nand_done s ?p a s'" if "nand_done s1 ?p a s'" for a s'
    using that by (auto simp: nand_done_def s1_def lun_at_def lun_in_range_def split: if_splits)
  note fin = done1 [OF nand_done_finish [OF _ _ s1(4)]]
  note fin1 = fin [OF s1(1) same_nand_refl]
  have start: "(if nc_stime c = 0 then read_clock clk (s\<lparr>ssd_adv_spin := True\<rparr>)
      else (nc_stime c, s\<lparr>ssd_adv_spin := True\<rparr>)) = (if nc_stime c = 0 then clk (ssd_reads s) else nc_stime c, s1)"
    by (simp add: read_clock_def s1_def)
  note unf = ssd_advance_nand_def Let_def start get_lun_in_range [OF s1(4)]
  show "nc_cmd c = NAND_ERASE \<Longrightarrow> \<exists>s'. ssd_advance_nand clk s c =
        Inr (cmd_start clk s c + of_nat (blk_er_lat (ssd_sp s)), s') \<and>
      nand_done s ?p (cmd_start clk s c + of_nat (blk_er_lat (ssd_sp s))) s'"
    using assms(2,4) fin1 s1 by (simp add: unf cmd_start_def)
  show "nc_cmd c = NAND_NOP \<Longrightarrow> \<exists>s'. ssd_advance_nand clk s c = Inr (cmd_start clk s c, s') \<and>
      nand_done s ?p (cmd_start clk s c) s'"
    using assms(2,4) fin1 s1 by (simp add: unf cmd_start_def)
  show "nc_cmd c = NAND_WRITE \<Longrightarrow> \<exists>e s'. ssd_advance_nand clk s c = Inr (e + of_nat (pg_wr_lat (ssd_sp s)), s') \<and>
      nand_done s ?p (e + of_nat (pg_wr_lat (ssd_sp s))) s'"
  proof -
    assume "nc_cmd c = NAND_WRITE"
    moreover obtain e s2 where "ch_request clk s1 (g_ch ?p) (cmd_start clk s c) (nc_xfer_size c) = Inr (e, s2)"
      "ssd_wf s2" "same_nand s1 s2" using chan.reqE [OF s1(1,5)] by metis
    ultimately show ?thesis using assms(2,4) fin s1 by (auto simp: unf cmd_start_def)
  qed
  show "\<exists>t e s'. ssd_advance_nand clk s c = Inr (t, s') \<and> nand_done s ?p e s' \<and> (\<not> nc_interleave_pci_dma c \<longrightarrow> e = t)"
    if rd: "nc_cmd c = NAND_READ" "get_cell (ssd_sp s) ?p < length (pg_rd_lat (ssd_sp s))"
      "(of_nat (max_ch_xfer_size (ssd_sp s)) :: u64) \<noteq> 0" "nc_xfer_size c \<noteq> 0"
  proof -
    let ?t = "cmd_start clk s c + of_nat (if nc_xfer_size c = 4096
      then pg_4kb_rd_lat (ssd_sp s) ! get_cell (ssd_sp s) ?p else pg_rd_lat (ssd_sp s) ! get_cell (ssd_sp s) ?p)"
    obtain e s2 where e: "nand_read_loop clk s1 (g_ch ?p) (nc_interleave_pci_dma c) ?t (nc_xfer_size c) None =
        Inr (Some e, s2)" "ssd_wf s2" "same_nand s1 s2"
      using nand_read_loop_ok [OF s1(1,5), of "nc_xfer_size c" None clk "nc_interleave_pci_dma c" ?t] rd(3,4) s1(2) by auto
    obtain a b where ab: "e = (a, b)" by fastforce
    have il: "\<not> nc_interleave_pci_dma c \<Longrightarrow> a = b" using nand_read_loop_ends [of clk s1 "g_ch ?p" ?t "nc_xfer_size c" None a b s2] e(1) ab by simp
    have "ssd_advance_nand clk s c =
        Inr (b, set_lun ?p (nl_next_lun_avail_time_update (\<lambda>_. a)) s2\<lparr>ssd_adv_spin := False\<rparr>)"
      using assms(2,4) s1 rd e(1) by (simp add: unf cmd_start_def not_le ab)
    then show ?thesis using fin [OF e(2,3)] il by blast
  qed
qed

lemma div_round_up_bounds: "0 < d \<Longrightarrow> n \<le> div_round_up n d * d \<and> div_round_up n d * d < n + d"
proof -
  assume d: "0 < d"
  have "(n + d - 1) div d * d + (n + d - 1) mod d = n + d - 1" by simp
  moreover have "(n + d - 1) mod d < d" using d by simp
  ultimately show ?thesis using d unfolding div_round_up_def by linarith
qed

lemma ssd_init_params_ok:
  assumes "0 < cap" "cap < 2 ^ 49"
  shows "\<exists>spp. ssd_init_params cap SSD_PARTITIONS = Inr spp \<and> geom_ok spp \<and>
    cap \<le> tt_pgs spp * pgsz spp \<and> tt_pgs spp * pgsz spp < cap + pgs_per_line spp * pgsz spp \<and>
    pgs_per_line spp * pgsz spp = 2 ^ 23 \<and>
    blks_per_pl spp < 2 ^ 31 \<and> tt_secs spp < 2 ^ 64 \<and> tt_pgs spp * pgsz spp < 2 ^ 64"
proof -
  let ?n = "div_round_up cap 8388608"
  have b: "cap \<le> ?n * 8388608" "?n * 8388608 < cap + 8388608"
    using div_round_up_bounds [of 8388608 cap] by simp_all
  then have n: "0 < ?n" "?n \<le> 67108864" using assms by (auto intro: ccontr)
  show ?thesis
    using b n by (simp add: ssd_init_params_def config_defs geom_ok_def Let_def div_round_up_def [of _ 32768])
qed



text \<open>A device that has been built from the computed geometry and is ready for a NAND command, the
  commands the FTL issues, and a sequence of them.\<close>

definition device_ok :: "ssd \<Rightarrow> bool" where
  "device_ok s \<longleftrightarrow> ssd_wf s \<and> \<not> ssd_adv_spin s \<and>
     length (pg_rd_lat (ssd_sp s)) = cell_mode (ssd_sp s) + 1 \<and>
     (of_nat (max_ch_xfer_size (ssd_sp s)) :: u64) \<noteq> 0"

definition cmd_ok :: "ssd \<Rightarrow> nand_cmd \<Rightarrow> bool" where
  "cmd_ok s c \<longleftrightarrow> lun_in_range s (nc_ppa c) \<and> ppa_word (nc_ppa c) \<noteq> UNMAPPED_PPA \<and>
     (case nc_cmd c of NAND_other _ \<Rightarrow> False | NAND_READ \<Rightarrow> nc_xfer_size c \<noteq> 0 | _ \<Rightarrow> True)"

fun nand_run :: "(nat \<Rightarrow> u64) \<Rightarrow> ssd \<Rightarrow> nand_cmd list \<Rightarrow> (u64 list \<times> ssd) result" where
  "nand_run clk s [] = Inr ([], s)"
| "nand_run clk s (c # cs) = bindR (ssd_advance_nand clk s c) (\<lambda>(t, s1).
     bindR (nand_run clk s1 cs) (\<lambda>(ts, s2). Inr (t # ts, s2)))"

lemma advance_nand_done:
  assumes "device_ok s" "cmd_ok s c"
  obtains t a s' where "ssd_advance_nand clk s c = Inr (t, s')" "nand_done s (nc_ppa c) a s'"
    "nc_cmd c \<noteq> NAND_READ \<or> \<not> nc_interleave_pci_dma c \<Longrightarrow> a = t"
proof -
  have h: "ssd_wf s" "\<not> ssd_adv_spin s" "lun_in_range s (nc_ppa c)" "ppa_word (nc_ppa c) \<noteq> UNMAPPED_PPA"
    "(of_nat (max_ch_xfer_size (ssd_sp s)) :: u64) \<noteq> 0"
    using assms by (simp_all add: device_ok_def cmd_ok_def)
  have g: "get_cell (ssd_sp s) (nc_ppa c) < length (pg_rd_lat (ssd_sp s))"
    using assms(1) by (simp add: device_ok_def get_cell_def)
  note cases = advance_nand_cases [OF h(1-4), where clk = clk]
  show ?thesis
  proof (cases "nc_cmd c")
    case NAND_READ
    then show ?thesis using cases(4) [OF _ g h(5)] assms(2) that by (auto simp: cmd_ok_def)
  next
    case NAND_WRITE
    then show ?thesis using cases(1) that by blast
  next
    case NAND_ERASE
    then show ?thesis using cases(2) that by blast
  next
    case NAND_NOP
    then show ?thesis using cases(3) that by blast
  next
    case (NAND_other x)
    then show ?thesis using assms(2) by (simp add: cmd_ok_def)
  qed
qed

lemma nand_done_ok:
  assumes "device_ok s" "nand_done s p a s'"
  shows "device_ok s'" "cmd_ok s' c = cmd_ok s c"
  using assms by (simp_all add: device_ok_def nand_done_def cmd_ok_def)

lemma nand_run_total:
  "device_ok s \<Longrightarrow> \<forall>c\<in>set cs. cmd_ok s c \<Longrightarrow>
   \<exists>ts s'. nand_run clk s cs = Inr (ts, s') \<and> length ts = length cs \<and> device_ok s'"
proof (induction cs arbitrary: s)
  case (Cons c cs)
  obtain t a s1 where 1: "ssd_advance_nand clk s c = Inr (t, s1)" "nand_done s (nc_ppa c) a s1"
    using advance_nand_done [of s c clk] Cons.prems by (metis list.set_intros(1))
  note ok = nand_done_ok [OF Cons.prems(1) 1(2)]
  have "\<exists>ts s'. nand_run clk s1 cs = Inr (ts, s') \<and> length ts = length cs \<and> device_ok s'"
    using Cons.IH [OF ok(1)] ok(2) Cons.prems(2) by simp
  then show ?case using 1(1) by auto
qed simp

lemma ssd_init_params_perf:
  "ssd_init_params cap n = Inr spp \<Longrightarrow> length (pg_rd_lat spp) = cell_mode spp + 1 \<and>
     max_ch_xfer_size spp = 16384 \<and> ch_bandwidth spp = 800 \<and> pcie_bandwidth spp = 3360 \<and>
     luns_per_ch spp = 8 \<and> cell_mode spp = 2 \<and> pgs_per_flashpg spp = 8 \<and>
     pg_rd_lat spp = [30013, 42013, 0] \<and> pg_4kb_rd_lat spp = [29760, 41760, 0]"
  by (auto simp: ssd_init_params_def Let_def config_defs split: if_splits)


lemma bandwidth_values:
  "MB 800 \<noteq> 0" "0 < unat (BANDWIDTH_TO_MAX_CREDITS 800)" "unat (BANDWIDTH_TO_MAX_CREDITS 800) < 256"
  "MB 3360 \<noteq> 0" "0 < unat (BANDWIDTH_TO_MAX_CREDITS 3360)" "unat (BANDWIDTH_TO_MAX_CREDITS 3360) < 256"
  by code_simp+

lemma chm_wf_xfer_lat [simp]: "chm_wf (c\<lparr>ch_xfer_lat := x\<rparr>) = chm_wf c"
  by (simp add: chm_wf_def)

lemma ssd_init_ok:
  assumes "ssd_init_params cap n = Inr spp"
  shows "\<exists>s. ssd_init pm spp = Inr s \<and> device_ok s \<and> ssd_sp s = spp \<and> length (ssd_ch s) = nchs spp \<and>
    (\<forall>c\<in>set (ssd_ch s). length (sc_lun c) = luns_per_ch spp)"
proof -
  note p = ssd_init_params_perf [OF assms]
  obtain c where "chmodel_init pm 800 = Inr c" "chm_wf c"
    using chmodel_init_wf [OF bandwidth_values(1-3), of pm] by blast
  moreover obtain pc where "chmodel_init pm 3360 = Inr pc" "chm_wf pc"
    using chmodel_init_wf [OF bandwidth_values(4-6), of pm] by blast
  ultimately show ?thesis
    using p by (simp add: ssd_init_def ssd_init_ch_def ssd_init_pcie_def device_ok_def ssd_wf_def)
qed

text \<open>
  \<^bold>\<open>C25.\<close>  No NAND command sequence gets stuck.  On a freshly initialised device every sequence of
  reads, writes, erases and no-ops that address existing LUNs returns a completion time for each
  command: all transfer loops end, \<open>adv_spin\<close> and the PCIe lock are free after each of them, no
  latency table is indexed out of bounds and no read leaves its completion time unset.
\<close>

theorem nand_commands_complete:
  assumes "ssd_init_params cap SSD_PARTITIONS = Inr spp" "ssd_init pm spp = Inr s" "\<forall>c\<in>set cs. cmd_ok s c"
  shows "\<exists>ts s'. nand_run clk s cs = Inr (ts, s') \<and> length ts = length cs \<and> device_ok s'"
  using nand_run_total [OF _ assms(3)] ssd_init_ok [OF assms(1), of pm] assms(2) by auto

text \<open>Concrete commands for the witnesses.\<close>

definition sample_cmd :: "nand_op \<Rightarrow> nat \<Rightarrow> nand_cmd" where
  "sample_cmd op lun = \<lparr>nc_type = 0, nc_cmd = op, nc_xfer_size = 32768, nc_stime = 500,
     nc_interleave_pci_dma = True, nc_ppa = mk_ppa 3 lun 0 7 2\<rparr>"

definition blank_model :: channel_model where
  "blank_model = \<lparr>ch_cur_time = 0, ch_head = 0, ch_valid_len = 0, ch_max_credits = 0,
     ch_command_credits = 0, ch_xfer_lat = 0, ch_last = 0, ch_avail_credits = (\<lambda>_. 0)\<rparr>"

lemma sample_device:
  obtains spp s where "ssd_init_params (2 ^ 33) SSD_PARTITIONS = Inr spp" "ssd_init blank_model spp = Inr s"
    "device_ok s" "\<forall>op\<in>{NAND_READ, NAND_WRITE, NAND_ERASE, NAND_NOP}. \<forall>lun<8. cmd_ok s (sample_cmd op lun)"
proof -
  obtain spp where spp: "ssd_init_params (2 ^ 33) SSD_PARTITIONS = Inr spp"
    by (simp add: ssd_init_params_def config_defs Let_def)
  then have "nchs spp = 8" "luns_per_ch spp = 8" by (auto simp: ssd_init_params_def config_defs Let_def)
  moreover obtain s where s: "ssd_init blank_model spp = Inr s" "device_ok s" "length (ssd_ch s) = nchs spp"
    "\<forall>c\<in>set (ssd_ch s). length (sc_lun c) = luns_per_ch spp"
    using ssd_init_ok [OF spp] by blast
  ultimately have "cmd_ok s (sample_cmd op lun)" if "lun < 8" "op \<in> {NAND_READ, NAND_WRITE, NAND_ERASE, NAND_NOP}" for op lun
    using that by (auto simp: cmd_ok_def sample_cmd_def lun_in_range_def mk_ppa_def ppa_word_def UNMAPPED_PPA_def)
  then show ?thesis using that spp s by blast
qed

theorem nand_commands_complete_witness:
  "\<exists>spp s ts s'. ssd_init_params (2 ^ 33) SSD_PARTITIONS = Inr spp \<and> ssd_init blank_model spp = Inr s \<and>
     nand_run (\<lambda>n. of_nat n) s [sample_cmd NAND_READ 5, sample_cmd NAND_WRITE 2] = Inr (ts, s') \<and> length ts = 2"
proof -
  obtain spp s where s: "ssd_init_params (2 ^ 33) SSD_PARTITIONS = Inr spp" "ssd_init blank_model spp = Inr s"
    "device_ok s"
    "\<forall>op\<in>{NAND_READ, NAND_WRITE, NAND_ERASE, NAND_NOP}. \<forall>lun<8. cmd_ok s (sample_cmd op lun)"
    by (rule sample_device)
  then show ?thesis
    using nand_commands_complete [OF s(1,2), of "[sample_cmd NAND_READ 5, sample_cmd NAND_WRITE 2]" "\<lambda>n. of_nat n"]
    by (auto simp del: nand_run.simps)
qed

text \<open>When the parts of a command happen, in terms of \<open>cmd_start\<close>; the transfers use the channel as the command finds it.\<close>

definition starts_at :: "(nat \<Rightarrow> u64) \<Rightarrow> ssd \<Rightarrow> nand_cmd \<Rightarrow> u64 \<Rightarrow> u64 \<Rightarrow> bool" where
  "starts_at clk s d start t \<longleftrightarrow> (case nc_cmd d of
       NAND_NOP \<Rightarrow> t = start
     | NAND_ERASE \<Rightarrow> t = start + of_nat (blk_er_lat (ssd_sp s))
     | NAND_WRITE \<Rightarrow> \<exists>s1 e s2. ssd_ch s1 = ssd_ch s \<and> ch_request clk s1 (g_ch (nc_ppa d)) start (nc_xfer_size d) = Inr (e, s2) \<and>
         t = e + of_nat (pg_wr_lat (ssd_sp s))
     | NAND_READ \<Rightarrow> \<exists>s1 e s2. ssd_ch s1 = ssd_ch s \<and>
         nand_read_loop clk s1 (g_ch (nc_ppa d)) (nc_interleave_pci_dma d)
           (start + of_nat (if nc_xfer_size d = 4096 then pg_4kb_rd_lat (ssd_sp s) ! get_cell (ssd_sp s) (nc_ppa d)
                            else pg_rd_lat (ssd_sp s) ! get_cell (ssd_sp s) (nc_ppa d))) (nc_xfer_size d) None = Inr (Some (e, t), s2)
     | NAND_other _ \<Rightarrow> False)"

lemma advance_nand_start:
  assumes "ssd_advance_nand clk s d = Inr (t, s')" "cmd_ok s d" "\<not> ssd_adv_spin s"
  shows "starts_at clk s d (cmd_start clk s d) t"
proof -
  define s1 where "s1 = (if nc_stime d = 0 then s\<lparr>ssd_adv_spin := True, ssd_reads := Suc (ssd_reads s)\<rparr> else s\<lparr>ssd_adv_spin := True\<rparr>)"
  have s1: "ssd_ch s1 = ssd_ch s" "ssd_sp s1 = ssd_sp s" "lun_in_range s1 (nc_ppa d)" "lun_at s1 (nc_ppa d) = lun_at s (nc_ppa d)"
    using assms(2) by (simp_all add: s1_def lun_in_range_def lun_at_def cmd_ok_def)
  have start: "(if nc_stime d = 0 then read_clock clk (s\<lparr>ssd_adv_spin := True\<rparr>)
      else (nc_stime d, s\<lparr>ssd_adv_spin := True\<rparr>)) = (if nc_stime d = 0 then clk (ssd_reads s) else nc_stime d, s1)"
    by (simp add: read_clock_def s1_def)
  show ?thesis
    using assms s1 unfolding ssd_advance_nand_def Let_def start starts_at_def cmd_start_def cmd_ok_def
    by (cases "nc_cmd d") (auto simp: get_lun_in_range elim!: bindR_InrE split: if_splits option.splits, metis+)
qed

text \<open>
  \<^bold>\<open>C26.\<close>  A LUN serves one command at a time.  Let a command \<open>c\<close> complete at \<open>t\<close>; if it is a read, without the overlap
  of channel and PCIe transfer (with it the LUN is free before the command completes).  Then the next command \<open>d\<close>
  starts (\<open>starts_at\<close>: the array operation of a read, erase or no-op, the channel transfer of a write) at the later of
  its own start time, the clock when that is 0, and the time its LUN is available: \<open>t\<close> when it addresses the LUN of \<open>c\<close>,
  and otherwise the time that LUN was available before \<open>c\<close>.  The transfers of \<open>d\<close> over a channel it shares with \<open>c\<close>
  can still be delayed by the credits \<open>c\<close> took there.
\<close>

theorem nand_lun_serialised:
  assumes "device_ok s" "cmd_ok s c" "cmd_ok s d" "nc_cmd c \<noteq> NAND_READ \<or> \<not> nc_interleave_pci_dma c"
    "ssd_advance_nand clk s c = Inr (t, s')"
  shows "\<exists>t' s''. ssd_advance_nand clk s' d = Inr (t', s'') \<and>
    starts_at clk s' d
      (max (if (g_ch (nc_ppa d), g_lun (nc_ppa d)) = (g_ch (nc_ppa c), g_lun (nc_ppa c)) then t
            else nl_next_lun_avail_time (lun_at s (nc_ppa d)))
        (if nc_stime d = 0 then clk (ssd_reads s') else nc_stime d)) t'"
proof -
  let ?p = "nc_ppa c" and ?q = "nc_ppa d"
  have d: "nand_done s ?p t s'"
    using advance_nand_done [OF assms(1,2), of clk] assms(4,5) by (metis Inr_inject Pair_inject)
  note ok = nand_done_ok [OF assms(1) d]
  have q: "lun_in_range s ?q" using assms(3) by (simp add: cmd_ok_def)
  have "nl_next_lun_avail_time (lun_at s' ?q) =
      (if (g_ch ?q, g_lun ?q) = (g_ch ?p, g_lun ?p) then t else nl_next_lun_avail_time (lun_at s ?q))"
  proof (cases "(g_ch ?q, g_lun ?q) = (g_ch ?p, g_lun ?p)")
    case True
    then have "lun_at s' ?q = lun_at s' ?p" by (simp add: lun_at_def)
    then show ?thesis using True d by (simp add: nand_done_def)
  qed (use d q in \<open>auto simp: nand_done_def\<close>)
  moreover have "cmd_ok s' d" "\<not> ssd_adv_spin s'" using ok assms(3) by (simp_all add: device_ok_def)
  moreover obtain t' a s'' where "ssd_advance_nand clk s' d = Inr (t', s'')" "nand_done s' (nc_ppa d) a s''"
    using ok(1) \<open>cmd_ok s' d\<close> by (rule advance_nand_done)
  ultimately show ?thesis using advance_nand_start [of clk s' d t' s''] by (simp add: cmd_start_def)
qed

theorem nand_lun_serialised_witness:
  "\<exists>s t s' s''. device_ok s \<and> ssd_advance_nand (\<lambda>n. 0) s (sample_cmd NAND_WRITE 2) = Inr (t, s') \<and>
     ssd_advance_nand (\<lambda>n. 0) s' (sample_cmd NAND_NOP 2) = Inr (max t 500, s'')"
proof -
  obtain spp s where s: "ssd_init_params (2 ^ 33) SSD_PARTITIONS = Inr spp" "ssd_init blank_model spp = Inr s"
    "device_ok s"
    "\<forall>op\<in>{NAND_READ, NAND_WRITE, NAND_ERASE, NAND_NOP}. \<forall>lun<8. cmd_ok s (sample_cmd op lun)"
    by (rule sample_device)
  obtain t s' where w: "ssd_advance_nand (\<lambda>n. 0) s (sample_cmd NAND_WRITE 2) = Inr (t, s')"
    by (rule advance_nand_done [OF s(3) s(4) [rule_format, of NAND_WRITE 2], of "\<lambda>n. 0"]) simp_all
  then show ?thesis
    using nand_lun_serialised [OF s(3) s(4) [rule_format, of NAND_WRITE 2] s(4) [rule_format, of NAND_NOP 2] _ w] s(3)
    by (auto simp: sample_cmd_def starts_at_def)
qed

text \<open>
  \<^bold>\<open>C27.\<close>  The early exits of \<open>ssd_advance_nand\<close> leak \<^verbatim>\<open>adv_spin\<close>: a command for an unmapped address,
  or one with an unknown operation, returns, and every NAND command after it spins forever.
\<close>

theorem ssd_advance_nand_leaks_lock:
  assumes "\<not> ssd_adv_spin s"
    "ppa_word (nc_ppa c) = UNMAPPED_PPA \<or> lun_in_range s (nc_ppa c) \<and> nc_cmd c = NAND_other k"
  shows "\<exists>t s'. ssd_advance_nand clk s c = Inr (t, s') \<and> (\<forall>d. ssd_advance_nand clk s' d = Inl Deadlock)"
  using assms
  by (auto simp: ssd_advance_nand_def read_clock_def Let_def get_lun_def get_ch_def lun_in_range_def)

theorem ssd_advance_nand_leaks_lock_witness:
  "\<exists>s t s'. device_ok s \<and>
     ssd_advance_nand (\<lambda>n. 0) s ((sample_cmd NAND_READ 0)\<lparr>nc_ppa := \<lparr>g_pg = 65535, g_blk = 65535, g_pl = 255,
       g_lun = 255, g_ch = 255, g_rsv = 255\<rparr>\<rparr>) = Inr (t, s') \<and>
     ssd_advance_nand (\<lambda>n. 0) s' (sample_cmd NAND_READ 0) = Inl Deadlock"
proof -
  obtain spp s where s: "ssd_init_params (2 ^ 33) SSD_PARTITIONS = Inr spp" "ssd_init blank_model spp = Inr s"
    "device_ok s"
    "\<forall>op\<in>{NAND_READ, NAND_WRITE, NAND_ERASE, NAND_NOP}. \<forall>lun<8. cmd_ok s (sample_cmd op lun)"
    by (rule sample_device)
  let ?c = "(sample_cmd NAND_READ 0)\<lparr>nc_ppa := \<lparr>g_pg = 65535, g_blk = 65535, g_pl = 255,
       g_lun = 255, g_ch = 255, g_rsv = 255\<rparr>\<rparr>"
  have "ppa_word (nc_ppa ?c) = UNMAPPED_PPA" by (simp add: ppa_word_def UNMAPPED_PPA_def)
  moreover have "\<not> ssd_adv_spin s" using s(3) by (simp add: device_ok_def)
  ultimately show ?thesis
    using ssd_advance_nand_leaks_lock [of s ?c _ "\<lambda>n. 0"] s(3) by blast
qed

text \<open>
  \<^bold>\<open>C28.\<close>  Which cell a page reads.  The drive is configured as MLC (\<open>cell_mode = 2\<close>) and the latency of
  the third cell type is 0 because it is not used; \<open>get_cell\<close> divides by \<open>cell_mode + 1\<close>, so exactly the
  eight pages of every third flash page of a block are read with no NAND latency at all.
\<close>

theorem get_cell_reaches_unused:
  assumes "ssd_init_params cap n = Inr spp" "pg < 2 ^ 16"
  shows "get_cell spp (mk_ppa c l p b pg) < length (pg_rd_lat spp) \<and>
    (pg_rd_lat spp ! get_cell spp (mk_ppa c l p b pg) = 0 \<longleftrightarrow> (pg div 8) mod 3 = 2) \<and>
    (pg_4kb_rd_lat spp ! get_cell spp (mk_ppa c l p b pg) = 0 \<longleftrightarrow> (pg div 8) mod 3 = 2)"
proof -
  note f = ssd_init_params_perf [OF assms(1)]
  have g: "get_cell spp (mk_ppa c l p b pg) = (pg div 8) mod 3" using f assms(2) by (simp add: get_cell_def mk_ppa_def)
  have "(pg div 8) mod 3 = 0 \<or> (pg div 8) mod 3 = 1 \<or> (pg div 8) mod 3 = 2" by linarith
  then show ?thesis using f g by auto
qed

theorem get_cell_reaches_unused_witness:
  "\<exists>spp. ssd_init_params (2 ^ 33) SSD_PARTITIONS = Inr spp \<and> pg_rd_lat spp ! get_cell spp (mk_ppa 1 2 0 3 16) = 0"
proof -
  obtain spp s where s: "ssd_init_params (2 ^ 33) SSD_PARTITIONS = Inr spp" "ssd_init blank_model spp = Inr s"
    "device_ok s"
    "\<forall>op\<in>{NAND_READ, NAND_WRITE, NAND_ERASE, NAND_NOP}. \<forall>lun<8. cmd_ok s (sample_cmd op lun)"
    by (rule sample_device)
  then show ?thesis using get_cell_reaches_unused [OF s(1), of 16] by auto
qed

text \<open>
  \<^bold>\<open>C29.\<close>  The write buffer never lends more than it holds.  For sizes that fit the 32-bit answer an
  allocation is all or nothing: it answers the size and takes it from the remaining space, or answers 0
  and changes nothing when less remains; releasing what was answered restores the buffer.
\<close>

theorem buffer_allocate_release:
  assumes "\<not> buf_lock buf" "sz < 2 ^ 32"
  shows "\<exists>r buf'. buffer_allocate buf sz = Inr (r, buf') \<and>
    (if sz \<le> buf_remaining buf then ucast r = sz \<and> unat (buf_remaining buf') + unat sz = unat (buf_remaining buf)
     else r = 0 \<and> buf' = buf) \<and>
    buffer_release buf' (ucast r) = Inr (True, buf)"
proof -
  have u: "ucast (ucast sz :: u32) = sz"
  proof (rule word_unat_eq_iff [THEN iffD2])
    have "unat sz < 2 ^ 32" using assms(2) by (simp add: word_less_nat_alt)
    then show "unat (ucast (ucast sz :: u32) :: u64) = unat sz"
      by (simp add: unsigned_ucast_eq unsigned_take_bit_eq take_bit_nat_eq_self)
  qed
  show ?thesis
    using assms u unat_sub [of sz "buf_remaining buf"]
    by (auto simp: buffer_allocate_def buffer_release_def Let_def not_le not_less word_le_nat_alt [symmetric])
qed

theorem buffer_allocate_release_witness:
  "\<exists>r buf'. buffer_allocate \<lparr>buf_size = 100, buf_remaining = 60, buf_lock = False\<rparr> 40 = Inr (r, buf') \<and>
    buffer_release buf' (ucast r) = Inr (True, \<lparr>buf_size = 100, buf_remaining = 60, buf_lock = False\<rparr>)"
  using buffer_allocate_release [of "\<lparr>buf_size = 100, buf_remaining = 60, buf_lock = False\<rparr>" 40] by auto

end
