(* ===== verification/FtlAddr.thy ===== *)
theory FtlAddr
  imports Ssd
begin

text \<open>
  Physical addresses in \<^verbatim>\<open>nvmevirt/demand_ftl.c\<close>: the conversion between page numbers and
  \<^verbatim>\<open>struct ppa\<close>, the order in which the pages of a line are written, and the test whether a pair still
  fits the current stripe.  Page numbers are \<^verbatim>\<open>ppa_t\<close>, 32 bits wide; assignments to the bit fields of
  \<^verbatim>\<open>struct ppa\<close> truncate (\<open>mk_ppa\<close>).  A failing \<^verbatim>\<open>NVMEV_ASSERT\<close> is the fault \<open>Bug_on\<close>.

  \<open>build\<close> selects between the two builds of the FTL (\<^verbatim>\<open>ORIGINAL\<close> in \<^verbatim>\<open>ssd_config.h\<close>), which differ in the
  grain size.
\<close>

datatype build = Original | Plus

definition PIECE :: "build \<Rightarrow> nat" where
  "PIECE b = (case b of Original \<Rightarrow> 512 | Plus \<Rightarrow> 64)"

definition GRAINED_UNIT :: "build \<Rightarrow> nat" where
  "GRAINED_UNIT b = PIECE b"

definition GRAIN_PER_PAGE :: "build \<Rightarrow> nat" where
  "GRAIN_PER_PAGE b = PAGESIZE div GRAINED_UNIT b"

definition PPA_TO_PGA :: "build \<Rightarrow> nat \<Rightarrow> nat \<Rightarrow> nat" where
  "PPA_TO_PGA b p off = p * GRAIN_PER_PAGE b + off"

definition G_IDX :: "build \<Rightarrow> nat \<Rightarrow> nat" where
  "G_IDX b x = x div GRAIN_PER_PAGE b"

definition G_OFFSET :: "build \<Rightarrow> nat \<Rightarrow> nat" where
  "G_OFFSET b x = x mod GRAIN_PER_PAGE b"

lemma grain_per_page [simp]: "GRAIN_PER_PAGE Original = 8" "GRAIN_PER_PAGE Plus = 64"
  by (simp_all add: GRAIN_PER_PAGE_def GRAINED_UNIT_def PIECE_def PAGESIZE_def KB_def)

lemma grain_per_page_pos: "0 < GRAIN_PER_PAGE b" "GRAIN_PER_PAGE b \<le> 64"
  by (cases b; simp)+

subsection \<open>Page classification\<close>

definition last_pg_in_wordline :: "ssdparams \<Rightarrow> ppa \<Rightarrow> bool" where
  "last_pg_in_wordline spp p \<longleftrightarrow> g_pg p mod pgs_per_oneshotpg spp = pgs_per_oneshotpg spp - 1"

definition last_pg_in_ch :: "ssdparams \<Rightarrow> ppa \<Rightarrow> bool" where
  "last_pg_in_ch spp p \<longleftrightarrow> g_ch p = nchs spp - 1"

definition last_pg_in_lun :: "ssdparams \<Rightarrow> ppa \<Rightarrow> bool" where
  "last_pg_in_lun spp p \<longleftrightarrow> g_lun p = luns_per_ch spp - 1"

definition last_pg_in_blk :: "ssdparams \<Rightarrow> ppa \<Rightarrow> bool" where
  "last_pg_in_blk spp p \<longleftrightarrow> g_pg p = pgs_per_blk spp - 1"

definition last_pg_in_line :: "ssdparams \<Rightarrow> ppa \<Rightarrow> bool" where
  "last_pg_in_line spp p \<longleftrightarrow> last_pg_in_wordline spp p \<and> last_pg_in_ch spp p \<and>
     last_pg_in_lun spp p \<and> last_pg_in_blk spp p"

definition valid_ppa :: "ssdparams \<Rightarrow> ppa \<Rightarrow> bool" where
  "valid_ppa spp p =
     (if g_ch p \<ge> nchs spp then False
      else if g_lun p \<ge> luns_per_ch spp then False
      else if g_pl p \<ge> pls_per_lun spp then False
      else if g_blk p \<ge> blks_per_pl spp then False
      else if g_pg p \<ge> pgs_per_blk spp then False
      else True)"

definition valid_lpn :: "ssdparams \<Rightarrow> nat \<Rightarrow> bool" where
  "valid_lpn spp lpn \<longleftrightarrow> lpn < tt_pgs spp"

definition mapped_ppa :: "ppa \<Rightarrow> bool" where
  "mapped_ppa p \<longleftrightarrow> \<not> (ppa_word p = UNMAPPED_PPA)"

subsection \<open>Page numbers\<close>

definition ppa2pgidx :: "ssdparams \<Rightarrow> ppa \<Rightarrow> nat result" where
  "ppa2pgidx spp p =
     (let pgidx = (g_ch p * pgs_per_ch spp + g_lun p * pgs_per_lun spp + g_pl p * pgs_per_pl spp +
                   g_blk p * pgs_per_blk spp + g_pg p) mod 2 ^ 32
      in if pgidx < tt_pgs spp then Inr pgidx else Inl Bug_on)"

definition ppa_to_struct :: "ssdparams \<Rightarrow> nat \<Rightarrow> ppa result" where
  "ppa_to_struct spp n =
     (if pgs_per_ch spp = 0 \<or> pgs_per_lun spp = 0 \<or> pgs_per_blk spp = 0 then Inl Div_by_zero
      else if n < tt_pgs spp then
        Inr (mk_ppa ((n div pgs_per_ch spp) mod pgs_per_ch spp) ((n mod pgs_per_ch spp) div pgs_per_lun spp) 0
               ((n mod pgs_per_lun spp) div pgs_per_blk spp) (n mod pgs_per_blk spp))
      else Inl Bug_on)"

definition check_addr :: "nat \<Rightarrow> nat \<Rightarrow> unit result" where
  "check_addr a mx = assertR (a < mx) Bug_on"

subsection \<open>The write order\<close>

text \<open>\<open>peek_next_page\<close>: the one-shot pages of a wordline go round the channels, then the LUNs, then to
  the next wordline.  The increments act on the bit fields.\<close>

definition peek_next_page :: "ssdparams \<Rightarrow> ppa \<Rightarrow> ppa result" where
  "peek_next_page spp p =
     (let os = pgs_per_oneshotpg spp; p1 = p\<lparr>g_pg := (g_pg p + 1) mod 2 ^ 16\<rparr> in
      if os = 0 then Inl Div_by_zero
      else if g_pg p1 mod os \<noteq> 0 then Inr p1
      else
       let p2 = p1\<lparr>g_pg := (g_pg p1 + 2 ^ 16 - os mod 2 ^ 16) mod 2 ^ 16\<rparr> in
       bindR (check_addr (g_ch p2) (nchs spp)) (\<lambda>_.
       let p3 = p2\<lparr>g_ch := (g_ch p2 + 1) mod 2 ^ 8\<rparr> in
       if g_ch p3 \<noteq> nchs spp then Inr p3
       else
        let p4 = p3\<lparr>g_ch := 0\<rparr> in
        bindR (check_addr (g_lun p4) (luns_per_ch spp)) (\<lambda>_.
        let p5 = p4\<lparr>g_lun := (g_lun p4 + 1) mod 2 ^ 8\<rparr> in
        if g_lun p5 \<noteq> luns_per_ch spp then Inr p5
        else
         let p6 = p5\<lparr>g_lun := 0, g_pg := (g_pg p5 + os) mod 2 ^ 16\<rparr> in
         if g_pg p6 \<noteq> pgs_per_blk spp then Inr p6
         else Inr (p6\<lparr>g_pg := 0, g_blk := (g_blk p6 + 1) mod 2 ^ 16\<rparr>))))"

text \<open>\<open>enough_space_in_line\<close>: \<open>had\<close> counts the bytes found (32 bits); the answer comes with it.\<close>

function space_loop ::
  "build \<Rightarrow> ssdparams \<Rightarrow> nat \<Rightarrow> ppa \<Rightarrow> nat \<Rightarrow> nat \<Rightarrow> nat \<Rightarrow> (bool \<times> ppa \<times> nat) result" where
  "space_loop b spp lun p grain rem had =
     (if rem = 0 then Inr (True, p, had)
      else let len = min rem (GRAIN_PER_PAGE b - grain mod GRAIN_PER_PAGE b)
           in bindR (peek_next_page spp p) (\<lambda>p1.
                if g_lun p1 \<noteq> lun then Inr (False, p1, had)
                else space_loop b spp lun p1 0 (rem - len) ((had + len * GRAINED_UNIT b) mod 2 ^ 32)))"
  by pat_completeness auto
termination
proof (relation "measure (\<lambda>(b, spp, lun, p, grain, rem, had). rem)", goal_cases)
  case (2 b spp lun p grain rem had x xa)
  have "0 < GRAIN_PER_PAGE b - grain mod GRAIN_PER_PAGE b" using grain_per_page_pos [of b] by simp
  then show ?case using 2 by simp
qed simp

declare space_loop.simps [simp del]

definition enough_space_in_line :: "build \<Rightarrow> ssdparams \<Rightarrow> ppa \<Rightarrow> nat \<Rightarrow> nat \<Rightarrow> (bool \<times> nat) result" where
  "enough_space_in_line b spp p grain len =
     bindR (space_loop b spp (g_lun p) p grain len 0) (\<lambda>(ok, p1, had).
       if \<not> ok then Inr (False, had)
       else if g_blk p1 \<noteq> g_blk p then Inr (False, had)
       else Inr (True, had))"

subsection \<open>Page numbers and addresses correspond\<close>

text \<open>\<open>addr_ok\<close>: the block number fits its bit field and page numbers fit 32 bits.\<close>

definition addr_ok :: "ssdparams \<Rightarrow> bool" where
  "addr_ok spp \<longleftrightarrow> geom_ok spp \<and> blks_per_pl spp \<le> 2 ^ 16 \<and> tt_pgs spp \<le> 2 ^ 32"

lemma radix_bound: "(a::nat) < A \<Longrightarrow> x < B \<Longrightarrow> a * B + x < A * B"
proof -
  assume "a < A" "x < B"
  then have "a * B + x < (a + 1) * B" "(a + 1) * B \<le> A * B" by (simp, intro mult_le_mono1) simp
  then show ?thesis by linarith
qed

lemma radix_div [simp]: "(x::nat) < B \<Longrightarrow> (a * B + x) div B = a" "x < B \<Longrightarrow> (a * B + x) mod B = x"
  by simp_all

definition page_number :: "ssdparams \<Rightarrow> nat \<Rightarrow> nat \<Rightarrow> nat \<Rightarrow> nat \<Rightarrow> nat" where
  "page_number spp ch lun blk pg =
     ((ch * luns_per_ch spp + lun) * blks_per_pl spp + blk) * pgs_per_blk spp + pg"

lemma geom_products:
  assumes "geom_ok spp"
  shows "pgs_per_lun spp = blks_per_pl spp * pgs_per_blk spp"
    "pgs_per_ch spp = luns_per_ch spp * (blks_per_pl spp * pgs_per_blk spp)"
    "tt_pgs spp = nchs spp * (luns_per_ch spp * (blks_per_pl spp * pgs_per_blk spp))"
    "0 < pgs_per_blk spp" "0 < pgs_per_lun spp" "0 < pgs_per_ch spp"
  using assms by (simp_all add: geom_ok_def algebra_simps)

lemma geom_bounds:
  assumes "geom_ok spp"
  shows "0 < pgs_per_oneshotpg spp" "0 < oneshotpgs_per_blk spp" "0 < nchs spp" "nchs spp < 256"
    "0 < luns_per_ch spp" "luns_per_ch spp < 256" "pls_per_lun spp = 1" "0 < blks_per_pl spp"
    "pgs_per_blk spp < 65536" "nchs spp \<le> pgs_per_ch spp"
    "pgs_per_blk spp = pgs_per_oneshotpg spp * oneshotpgs_per_blk spp"
    "pgs_per_line spp = luns_per_ch spp * nchs spp * pgs_per_blk spp" "tt_lines spp = blks_per_pl spp"
proof -
  have "(2::nat) ^ 8 = 256" "(2::nat) ^ 16 = 65536" by simp_all
  then show "0 < pgs_per_oneshotpg spp" "0 < oneshotpgs_per_blk spp" "0 < nchs spp" "nchs spp < 256"
    "0 < luns_per_ch spp" "luns_per_ch spp < 256" "pls_per_lun spp = 1" "0 < blks_per_pl spp"
    "pgs_per_blk spp < 65536" "nchs spp \<le> pgs_per_ch spp"
    "pgs_per_blk spp = pgs_per_oneshotpg spp * oneshotpgs_per_blk spp"
    "pgs_per_line spp = luns_per_ch spp * nchs spp * pgs_per_blk spp" "tt_lines spp = blks_per_pl spp"
    using assms unfolding geom_ok_def by metis+
qed

lemma addr_okD:
  assumes "addr_ok spp"
  shows "geom_ok spp" "blks_per_pl spp \<le> 65536" "tt_pgs spp \<le> 4294967296"
  using assms by (simp_all add: addr_ok_def)

lemma page_number_digits:
  assumes "geom_ok spp" "ch < nchs spp" "lun < luns_per_ch spp" "blk < blks_per_pl spp" "pg < pgs_per_blk spp"
  defines "n \<equiv> page_number spp ch lun blk pg"
  shows "n = ch * pgs_per_ch spp + lun * pgs_per_lun spp + blk * pgs_per_blk spp + pg"
    "n < tt_pgs spp" "(n div pgs_per_ch spp) mod pgs_per_ch spp = ch" "(n mod pgs_per_ch spp) div pgs_per_lun spp = lun"
    "(n mod pgs_per_lun spp) div pgs_per_blk spp = blk" "n mod pgs_per_blk spp = pg"
proof -
  note g = geom_products [OF assms(1)]
  show n: "n = ch * pgs_per_ch spp + lun * pgs_per_lun spp + blk * pgs_per_blk spp + pg"
    by (simp add: n_def page_number_def g(1,2) algebra_simps)
  have b1: "blk * pgs_per_blk spp + pg < pgs_per_lun spp"
    using radix_bound [OF assms(4,5)] g by simp
  have b2: "lun * pgs_per_lun spp + (blk * pgs_per_blk spp + pg) < pgs_per_ch spp"
    using radix_bound [OF assms(3) b1] g by (simp add: algebra_simps)
  have b3: "ch * pgs_per_ch spp + (lun * pgs_per_lun spp + (blk * pgs_per_blk spp + pg)) < tt_pgs spp"
    using radix_bound [OF assms(2) b2] g by (simp add: algebra_simps)
  have n1: "n = ch * pgs_per_ch spp + (lun * pgs_per_lun spp + (blk * pgs_per_blk spp + pg))" using n by simp
  have n2: "n = (ch * luns_per_ch spp + lun) * pgs_per_lun spp + (blk * pgs_per_blk spp + pg)"
    by (simp add: n g(1,2) algebra_simps)
  have n3: "n = ((ch * luns_per_ch spp + lun) * blks_per_pl spp + blk) * pgs_per_blk spp + pg"
    by (simp add: n_def page_number_def)
  show "n < tt_pgs spp" using b3 n1 by simp
  have "ch < pgs_per_ch spp" using geom_bounds(10) [OF assms(1)] assms(2) by simp
  then show "(n div pgs_per_ch spp) mod pgs_per_ch spp = ch" unfolding n1 using b2 by simp
  show "(n mod pgs_per_ch spp) div pgs_per_lun spp = lun" unfolding n1 using b1 b2 by simp
  show "(n mod pgs_per_lun spp) div pgs_per_blk spp = blk" unfolding n2 using b1 assms(5) by simp
  show "n mod pgs_per_blk spp = pg" unfolding n3 using assms(5) by simp
qed

lemma page_number_surj:
  assumes "geom_ok spp" "n < tt_pgs spp"
  obtains ch lun blk pg where "n = page_number spp ch lun blk pg" "ch < nchs spp" "lun < luns_per_ch spp"
    "blk < blks_per_pl spp" "pg < pgs_per_blk spp"
proof (rule that)
  note g = geom_products [OF assms(1)]
  let ?B = "pgs_per_blk spp" and ?N = "blks_per_pl spp" and ?L = "luns_per_ch spp"
  have pos: "0 < ?B" "0 < ?N" "0 < ?L" using g geom_bounds [OF assms(1)] by simp_all
  show "n = page_number spp (n div ?B div ?N div ?L) (n div ?B div ?N mod ?L) (n div ?B mod ?N) (n mod ?B)"
    by (simp add: page_number_def)
  show "n div ?B div ?N div ?L < nchs spp"
    using assms(2) g(3) pos by (simp add: div_mult2_eq [symmetric] less_mult_imp_div_less algebra_simps)
qed (use geom_bounds [OF assms(1)] geom_products [OF assms(1)] in simp_all)

lemma valid_ppaD:
  "valid_ppa spp p \<longleftrightarrow> g_ch p < nchs spp \<and> g_lun p < luns_per_ch spp \<and> g_pl p < pls_per_lun spp \<and>
     g_blk p < blks_per_pl spp \<and> g_pg p < pgs_per_blk spp"
  by (auto simp: valid_ppa_def)

lemma ppa_to_struct_digits:
  assumes "addr_ok spp" "ch < nchs spp" "lun < luns_per_ch spp" "blk < blks_per_pl spp" "pg < pgs_per_blk spp"
  shows "ppa_to_struct spp (page_number spp ch lun blk pg) =
    Inr \<lparr>g_pg = pg, g_blk = blk, g_pl = 0, g_lun = lun, g_ch = ch, g_rsv = 0\<rparr>"
proof -
  have g: "geom_ok spp" "pgs_per_blk spp \<noteq> 0" "pgs_per_lun spp \<noteq> 0" "pgs_per_ch spp \<noteq> 0"
    using assms(1) geom_products [of spp] by (auto simp: addr_ok_def)
  note d = page_number_digits [OF g(1) assms(2-5)]
  have "ch < 256" "lun < 256" "blk < 65536" "pg < 65536"
    using assms geom_bounds(4,6,9) [OF g(1)] addr_okD(2) [OF assms(1)] by linarith+
  then show ?thesis using d g by (simp add: ppa_to_struct_def mk_ppa_def)
qed

lemma ppa2pgidx_number:
  assumes "addr_ok spp" "valid_ppa spp p"
  shows "ppa2pgidx spp p = Inr (page_number spp (g_ch p) (g_lun p) (g_blk p) (g_pg p))"
proof -
  have g: "geom_ok spp" "tt_pgs spp \<le> 2 ^ 32" using addr_okD [OF assms(1)] by simp_all
  have pl: "g_pl p = 0" using assms(2) geom_bounds(7) [OF g(1)] by (simp add: valid_ppaD)
  note d = page_number_digits [of spp "g_ch p" "g_lun p" "g_blk p" "g_pg p", OF g(1)]
  have "page_number spp (g_ch p) (g_lun p) (g_blk p) (g_pg p) < 2 ^ 32"
    using d(2) assms(2) g(2) by (simp add: valid_ppaD)
  then show ?thesis using d(1,2) assms(2) pl by (simp add: ppa2pgidx_def Let_def valid_ppaD)
qed



text \<open>
  \<^bold>\<open>C33.\<close>  Which disks the address format supports.  Up to 512 GiB the geometry meets \<open>addr_ok\<close>; one byte
  more and block 65536 of a plane loses its high bit in the 16-bit field \<^verbatim>\<open>blk\<close>: its first page
  converts to the address of page 0.
\<close>

theorem ppa_block_limit:
  assumes "0 < cap" "cap < 2 ^ 49" "ssd_init_params cap SSD_PARTITIONS = Inr spp"
  shows "(cap \<le> 2 ^ 39 \<longrightarrow> addr_ok spp) \<and>
    (2 ^ 39 < cap \<longrightarrow> 65536 * 32 < tt_pgs spp \<and> ppa_to_struct spp (65536 * 32) = ppa_to_struct spp 0)"
proof -
  let ?n = "div_round_up cap 8388608"
  have n: "cap \<le> ?n * 8388608" "?n * 8388608 < cap + 8388608"
    using div_round_up_bounds [of 8388608 cap] by simp_all
  have f: "blks_per_pl spp = ?n" "pgs_per_blk spp = 32" "pgs_per_lun spp = 32 * ?n" "pgs_per_ch spp = 256 * ?n"
    "tt_pgs spp = 2048 * ?n"
    using assms(3) by (auto simp: ssd_init_params_def Let_def config_defs div_round_up_def [of _ 32768])
  have "geom_ok spp" using ssd_init_params_ok [OF assms(1,2)] assms(3) by auto
  then have "addr_ok spp" if "cap \<le> 2 ^ 39" using that n f by (simp add: addr_ok_def)
  moreover have "65536 < ?n" if "2 ^ 39 < cap" using that n by simp
  ultimately show ?thesis using f by (auto simp: ppa_to_struct_def mk_ppa_def)
qed

theorem ppa_block_limit_witness:
  "\<exists>spp. ssd_init_params (2 ^ 40) SSD_PARTITIONS = Inr spp \<and> ppa_to_struct spp (65536 * 32) = ppa_to_struct spp 0"
proof -
  obtain spp where "ssd_init_params (2 ^ 40) SSD_PARTITIONS = Inr spp"
    using ssd_init_params_ok [of "2 ^ 40"] by auto
  then show ?thesis using ppa_block_limit [of "2 ^ 40" spp] by auto
qed

subsection \<open>The order in which a line is written\<close>

text \<open>The digits of a position in a line: wordline, LUN, channel, page of the one-shot page.\<close>

definition page_at :: "ssdparams \<Rightarrow> nat \<Rightarrow> nat \<times> nat \<times> nat \<times> nat \<Rightarrow> ppa" where
  "page_at spp blk = (\<lambda>(w, l, c, r). \<lparr>g_pg = w * pgs_per_oneshotpg spp + r, g_blk = blk, g_pl = 0, g_lun = l, g_ch = c, g_rsv = 0\<rparr>)"

definition digits_ok :: "ssdparams \<Rightarrow> nat \<times> nat \<times> nat \<times> nat \<Rightarrow> bool" where
  "digits_ok spp = (\<lambda>(w, l, c, r). w < oneshotpgs_per_blk spp \<and> l < luns_per_ch spp \<and> c < nchs spp \<and> r < pgs_per_oneshotpg spp)"

definition line_rank :: "ssdparams \<Rightarrow> nat \<times> nat \<times> nat \<times> nat \<Rightarrow> nat" where
  "line_rank spp = (\<lambda>(w, l, c, r). ((w * luns_per_ch spp + l) * nchs spp + c) * pgs_per_oneshotpg spp + r)"

definition odometer :: "ssdparams \<Rightarrow> nat \<times> nat \<times> nat \<times> nat \<Rightarrow> (nat \<times> nat \<times> nat \<times> nat) option" where
  "odometer spp = (\<lambda>(w, l, c, r).
     if r + 1 < pgs_per_oneshotpg spp then Some (w, l, c, r + 1)
     else if c + 1 < nchs spp then Some (w, l, c + 1, 0)
     else if l + 1 < luns_per_ch spp then Some (w, l + 1, 0, 0)
     else if w + 1 < oneshotpgs_per_blk spp then Some (w + 1, 0, 0, 0)
     else None)"

lemma line_rank_less:
  assumes "geom_ok spp" "digits_ok spp d"
  shows "line_rank spp d < pgs_per_line spp"
proof -
  obtain w l c r where d: "d = (w, l, c, r)" by (cases d)
  have "w * luns_per_ch spp + l < oneshotpgs_per_blk spp * luns_per_ch spp"
    using assms(2) d by (intro radix_bound) (simp_all add: digits_ok_def)
  then have "(w * luns_per_ch spp + l) * nchs spp + c < oneshotpgs_per_blk spp * luns_per_ch spp * nchs spp"
    using assms(2) d by (intro radix_bound) (simp_all add: digits_ok_def)
  then have "line_rank spp d < oneshotpgs_per_blk spp * luns_per_ch spp * nchs spp * pgs_per_oneshotpg spp"
    unfolding line_rank_def d prod.case using assms(2) d by (intro radix_bound) (simp_all add: digits_ok_def)
  then show ?thesis using geom_bounds(11,12) [OF assms(1)] by (simp add: algebra_simps)
qed

lemma line_rank_inj:
  assumes "digits_ok spp d" "digits_ok spp e" "line_rank spp d = line_rank spp e"
  shows "d = e"
proof -
  obtain w l c r w' l' c' r' where de: "d = (w, l, c, r)" "e = (w', l', c', r')" by (cases d, cases e)
  have cancel: "a = a' \<and> x = x'" if "a * B + x = a' * B + x'" "x < B" "x' < B" for a a' x x' B :: nat
    using that radix_div by metis
  have "(w * luns_per_ch spp + l) * nchs spp + c = (w' * luns_per_ch spp + l') * nchs spp + c' \<and> r = r'"
    using assms unfolding de line_rank_def digits_ok_def prod.case by (intro cancel) blast+
  moreover then have "w * luns_per_ch spp + l = w' * luns_per_ch spp + l' \<and> c = c'"
    using assms unfolding de digits_ok_def prod.case by (intro cancel [where B = "nchs spp"]) blast+
  moreover then have "w = w' \<and> l = l'"
    using assms unfolding de digits_ok_def prod.case by (intro cancel [where B = "luns_per_ch spp"]) blast+
  ultimately show ?thesis using de by simp
qed

lemma odometer_step:
  assumes "geom_ok spp" "digits_ok spp d"
  shows "odometer spp d = Some e \<Longrightarrow> digits_ok spp e \<and> line_rank spp e = Suc (line_rank spp d)"
    "odometer spp d = None \<Longrightarrow> Suc (line_rank spp d) = pgs_per_line spp"
proof -
  obtain w l c r where d: "d = (w, l, c, r)" by (cases d)
  have b: "w < oneshotpgs_per_blk spp" "l < luns_per_ch spp" "c < nchs spp" "r < pgs_per_oneshotpg spp"
    using assms(2) d by (simp_all add: digits_ok_def)
  show "digits_ok spp e \<and> line_rank spp e = Suc (line_rank spp d)" if "odometer spp d = Some e"
    using that b unfolding d odometer_def prod.case
    by (auto simp: digits_ok_def line_rank_def algebra_simps not_less le_Suc_eq split: if_splits)
  show "Suc (line_rank spp d) = pgs_per_line spp" if "odometer spp d = None"
    using that b geom_bounds(11,12) [OF assms(1)] unfolding d odometer_def prod.case
    by (auto simp: line_rank_def algebra_simps not_less le_Suc_eq split: if_splits)
qed

lemma digits_page:
  assumes "geom_ok spp" "digits_ok spp d"
  shows "valid_ppa spp (page_at spp blk d) \<longleftrightarrow> blk < blks_per_pl spp"
    "last_pg_in_line spp (page_at spp blk d) \<longleftrightarrow> odometer spp d = None"
proof -
  obtain w l c r where d: "d = (w, l, c, r)" by (cases d)
  have b: "w < oneshotpgs_per_blk spp" "l < luns_per_ch spp" "c < nchs spp" "r < pgs_per_oneshotpg spp"
    using assms(2) d by (simp_all add: digits_ok_def)
  note g = geom_bounds [OF assms(1)]
  have pg: "w * pgs_per_oneshotpg spp + r < pgs_per_blk spp"
    using radix_bound [OF b(1,4)] g by (simp add: mult.commute)
  then show "valid_ppa spp (page_at spp blk d) \<longleftrightarrow> blk < blks_per_pl spp"
    using b g by (simp add: valid_ppaD page_at_def d)
  have top: "w * pgs_per_oneshotpg spp + r = pgs_per_blk spp - 1 \<longleftrightarrow>
      Suc w = oneshotpgs_per_blk spp" if "Suc r = pgs_per_oneshotpg spp"
  proof -
    have "w * pgs_per_oneshotpg spp + r = pgs_per_blk spp - 1 \<longleftrightarrow> Suc (w * pgs_per_oneshotpg spp + r) = pgs_per_blk spp"
      using pg by linarith
    also have "Suc (w * pgs_per_oneshotpg spp + r) = Suc w * pgs_per_oneshotpg spp" using that by simp
    also have "Suc w * pgs_per_oneshotpg spp = pgs_per_blk spp \<longleftrightarrow>
        Suc w * pgs_per_oneshotpg spp = oneshotpgs_per_blk spp * pgs_per_oneshotpg spp"
      using g(11) by (simp only: mult.commute)
    also have "\<dots> \<longleftrightarrow> Suc w = oneshotpgs_per_blk spp" using g(1) by (metis mult_cancel2 less_numeral_extra(3))
    finally show ?thesis .
  qed
  show "last_pg_in_line spp (page_at spp blk d) \<longleftrightarrow> odometer spp d = None"
    using b top by (auto simp: last_pg_in_line_def last_pg_in_wordline_def last_pg_in_ch_def last_pg_in_lun_def
        last_pg_in_blk_def page_at_def d odometer_def)
qed

lemma valid_page_digits:
  assumes "geom_ok spp" "valid_ppa spp p" "g_rsv p = 0"
  obtains d where "digits_ok spp d" "p = page_at spp (g_blk p) d"
proof
  note g = geom_bounds [OF assms(1)]
  let ?d = "(g_pg p div pgs_per_oneshotpg spp, g_lun p, g_ch p, g_pg p mod pgs_per_oneshotpg spp)"
  show "digits_ok spp ?d" using assms(2) g
    by (simp add: digits_ok_def valid_ppaD less_mult_imp_div_less mult.commute)
  show "p = page_at spp (g_blk p) ?d"
    using assms(2,3) g(7) by (cases p) (simp add: page_at_def valid_ppaD)
qed

lemma peek_page_at:
  assumes "geom_ok spp" "digits_ok spp d" "blk < 2 ^ 16"
  shows "peek_next_page spp (page_at spp blk d) = Inr (case odometer spp d of
      Some e \<Rightarrow> page_at spp blk e | None \<Rightarrow> page_at spp ((blk + 1) mod 2 ^ 16) (0, 0, 0, 0))"
proof -
  obtain w l c r where d: "d = (w, l, c, r)" by (cases d)
  have b: "w < oneshotpgs_per_blk spp" "l < luns_per_ch spp" "c < nchs spp" "r < pgs_per_oneshotpg spp"
    using assms(2) d by (simp_all add: digits_ok_def)
  note g = geom_bounds [OF assms(1)]
  let ?os = "pgs_per_oneshotpg spp"
  have pg: "w * ?os + r < pgs_per_blk spp"
    using radix_bound [OF b(1,4)] g by (simp add: mult.commute)
  show ?thesis
  proof (cases "Suc r < ?os")
    case True
    then have "(w * ?os + Suc r) mod ?os = Suc r" by simp
    then show ?thesis using True pg g
      by (simp add: peek_next_page_def page_at_def d odometer_def Let_def)
  next
    case False
    then have r: "Suc r = ?os" using b(4) by simp
    then have pg1: "Suc (w * ?os + r) = Suc w * ?os" by simp
    have top: "Suc w * ?os = pgs_per_blk spp \<longleftrightarrow> Suc w = oneshotpgs_per_blk spp"
      using g(1,11) by (metis mult.commute mult_cancel2 less_numeral_extra(3))
    have os: "Suc w * ?os < 65536" "?os < 65536" using pg pg1 g(9) by (simp_all add: le_less_trans)
    define n where "n = Suc w * ?os"
    have n: "n < 65536" "n mod ?os = 0" "(n + 65536 - ?os mod 65536) mod 65536 = w * ?os"
      "n = pgs_per_blk spp \<longleftrightarrow> Suc w = oneshotpgs_per_blk spp" "w * ?os + ?os = n" "Suc (w * ?os + r) = n"
      using os top pg1 by (simp_all add: n_def)
    show ?thesis
      using n r b g(3-6) assms(3) False
      by (simp add: peek_next_page_def page_at_def d odometer_def Let_def check_addr_def assertR_def bindR_def)
         (auto simp: n_def)
  qed
qed

lemma page_at_inj:
  assumes "digits_ok spp d" "digits_ok spp e" "page_at spp blk d = page_at spp blk e"
  shows "d = e"
proof -
  obtain w l c r w' l' c' r' where de: "d = (w, l, c, r)" "e = (w', l', c', r')" by (cases d, cases e)
  have "w * pgs_per_oneshotpg spp + r = w' * pgs_per_oneshotpg spp + r'" "r < pgs_per_oneshotpg spp"
    "r' < pgs_per_oneshotpg spp" using assms by (simp_all add: de page_at_def digits_ok_def)
  then have "w = w'" "r = r'" using radix_div by metis+
  then show ?thesis using assms(3) by (simp add: de page_at_def)
qed

fun peek_pages :: "ssdparams \<Rightarrow> ppa \<Rightarrow> nat \<Rightarrow> ppa result" where
  "peek_pages spp p 0 = Inr p"
| "peek_pages spp p (Suc k) = bindR (peek_pages spp p k) (peek_next_page spp)"

lemma peek_pages_digits:
  assumes "geom_ok spp" "blk < 2 ^ 16"
  shows "k < pgs_per_line spp \<Longrightarrow> \<exists>d. digits_ok spp d \<and> line_rank spp d = k \<and>
    peek_pages spp (page_at spp blk (0, 0, 0, 0)) k = Inr (page_at spp blk d)"
proof (induction k)
  case 0
  then show ?case using geom_bounds [OF assms(1)]
    by (intro exI [of _ "(0, 0, 0, 0)"]) (simp add: digits_ok_def line_rank_def)
next
  case (Suc k)
  then obtain d where d: "digits_ok spp d" "line_rank spp d = k"
    "peek_pages spp (page_at spp blk (0, 0, 0, 0)) k = Inr (page_at spp blk d)" by auto
  obtain e where "odometer spp d = Some e"
    using odometer_step(2) [OF assms(1) d(1)] Suc.prems d(2) by (cases "odometer spp d") auto
  then show ?case
    using odometer_step(1) [OF assms(1) d(1)] d peek_page_at [OF assms(1) d(1) assms(2)]
    by (intro exI [of _ e]) simp
qed

text \<open>
  \<^bold>\<open>C34.\<close>  The write order visits every page of a line exactly once: following \<open>peek_next_page\<close> from the
  first page of block \<open>blk\<close>, the first \<open>pgs_per_line\<close> pages are exactly the valid addresses with that
  block number, without repetition, and \<open>last_pg_in_line\<close> recognises the last of them and no other.
\<close>

theorem line_write_order:
  assumes "geom_ok spp" "blk < blks_per_pl spp" "blk < 2 ^ 16"
  shows "\<exists>f. (\<forall>k<pgs_per_line spp. peek_pages spp (mk_ppa 0 0 0 blk 0) k = Inr (f k) \<and>
        (last_pg_in_line spp (f k) \<longleftrightarrow> Suc k = pgs_per_line spp)) \<and>
    bij_betw f {..<pgs_per_line spp} {p. valid_ppa spp p \<and> g_blk p = blk \<and> g_rsv p = 0}"
proof -
  have start: "mk_ppa 0 0 0 blk 0 = page_at spp blk (0, 0, 0, 0)"
    using assms(3) by (simp add: mk_ppa_def page_at_def)
  obtain d where d: "\<And>k. k < pgs_per_line spp \<Longrightarrow> digits_ok spp (d k)"
    "\<And>k. k < pgs_per_line spp \<Longrightarrow> line_rank spp (d k) = k"
    "\<And>k. k < pgs_per_line spp \<Longrightarrow> peek_pages spp (mk_ppa 0 0 0 blk 0) k = Inr (page_at spp blk (d k))"
    unfolding start using peek_pages_digits [OF assms(1,3)] by metis
  have last: "last_pg_in_line spp (page_at spp blk (d k)) \<longleftrightarrow> Suc k = pgs_per_line spp" if "k < pgs_per_line spp" for k
    using digits_page(2) [OF assms(1) d(1) [OF that], of blk] odometer_step [OF assms(1) d(1) [OF that]]
      line_rank_less [OF assms(1)] d(2) [OF that] by (cases "odometer spp (d k)") fastforce+
  have "inj_on (\<lambda>k. page_at spp blk (d k)) {..<pgs_per_line spp}"
    using d(1,2) page_at_inj by (intro inj_onI) (metis lessThan_iff)
  moreover have "(\<lambda>k. page_at spp blk (d k)) ` {..<pgs_per_line spp} = {p. valid_ppa spp p \<and> g_blk p = blk \<and> g_rsv p = 0}"
    (is "?f ` _ = ?P")
  proof
    show "?f ` {..<pgs_per_line spp} \<subseteq> ?P"
      using digits_page(1) [OF assms(1) d(1)] assms(2) by (auto simp: page_at_def split: prod.splits)
    show "?P \<subseteq> ?f ` {..<pgs_per_line spp}"
    proof
      fix p assume p: "p \<in> ?P"
      then obtain e where e: "digits_ok spp e" "p = page_at spp blk e"
        using valid_page_digits [OF assms(1), of p] by (metis (mono_tags, lifting) mem_Collect_eq)
      note r = line_rank_less [OF assms(1) e(1)]
      have "d (line_rank spp e) = e" using line_rank_inj [OF d(1) [OF r] e(1)] d(2) [OF r] by simp
      then show "p \<in> ?f ` {..<pgs_per_line spp}" using e r by (intro image_eqI [where x = "line_rank spp e"]) simp_all
    qed
  qed
  ultimately show ?thesis using d(3) last by (intro exI [of _ ?f]) (simp add: bij_betw_def)
qed

theorem line_write_order_witness:
  "\<exists>spp f. ssd_init_params (2 ^ 36) SSD_PARTITIONS = Inr spp \<and>
    bij_betw f {..<pgs_per_line spp} {p. valid_ppa spp p \<and> g_blk p = 7 \<and> g_rsv p = 0}"
proof -
  obtain spp where spp: "ssd_init_params (2 ^ 36) SSD_PARTITIONS = Inr spp" "geom_ok spp"
    using ssd_init_params_ok [of "2 ^ 36"] by auto
  then have "7 < blks_per_pl spp"
    by (auto simp: ssd_init_params_def Let_def config_defs div_round_up_def)
  then show ?thesis using line_write_order [OF spp(2), of 7] spp(1) by auto
qed

subsection \<open>Space in the current stripe\<close>

text \<open>
  The pages of a wordline that share a LUN form a stripe over the channels.  \<open>stripe_left\<close> is the
  number of pages of the stripe after the page at \<open>d\<close>.
\<close>

definition stripe_left :: "ssdparams \<Rightarrow> nat \<times> nat \<times> nat \<times> nat \<Rightarrow> nat" where
  "stripe_left spp = (\<lambda>(w, l, c, r). nchs spp * pgs_per_oneshotpg spp - (c * pgs_per_oneshotpg spp + r) - 1)"

lemma stripe_step:
  assumes "digits_ok spp d" "2 \<le> luns_per_ch spp"
  shows "(\<exists>e. odometer spp d = Some e \<and> fst (snd e) = fst (snd d) \<and> digits_ok spp e \<and>
        stripe_left spp d = Suc (stripe_left spp e)) \<or>
      stripe_left spp d = 0 \<and> (case odometer spp d of Some e \<Rightarrow> fst (snd e) | None \<Rightarrow> 0) \<noteq> fst (snd d)"
proof -
  obtain w l c r where d: "d = (w, l, c, r)" by (cases d)
  have b: "w < oneshotpgs_per_blk spp" "l < luns_per_ch spp" "c < nchs spp" "r < pgs_per_oneshotpg spp"
    using assms(1) d by (simp_all add: digits_ok_def)
  let ?os = "pgs_per_oneshotpg spp"
  consider "Suc r < ?os" | "Suc r = ?os" "Suc c < nchs spp" | "Suc r = ?os" "Suc c = nchs spp" using b by linarith
  then show ?thesis
  proof cases
    case 1
    then show ?thesis using b radix_bound [OF b(3) 1]
      by (simp add: d odometer_def digits_ok_def stripe_left_def)
  next
    case 2
    have "Suc c * ?os < nchs spp * ?os" using 2 b by (intro mult_strict_right_mono) simp_all
    moreover have "c * ?os + Suc r = Suc c * ?os" using 2 by simp
    ultimately show ?thesis using 2 b by (simp add: d odometer_def digits_ok_def stripe_left_def)
  next
    case 3
    then have "c * ?os + Suc r = nchs spp * ?os" by (metis mult_Suc add.commute)
    then show ?thesis using 3 b assms(2) by (auto simp: d odometer_def stripe_left_def)
  qed
qed

text \<open>The number of pages that \<open>rem\<close> grains touch when the first is grain \<open>grain\<close> of its page.\<close>

definition pages_spanned :: "build \<Rightarrow> nat \<Rightarrow> nat \<Rightarrow> nat" where
  "pages_spanned b grain rem = (if rem = 0 then 0
     else div_round_up (grain mod GRAIN_PER_PAGE b + rem) (GRAIN_PER_PAGE b))"

lemma pages_spanned_step:
  assumes "rem \<noteq> 0"
  shows "pages_spanned b grain rem =
    Suc (pages_spanned b 0 (rem - min rem (GRAIN_PER_PAGE b - grain mod GRAIN_PER_PAGE b)))"
proof -
  let ?G = "GRAIN_PER_PAGE b" and ?g = "grain mod GRAIN_PER_PAGE b"
  have G: "0 < ?G" "?g < ?G" using grain_per_page_pos(1) by simp_all
  show ?thesis
  proof (cases "rem \<le> ?G - ?g")
    case True
    then have "(?g + rem + ?G - 1) div ?G = 1" using assms G by (intro div_nat_eqI) auto
    then show ?thesis using True assms by (simp add: pages_spanned_def div_round_up_def)
  next
    case False
    then have "?g + rem + ?G - 1 = (rem - (?G - ?g)) + ?G - 1 + ?G" using G by linarith
    then have "(?g + rem + ?G - 1) div ?G = Suc (((rem - (?G - ?g)) + ?G - 1) div ?G)"
      using G(1) div_add_self2 [of ?G "(rem - (?G - ?g)) + ?G - 1"] by simp
    then show ?thesis using False assms by (simp add: pages_spanned_def div_round_up_def min_def)
  qed
qed

lemma space_loop_spec:
  assumes "geom_ok spp" "2 \<le> luns_per_ch spp" "blk < 2 ^ 16" "digits_ok spp d"
  shows "if pages_spanned b grain rem \<le> stripe_left spp d
    then \<exists>e. space_loop b spp (fst (snd d)) (page_at spp blk d) grain rem had =
      Inr (True, page_at spp blk e, if rem = 0 then had else (had + rem * GRAINED_UNIT b) mod 2 ^ 32)
    else \<exists>p h. space_loop b spp (fst (snd d)) (page_at spp blk d) grain rem had = Inr (False, p, h)"
  using assms(4)
proof (induction rem arbitrary: d grain had rule: less_induct)
  case (less rem)
  note sl = space_loop.simps [of b spp "fst (snd d)" "page_at spp blk d" grain rem had]
  note pk = peek_page_at [OF assms(1) less.prems assms(3)]
  show ?case
  proof (cases "rem = 0")
    case True
    then have "space_loop b spp (fst (snd d)) (page_at spp blk d) grain rem had = Inr (True, page_at spp blk d, had)"
      using sl by simp
    then show ?thesis using True by (auto simp: pages_spanned_def simp del: split_paired_Ex)
  next
    case False
    let ?l = "min rem (GRAIN_PER_PAGE b - grain mod GRAIN_PER_PAGE b)"
    have l: "rem - ?l < rem" using False grain_per_page_pos(1) [of b] by simp
    note ps = pages_spanned_step [OF False, of b grain]
    show ?thesis using stripe_step [OF less.prems assms(2)]
    proof (elim disjE exE conjE)
      fix e assume e: "odometer spp d = Some e" "fst (snd e) = fst (snd d)" "digits_ok spp e"
        "stripe_left spp d = Suc (stripe_left spp e)"
      let ?h = "(had + ?l * GRAINED_UNIT b) mod 2 ^ 32"
      have h: "(?h + (rem - ?l) * GRAINED_UNIT b) mod 2 ^ 32 = (had + rem * GRAINED_UNIT b) mod 2 ^ 32"
      proof -
        have "?l * GRAINED_UNIT b + (rem - ?l) * GRAINED_UNIT b = rem * GRAINED_UNIT b"
          by (subst add_mult_distrib [symmetric]) simp
        then show ?thesis by (metis add.assoc mod_add_left_eq)
      qed
      have "g_lun (page_at spp blk e) = fst (snd e)" by (simp add: page_at_def split: prod.splits)
      then have "space_loop b spp (fst (snd d)) (page_at spp blk d) grain rem had =
          space_loop b spp (fst (snd e)) (page_at spp blk e) 0 (rem - ?l) ?h"
        using False pk e(1,2) by (simp add: sl Let_def)
      note loop = this
      have le: "pages_spanned b grain rem \<le> stripe_left spp d \<longleftrightarrow> pages_spanned b 0 (rem - ?l) \<le> stripe_left spp e"
        using ps e(4) by linarith
      have had: "(if rem - ?l = 0 then ?h else (?h + (rem - ?l) * GRAINED_UNIT b) mod 2 ^ 32) =
          (had + rem * GRAINED_UNIT b) mod 2 ^ 32"
      proof (cases "rem - ?l = 0")
        case True
        then have "?l = rem" by linarith
        then show ?thesis using True by simp
      qed (use h in \<open>simp only: if_False\<close>)
      note ih = less.IH [OF l e(3), of 0 ?h, unfolded had]
      show ?thesis using ih False unfolding loop le by (simp only: if_False)
    next
      assume e: "stripe_left spp d = 0" "(case odometer spp d of Some e \<Rightarrow> fst (snd e) | None \<Rightarrow> 0) \<noteq> fst (snd d)"
      have lun: "g_lun (page_at spp x y) = fst (snd y)" for x y by (simp add: page_at_def split: prod.splits)
      obtain q where "peek_next_page spp (page_at spp blk d) = Inr q" "g_lun q \<noteq> fst (snd d)"
        using pk e(2) by (cases "odometer spp d") (auto simp: lun)
      then have "\<exists>p h. space_loop b spp (fst (snd d)) (page_at spp blk d) grain rem had = Inr (False, p, h)"
        using False by (simp add: sl Let_def)
      moreover have "\<not> pages_spanned b grain rem \<le> stripe_left spp d" using ps e(1) by linarith
      ultimately show ?thesis by (simp only: if_False)
    qed
  qed
qed

text \<open>
  \<^bold>\<open>C35.\<close>  What \<open>enough_space_in_line\<close> promises.  For a page of a stripe with \<open>stripe_left\<close> pages after it, the
  answer is yes exactly when the pages the grains touch, counting from the current one, are at most
  \<open>stripe_left\<close>: a pair that would end in the very last page of the stripe is refused.  A positive
  answer reports the size of the pair in bytes.
\<close>

theorem enough_space_in_line_spec:
  assumes "geom_ok spp" "2 \<le> luns_per_ch spp" "valid_ppa spp p" "g_rsv p = 0" "g_blk p < 2 ^ 16"
    and "len * GRAINED_UNIT b < 2 ^ 32"
  shows "\<exists>had. enough_space_in_line b spp p grain len =
      Inr (pages_spanned b grain len \<le>
             nchs spp * pgs_per_oneshotpg spp -
             (g_ch p * pgs_per_oneshotpg spp + g_pg p mod pgs_per_oneshotpg spp) - 1, had) \<and>
    (pages_spanned b grain len \<le> nchs spp * pgs_per_oneshotpg spp -
             (g_ch p * pgs_per_oneshotpg spp + g_pg p mod pgs_per_oneshotpg spp) - 1 \<longrightarrow> had = len * GRAINED_UNIT b)"
proof -
  obtain d where d: "digits_ok spp d" "p = page_at spp (g_blk p) d"
    using valid_page_digits [OF assms(1,3,4)] by metis
  obtain w l c r where dd: "d = (w, l, c, r)" by (cases d)
  have "g_pg p = w * pgs_per_oneshotpg spp + r" "g_ch p = c" "g_lun p = l" "r < pgs_per_oneshotpg spp"
    using d by (simp_all add: dd page_at_def digits_ok_def) (metis ppa.select_convs)+
  then have sl: "stripe_left spp d = nchs spp * pgs_per_oneshotpg spp -
      (g_ch p * pgs_per_oneshotpg spp + g_pg p mod pgs_per_oneshotpg spp) - 1" "fst (snd d) = g_lun p"
    by (simp_all add: stripe_left_def dd)
  have "g_blk (page_at spp (g_blk p) e) = g_blk p" for e by (simp add: page_at_def split: prod.splits)
  then show ?thesis
    using space_loop_spec [OF assms(1,2,5) d(1), of b grain len 0] assms(6)
    unfolding sl d(2) [symmetric] enough_space_in_line_def by (auto split: if_splits)
qed

theorem enough_space_in_line_spec_witness:
  "\<exists>spp had. ssd_init_params (2 ^ 36) SSD_PARTITIONS = Inr spp \<and>
     enough_space_in_line Original spp (mk_ppa 7 3 0 5 7) 2 1 = Inr (False, had) \<and>
     enough_space_in_line Original spp (mk_ppa 7 3 0 5 6) 2 6 = Inr (True, 3072)"
proof -
  obtain spp where spp: "ssd_init_params (2 ^ 36) SSD_PARTITIONS = Inr spp" "geom_ok spp"
    using ssd_init_params_ok [of "2 ^ 36"] by auto
  have f: "nchs spp = 8" "pgs_per_oneshotpg spp = 8" "luns_per_ch spp = 8" "pls_per_lun spp = 1"
    "blks_per_pl spp = 8192" "pgs_per_blk spp = 32"
    using spp(1) by (auto simp: ssd_init_params_def Let_def config_defs div_round_up_def)
  have v: "valid_ppa spp (mk_ppa 7 3 0 5 7)" "valid_ppa spp (mk_ppa 7 3 0 5 6)" using f by (simp_all add: valid_ppaD mk_ppa_def)
  have "\<exists>had. enough_space_in_line Original spp (mk_ppa 7 3 0 5 7) 2 1 = Inr (False, had)"
    using enough_space_in_line_spec [OF spp(2) _ v(1), of 1 Original 2] f
    by (simp add: mk_ppa_def pages_spanned_def div_round_up_def GRAINED_UNIT_def PIECE_def)
  moreover have "enough_space_in_line Original spp (mk_ppa 7 3 0 5 6) 2 6 = Inr (True, 3072)"
    using enough_space_in_line_spec [OF spp(2) _ v(2), of 6 Original 2] f
    by (simp add: mk_ppa_def pages_spanned_def div_round_up_def GRAINED_UNIT_def PIECE_def)
  ultimately show ?thesis using spp(1) by blast
qed

end
