(* ===== verification/TwoLevel.thy ===== *)
theory TwoLevel
  imports FtlAddr "HOL-Library.Multiset"
begin

text \<open>
  \<^verbatim>\<open>twolevel.c\<close>: the two-level table of a hash table section in the \<^verbatim>\<open>Plus\<close> build, which maps hash
  indices to grains.

  The C code overlays one page of memory with a \<^verbatim>\<open>struct root\<close> followed by \<^verbatim>\<open>struct leaf\<close>s and moves
  between them by pointer arithmetic, and it hands out byte positions (\<^verbatim>\<open>pos\<close>) into that page.  The
  model keeps the page as the array of its 32-bit words: word 0 is \<^verbatim>\<open>root->cnt\<close>, words 1 to 60 are
  \<^verbatim>\<open>root->entries\<close>, and leaf \<open>i\<close> starts at byte \<^verbatim>\<open>sizeof(struct root) + sizeof(struct leaf) * i\<close>.  An access outside
  the page, or at a byte position that is not word aligned, is \<open>Inl Out_of_bounds\<close>.  Of the global
  \<^verbatim>\<open>tmp_leaves\<close> the model keeps the part that a reload fills; \<^verbatim>\<open>ht->cached_cnt\<close> and the global
  \<^verbatim>\<open>reloading\<close> are fields of the state.

  The kernel's \<^verbatim>\<open>sort\<close> is the parameter \<open>srt\<close> of the operations that call it; \<open>sorts_by_hidx\<close>
  states what the code relies on.
\<close>

section \<open>Layout\<close>

definition ENTRY_SIZE :: nat where
  "ENTRY_SIZE = 4 + 4"

definition ROOT_G :: nat where
  "ROOT_G = 4"

definition ORIG_GLEN :: nat where
  "ORIG_GLEN = ROOT_G + 2"

definition EPP :: nat where
  "EPP = ((GRAIN_PER_PAGE Plus - ROOT_G) * GRAINED_UNIT Plus) div ENTRY_SIZE"

definition IN_LEAF :: nat where
  "IN_LEAF = GRAINED_UNIT Plus div ENTRY_SIZE"

definition IN_ROOT :: nat where
  "IN_ROOT = EPP div ENTRY_SIZE"

definition sizeof_root :: nat where
  "sizeof_root = 4 + 4 * IN_ROOT"

definition sizeof_leaf :: nat where
  "sizeof_leaf = 4 * IN_LEAF + 4 * IN_LEAF"

abbreviation UINT_MAX :: u32 where
  "UINT_MAX \<equiv> - 1"

record leaf_e =
  le_hidx :: u32
  le_ppa :: u32

type_synonym page = "u32 list"

record tl_state =
  tl_page :: page
  tl_cached_cnt :: u32
  tl_reloading :: bool

definition word_at :: "page \<Rightarrow> nat \<Rightarrow> u32 result" where
  "word_at m p = (if p mod 4 = 0 \<and> p div 4 < length m then Inr (m ! (p div 4)) else Inl Out_of_bounds)"

definition set_word_at :: "page \<Rightarrow> nat \<Rightarrow> u32 \<Rightarrow> page result" where
  "set_word_at m p v = (if p mod 4 = 0 \<and> p div 4 < length m then Inr (m[p div 4 := v]) else Inl Out_of_bounds)"

definition entry_pos :: "nat \<Rightarrow> nat" where
  "entry_pos i = 4 + 4 * i"

definition leaf_pos :: "nat \<Rightarrow> nat" where
  "leaf_pos i = sizeof_root + sizeof_leaf * i"

definition hidx_pos :: "nat \<Rightarrow> nat \<Rightarrow> nat" where
  "hidx_pos i j = leaf_pos i + 4 * j"

definition ppa_pos :: "nat \<Rightarrow> nat \<Rightarrow> nat" where
  "ppa_pos i j = leaf_pos i + 4 * IN_LEAF + 4 * j"

section \<open>Operations\<close>

fun init_leaf :: "page \<Rightarrow> nat \<Rightarrow> nat \<Rightarrow> page result" where
  "init_leaf m i 0 = Inr m"
| "init_leaf m i (Suc j) =
     bindR (init_leaf m i j) (\<lambda>m.
     bindR (set_word_at m (hidx_pos i j) UINT_MAX) (\<lambda>m.
     set_word_at m (ppa_pos i j) UINT_MAX))"

fun init_leaves :: "page \<Rightarrow> nat \<Rightarrow> page result" where
  "init_leaves m 0 = Inr m"
| "init_leaves m (Suc i) =
     bindR (init_leaves m i) (\<lambda>m.
     bindR (set_word_at m (entry_pos i) UINT_MAX) (\<lambda>m.
     init_leaf m i IN_LEAF))"

definition twolevel_init :: "page \<Rightarrow> page result" where
  "twolevel_init m =
     bindR (set_word_at m 0 (word_of_nat (ORIG_GLEN - ROOT_G))) (\<lambda>m. init_leaves m IN_ROOT)"

definition twolevel_expand :: "page \<Rightarrow> page result" where
  "twolevel_expand m = bindR (word_at m 0) (\<lambda>cnt. set_word_at m 0 (cnt + 1))"

definition cmp_hidx :: "leaf_e \<Rightarrow> leaf_e \<Rightarrow> int" where
  "cmp_hidx la lb = (if le_hidx la < le_hidx lb then -1 else if le_hidx la > le_hidx lb then 1 else 0)"

definition sorts_by_hidx :: "(leaf_e list \<Rightarrow> leaf_e list) \<Rightarrow> bool" where
  "sorts_by_hidx srt \<longleftrightarrow>
     (\<forall>es. mset (srt es) = mset es \<and> sorted_wrt (\<lambda>a b. cmp_hidx a b \<le> 0) (srt es))"

text \<open>
  \<^verbatim>\<open>__new_roots\<close>; \<open>n\<close> counts the root keys still to fill, so \<^verbatim>\<open>i < root_entries - 1\<close> is \<open>0 < n\<close> after the
  step.  \<open>leaves\<close> are the filled entries of the array.
\<close>

fun new_roots_loop :: "leaf_e list \<Rightarrow> int \<Rightarrow> int \<Rightarrow> int \<Rightarrow> nat \<Rightarrow> u32 list result" where
  "new_roots_loop leaves keys_per_leaf extra_keys key_index 0 = Inr []"
| "new_roots_loop leaves keys_per_leaf extra_keys key_index (Suc n) =
     (let key_index = key_index + (keys_per_leaf - 1);
          (key_index, extra_keys) =
            (if 0 < extra_keys then (key_index + 1, extra_keys - 1) else (key_index, extra_keys)) in
      bindR (if n = 0 then Inr UINT_MAX
             else if 0 \<le> key_index \<and> key_index < int (length leaves)
             then Inr (le_hidx (leaves ! nat key_index)) else Inl Out_of_bounds) (\<lambda>k.
      bindR (new_roots_loop leaves keys_per_leaf extra_keys (key_index + 1) n) (\<lambda>ks.
      Inr (k # ks))))"

definition new_roots :: "leaf_e list \<Rightarrow> u32 \<Rightarrow> u32 \<Rightarrow> u32 list result" where
  "new_roots leaves key_cnt num_leaves =
     (if num_leaves = 0 then Inl Div_by_zero
      else if IN_ROOT < unat num_leaves then Inl Out_of_bounds
      else
        let keys_per_leaf = uint (key_cnt div num_leaves);
            extra_keys = uint (key_cnt mod num_leaves) in
        bindR (assertR (extra_keys \<le> uint num_leaves) Bug_on) (\<lambda>_.
        new_roots_loop leaves keys_per_leaf extra_keys 0 (unat num_leaves)))"

fun set_entries :: "page \<Rightarrow> nat \<Rightarrow> u32 list \<Rightarrow> page result" where
  "set_entries m i [] = Inr m"
| "set_entries m i (k # ks) = bindR (set_word_at m (entry_pos i) k) (\<lambda>m. set_entries m (Suc i) ks)"

text \<open>
  The placement loop of \<^verbatim>\<open>twolevel_bulk_insert\<close>: the root keys from the current one on, the current
  leaf and the next slot in it, and the entries still to place.  A read of a root key past those
  \<^verbatim>\<open>__new_roots\<close> wrote is the use of an uninitialised local.
\<close>

fun bulk_loop :: "page \<Rightarrow> u32 list \<Rightarrow> nat \<Rightarrow> nat \<Rightarrow> leaf_e list \<Rightarrow> page result" where
  "bulk_loop m ks cur_leaf idx [] = Inr m"
| "bulk_loop m [] cur_leaf idx (e # es) = Inl Uninitialised"
| "bulk_loop m (k # ks) cur_leaf idx (e # es) =
     (if le_hidx e \<le> k then
        bindR (assertR (0 < le_hidx e) Bug_on) (\<lambda>_.
        bindR (assertR (idx < IN_LEAF) Out_of_bounds) (\<lambda>_.
        bindR (set_word_at m (hidx_pos cur_leaf idx) (le_hidx e)) (\<lambda>m.
        bindR (set_word_at m (ppa_pos cur_leaf idx) (le_ppa e)) (\<lambda>m.
        bulk_loop m (k # ks) cur_leaf (Suc idx) es))))
      else bulk_loop m ks (Suc cur_leaf) 0 (e # es))"

definition twolevel_bulk_insert :: "(leaf_e list \<Rightarrow> leaf_e list) \<Rightarrow> page \<Rightarrow> leaf_e list \<Rightarrow> page result" where
  "twolevel_bulk_insert srt m e =
     (let e = srt e in
      bindR (word_at m 0) (\<lambda>cnt.
      bindR (new_roots e (word_of_nat (length e)) cnt) (\<lambda>ks.
      bindR (set_entries m 0 ks) (\<lambda>m.
      bulk_loop m ks 0 0 e))))"

function lower_bound_loop :: "page \<Rightarrow> u32 \<Rightarrow> int \<Rightarrow> int \<Rightarrow> int result" where
  "lower_bound_loop m hidx left right =
     (if left \<le> right then
        let mid = left + (right - left) div 2 in
        bindR (if 0 \<le> mid then word_at m (entry_pos (nat mid)) else Inl Out_of_bounds) (\<lambda>k.
        if k < hidx then lower_bound_loop m hidx (mid + 1) right
        else lower_bound_loop m hidx left (mid - 1))
      else Inr left)"
  by pat_completeness auto
termination
  by (relation "measure (\<lambda>(m, h, l, r). nat (r - l + 1))") (auto simp: Let_def)

declare lower_bound_loop.simps [simp del]

definition lower_bound :: "page \<Rightarrow> u32 \<Rightarrow> nat result" where
  "lower_bound m hidx =
     bindR (word_at m 0) (\<lambda>cnt.
     bindR (lower_bound_loop m hidx 0 (sint (cnt - 1))) (\<lambda>i. Inr (nat i)))"

definition twolevel_direct_read :: "page \<Rightarrow> u32 \<Rightarrow> u32 result" where
  "twolevel_direct_read m pos = word_at m (unat pos)"

text \<open>The loops over the slots \<open>j\<close> of a leaf take the list of the slots still to visit.\<close>

fun find_loop :: "page \<Rightarrow> u32 \<Rightarrow> nat \<Rightarrow> nat list \<Rightarrow> (u32 \<times> u32) option result" where
  "find_loop m hidx i [] = Inr None"
| "find_loop m hidx i (j # js) =
     bindR (word_at m (hidx_pos i j)) (\<lambda>h.
     if h = hidx then
       bindR (word_at m (ppa_pos i j)) (\<lambda>p.
       Inr (Some (p, word_of_nat (sizeof_root + sizeof_leaf * i + 4 * IN_LEAF + j * 4))))
     else if h = UINT_MAX then Inr None
     else find_loop m hidx i js)"

text \<open>
  The result of \<^verbatim>\<open>twolevel_find\<close> is the grain, \<^verbatim>\<open>UINT_MAX\<close> when there is none, and the value stored
  through \<^verbatim>\<open>pos\<close>, which is left alone when nothing is found.
\<close>

definition twolevel_find :: "page \<Rightarrow> u32 \<Rightarrow> (u32 \<times> u32 option) result" where
  "twolevel_find m hidx =
     bindR (lower_bound m hidx) (\<lambda>i.
     bindR (word_at m 0) (\<lambda>cnt.
     if i = unat cnt then Inr (UINT_MAX, None)
     else bindR (find_loop m hidx i [0..<IN_LEAF]) (\<lambda>r.
       Inr (case r of None \<Rightarrow> (UINT_MAX, None) | Some (p, pos) \<Rightarrow> (p, Some pos)))))"

fun shift_loop :: "page \<Rightarrow> nat \<Rightarrow> nat list \<Rightarrow> page result" where
  "shift_loop m i [] = Inr m"
| "shift_loop m i (j # js) =
     bindR (word_at m (hidx_pos i (j + 1))) (\<lambda>h.
     bindR (set_word_at m (hidx_pos i j) h) (\<lambda>m.
     bindR (word_at m (ppa_pos i (j + 1))) (\<lambda>p.
     bindR (set_word_at m (ppa_pos i j) p) (\<lambda>m.
     shift_loop m i js))))"

definition delete_at :: "page \<Rightarrow> u32 \<Rightarrow> page result" where
  "delete_at m pos =
     (let my_leaf_idx = pos div word_of_nat (GRAINED_UNIT Plus) - word_of_nat ROOT_G;
          my_leaf_bytes = word_of_nat sizeof_root + word_of_nat sizeof_leaf * my_leaf_idx :: u32;
          my_in_leaf = ((pos - my_leaf_bytes) - 32) div 4;
          i = unat my_leaf_idx in
      bindR (shift_loop m i [unat my_in_leaf..<IN_LEAF - 1]) (\<lambda>m.
      bindR (set_word_at m (hidx_pos i (IN_LEAF - 1)) UINT_MAX) (\<lambda>m.
      set_word_at m (ppa_pos i (IN_LEAF - 1)) UINT_MAX)))"

fun fill_loop :: "page \<Rightarrow> nat \<Rightarrow> u32 \<Rightarrow> u32 \<Rightarrow> nat list \<Rightarrow> page result" where
  "fill_loop m i hidx ppa [] = Inr m"
| "fill_loop m i hidx ppa (j # js) =
     bindR (word_at m (hidx_pos i j)) (\<lambda>h.
     if h = UINT_MAX then
       bindR (set_word_at m (hidx_pos i j) hidx) (\<lambda>m.
       set_word_at m (ppa_pos i j) ppa)
     else fill_loop m i hidx ppa js)"

definition raise_key :: "page \<Rightarrow> nat \<Rightarrow> u32 \<Rightarrow> page result" where
  "raise_key m i hidx =
     bindR (word_at m 0) (\<lambda>cnt.
     if word_of_nat i \<noteq> cnt - 1 then
       bindR (word_at m (entry_pos i)) (\<lambda>k.
       if k \<le> hidx \<or> k = UINT_MAX then set_word_at m (entry_pos i) hidx else Inr m)
     else Inr m)"

text \<open>
  The part of \<^verbatim>\<open>twolevel_insert\<close> for a new hash index (\<^verbatim>\<open>pos == UINT_MAX\<close>).  A full leaf calls \<^verbatim>\<open>twolevel_reload\<close>,
  which in turn calls \<^verbatim>\<open>twolevel_insert\<close> with \<^verbatim>\<open>reloading\<close> set; there the assertion fires before a
  second reload, so the mutual recursion of the C code is at most one level deep and \<open>reload\<close> is an
  argument here.
\<close>

definition insert_new :: "(tl_state \<Rightarrow> u32 \<Rightarrow> u32 \<Rightarrow> tl_state result) \<Rightarrow> tl_state \<Rightarrow> u32 \<Rightarrow> u32 \<Rightarrow> tl_state result" where
  "insert_new reload st hidx ppa =
     (let st = st\<lparr>tl_cached_cnt := tl_cached_cnt st + 1\<rparr>; m = tl_page st in
      bindR (lower_bound m hidx) (\<lambda>i.
      bindR (word_at m (hidx_pos i (IN_LEAF - 1))) (\<lambda>last.
      if last \<noteq> UINT_MAX then
        bindR (assertR (\<not> tl_reloading st) Bug_on) (\<lambda>_. reload st hidx ppa)
      else
        bindR (raise_key m i hidx) (\<lambda>m.
        bindR (fill_loop m i hidx ppa [0..<IN_LEAF]) (\<lambda>m.
        Inr (st\<lparr>tl_page := m\<rparr>))))))"

fun reload_leaf :: "page \<Rightarrow> nat \<Rightarrow> leaf_e list \<Rightarrow> nat list \<Rightarrow> (page \<times> leaf_e list) result" where
  "reload_leaf m i tmp_leaves [] = Inr (m, tmp_leaves)"
| "reload_leaf m i tmp_leaves (j # js) =
     bindR (word_at m (hidx_pos i j)) (\<lambda>h.
     if h = UINT_MAX then Inr (m, tmp_leaves)
     else
       bindR (word_at m (ppa_pos i j)) (\<lambda>p.
       bindR (assertR (length tmp_leaves < IN_ROOT * IN_LEAF) Out_of_bounds) (\<lambda>_.
       bindR (set_word_at m (hidx_pos i j) UINT_MAX) (\<lambda>m.
       bindR (set_word_at m (ppa_pos i j) UINT_MAX) (\<lambda>m.
       reload_leaf m i (tmp_leaves @ [\<lparr>le_hidx = h, le_ppa = p\<rparr>]) js)))))"

fun reload_leaves :: "page \<Rightarrow> leaf_e list \<Rightarrow> nat list \<Rightarrow> (page \<times> leaf_e list) result" where
  "reload_leaves m tmp_leaves [] = Inr (m, tmp_leaves)"
| "reload_leaves m tmp_leaves (i # is) =
     bindR (reload_leaf m i tmp_leaves [0..<IN_LEAF]) (\<lambda>(m, tmp_leaves). reload_leaves m tmp_leaves is)"

fun reinsert :: "tl_state \<Rightarrow> leaf_e list \<Rightarrow> tl_state result" where
  "reinsert st [] = Inr st"
| "reinsert st (e # es) =
     bindR (insert_new (\<lambda>_ _ _. Inl Bug_on) st (le_hidx e) (le_ppa e)) (\<lambda>st. reinsert st es)"

definition twolevel_reload ::
  "(leaf_e list \<Rightarrow> leaf_e list) \<Rightarrow> tl_state \<Rightarrow> u32 \<Rightarrow> u32 \<Rightarrow> tl_state result" where
  "twolevel_reload srt st hidx ppa =
     (let before = tl_cached_cnt st; st = st\<lparr>tl_reloading := True\<rparr> in
      bindR (word_at (tl_page st) 0) (\<lambda>cnt.
      bindR (reload_leaves (tl_page st) [] [0..<unat cnt]) (\<lambda>(m, tmp_leaves).
      bindR (if hidx \<noteq> UINT_MAX then
               bindR (assertR (length tmp_leaves < IN_ROOT * IN_LEAF) Out_of_bounds) (\<lambda>_.
               Inr (tmp_leaves @ [\<lparr>le_hidx = hidx, le_ppa = ppa\<rparr>]))
             else Inr tmp_leaves) (\<lambda>tmp_leaves.
      let tmp_leaves = srt tmp_leaves; n = word_of_nat (length tmp_leaves) in
      bindR (new_roots tmp_leaves n cnt) (\<lambda>ks.
      bindR (set_entries m 0 ks) (\<lambda>m.
      bindR (reinsert (st\<lparr>tl_page := m, tl_cached_cnt := tl_cached_cnt st - n\<rparr>) tmp_leaves) (\<lambda>st.
      bindR (assertR (tl_cached_cnt st = before) Bug_on) (\<lambda>_.
      Inr (st\<lparr>tl_reloading := False\<rparr>)))))))))"

definition twolevel_insert ::
  "(leaf_e list \<Rightarrow> leaf_e list) \<Rightarrow> tl_state \<Rightarrow> u32 \<Rightarrow> u32 \<Rightarrow> u32 \<Rightarrow> tl_state result" where
  "twolevel_insert srt st hidx ppa pos =
     (if pos \<noteq> UINT_MAX then
        if ppa = UINT_MAX then
          bindR (delete_at (tl_page st) pos) (\<lambda>m.
          Inr (st\<lparr>tl_page := m, tl_cached_cnt := tl_cached_cnt st - 1\<rparr>))
        else
          bindR (set_word_at (tl_page st) (unat pos) ppa) (\<lambda>m.
          Inr (st\<lparr>tl_page := m\<rparr>))
      else insert_new (twolevel_reload srt) st hidx ppa)"

text \<open>
  The table side of \<^verbatim>\<open>__update_map\<close> in \<^verbatim>\<open>demand_ftl.c\<close>: a full table gets one more leaf and is reloaded
  before a new index goes in.  Left out are \<^verbatim>\<open>__expand_map_entry\<close>, which allots the flash space of the larger table, the
  read of the old address at \<^verbatim>\<open>pos\<close> for the invalidation log (it changes no table), and the copies of the key and the pair.  \<open>store_mapping\<close> is the pair of calls every store makes: look the
  index up, with \<^verbatim>\<open>pos\<close> preset to \<^verbatim>\<open>UINT_MAX\<close>, and update the map at the position found.
\<close>

definition update_table ::
  "(leaf_e list \<Rightarrow> leaf_e list) \<Rightarrow> tl_state \<Rightarrow> u32 \<Rightarrow> u32 \<Rightarrow> u32 \<Rightarrow> tl_state result" where
  "update_table srt st lpa ppa pos =
     bindR (word_at (tl_page st) 0) (\<lambda>cnt.
     let max = cnt * word_of_nat IN_LEAF in
     bindR (if tl_cached_cnt st = max \<and> pos = UINT_MAX then
              bindR (twolevel_expand (tl_page st)) (\<lambda>m.
              twolevel_reload srt (st\<lparr>tl_page := m\<rparr>) UINT_MAX UINT_MAX)
            else Inr st) (\<lambda>st.
     twolevel_insert srt st lpa ppa pos))"

definition store_mapping ::
  "(leaf_e list \<Rightarrow> leaf_e list) \<Rightarrow> u32 \<times> u32 \<Rightarrow> tl_state \<Rightarrow> tl_state result" where
  "store_mapping srt op st = (case op of (lpa, ppa) \<Rightarrow>
     bindR (twolevel_find (tl_page st) lpa) (\<lambda>(_, pos).
     update_table srt st lpa ppa (case pos of None \<Rightarrow> UINT_MAX | Some p \<Rightarrow> p)))"

fun store_mappings :: "(leaf_e list \<Rightarrow> leaf_e list) \<Rightarrow> (u32 \<times> u32) list \<Rightarrow> tl_state \<Rightarrow> tl_state result" where
  "store_mappings srt [] st = Inr st"
| "store_mappings srt (op # ops) st = bindR (store_mapping srt op st) (\<lambda>st. store_mappings srt ops st)"

text \<open>
  The construction of a section's table in \<^verbatim>\<open>__fast_fill\<close>.  \<open>present\<close> tells which of the section's pairs are there
  (\<^verbatim>\<open>ht->pair_mem\<close>) and \<open>grains\<close> where they are (\<^verbatim>\<open>ht->fm_grains\<close>).  \<open>fill_glen\<close>: the grains allotted for so many pairs.
  A section without a flash page (\<^verbatim>\<open>t_ppa\<close> is \<^verbatim>\<open>UINT_MAX\<close>) gets the fresh page \<open>mem\<close>, to which the leaves beyond the two
  initial ones are added one by one; any other is filled on the page \<open>mappings\<close> it has, \<open>None\<close> for a NULL pointer.  Then
  the entries are placed.  The flash page that is taken and marked on the way is the business of line management.
\<close>

fun expand_times :: "nat \<Rightarrow> page \<Rightarrow> page result" where
  "expand_times 0 m = Inr m"
| "expand_times (Suc n) m = bindR (twolevel_expand m) (\<lambda>m. expand_times n m)"

definition fill_glen :: "nat \<Rightarrow> nat" where
  "fill_glen cnt =
     (let leaf_glen = ORIG_GLEN - ROOT_G; cnt_bytes = cnt * 4 * 2 in
      if cnt_bytes > leaf_glen * GRAINED_UNIT Plus then
        ROOT_G + cnt_bytes div GRAINED_UNIT Plus + (if cnt_bytes mod GRAINED_UNIT Plus \<noteq> 0 then 1 else 0)
      else ORIG_GLEN)"

definition fill_entries :: "nat \<Rightarrow> (nat \<Rightarrow> bool) \<Rightarrow> (nat \<Rightarrow> u32) \<Rightarrow> leaf_e list" where
  "fill_entries idx present grains =
     map (\<lambda>i. \<lparr>le_hidx = word_of_nat (idx * EPP + i), le_ppa = grains i\<rparr>) (filter present [0..<EPP])"

definition fill_table ::
  "(leaf_e list \<Rightarrow> leaf_e list) \<Rightarrow> u32 \<Rightarrow> page option \<Rightarrow> page \<Rightarrow> nat \<Rightarrow> u32 \<Rightarrow> leaf_e list \<Rightarrow> tl_state result" where
  "fill_table srt t_ppa mappings mem glen cached_cnt e =
     bindR (if t_ppa = UINT_MAX then
              bindR (twolevel_init mem) (\<lambda>m.
              bindR (word_at m 0) (\<lambda>cnt.
              expand_times (glen - ROOT_G - unat cnt) m))
            else (case mappings of None \<Rightarrow> Inl Null_deref | Some m \<Rightarrow> Inr m)) (\<lambda>m.
     bindR (twolevel_bulk_insert srt m e) (\<lambda>m.
     Inr \<lparr>tl_page = m, tl_cached_cnt = cached_cnt + word_of_nat (length e), tl_reloading = False\<rparr>))"

definition fill_section ::
  "(leaf_e list \<Rightarrow> leaf_e list) \<Rightarrow> nat \<Rightarrow> u32 \<Rightarrow> page option \<Rightarrow> page \<Rightarrow> u32 \<Rightarrow> (nat \<Rightarrow> bool) \<Rightarrow> (nat \<Rightarrow> u32) \<Rightarrow> tl_state result" where
  "fill_section srt idx t_ppa mappings mem cached_cnt present grains =
     fill_table srt t_ppa mappings mem (fill_glen (length (filter present [0..<EPP]))) cached_cnt (fill_entries idx present grains)"

section \<open>What the page represents\<close>

lemma layout_consts [simp]:
  "EPP = 480" "IN_LEAF = 8" "IN_ROOT = 60" "sizeof_root = 244" "sizeof_leaf = 64"
  "GRAINED_UNIT Plus = 64"
  by (simp_all add: EPP_def IN_LEAF_def IN_ROOT_def sizeof_root_def sizeof_leaf_def ROOT_G_def
    ENTRY_SIZE_def GRAINED_UNIT_def PIECE_def)

definition hw :: "nat \<Rightarrow> nat \<Rightarrow> nat" where "hw i j = 61 + 16 * i + j"

definition pw :: "nat \<Rightarrow> nat \<Rightarrow> nat" where "pw i j = 69 + 16 * i + j"

lemma pos_words [simp]:
  "hidx_pos i j mod 4 = 0" "hidx_pos i j div 4 = hw i j"
  "ppa_pos i j mod 4 = 0" "ppa_pos i j div 4 = pw i j"
  "entry_pos i mod 4 = 0" "entry_pos i div 4 = 1 + i"
  by (simp_all add: hidx_pos_def ppa_pos_def leaf_pos_def entry_pos_def hw_def pw_def)

lemma slot_split:
  "j < 8 \<Longrightarrow> (hw i j - 61) div 16 = i \<and> (hw i j - 61) mod 16 = j"
  "j < 8 \<Longrightarrow> (pw i j - 61) div 16 = i \<and> (pw i j - 61) mod 16 = j + 8"
proof -
  have "pw i j - 61 = 16 * i + (j + 8)" by (simp add: pw_def)
  moreover have "k < 16 \<Longrightarrow> (16 * i + k) div 16 = i \<and> (16 * i + k) mod 16 = k" for k by simp
  ultimately show "j < 8 \<Longrightarrow> (pw i j - 61) div 16 = i \<and> (pw i j - 61) mod 16 = j + 8" by simp
qed (simp add: hw_def)

lemma slot_words [simp]:
  assumes "j < 8" "j' < 8"
  shows "hw i j = hw i' j' \<longleftrightarrow> i = i' \<and> j = j'" "pw i j = pw i' j' \<longleftrightarrow> i = i' \<and> j = j'"
    "hw i j \<noteq> pw i' j'" "pw i' j' \<noteq> hw i j"
  using slot_split(1) [OF assms(1), of i] slot_split(1) [OF assms(2), of i']
    slot_split(2) [OF assms(1), of i] slot_split(2) [OF assms(2), of i'] assms
  by (metis add_right_cancel, metis add_right_cancel, metis add.commute not_add_less2, metis add.commute not_add_less2)

lemma slot_above [simp]:
  "hw i j \<noteq> 0" "pw i j \<noteq> 0" "k < 60 \<Longrightarrow> hw i j \<noteq> Suc k" "k < 60 \<Longrightarrow> pw i j \<noteq> Suc k"
  "i < 60 \<Longrightarrow> j < 8 \<Longrightarrow> hw i j < 1024" "i < 60 \<Longrightarrow> j < 8 \<Longrightarrow> pw i j < 1024"
  "61 \<le> hw i j" "61 \<le> pw i j" "k < 60 \<Longrightarrow> Suc k \<noteq> hw i j" "k < 60 \<Longrightarrow> Suc k \<noteq> pw i j"
  by (simp_all add: hw_def pw_def)

text \<open>
  \<open>leaves_ok m ls\<close>: \<open>ls\<close> are the entries of the sixty leaves, each filled from the left and ended by
  \<^verbatim>\<open>UINT_MAX\<close>.  \<open>keys_ok m ks\<close>: \<open>ks\<close> are the root keys in use.  \<open>routed ks ls\<close>: the root keys
  ascend up to the closing \<^verbatim>\<open>UINT_MAX\<close>, an entry is in the first leaf whose key is not below its
  hash index, and a hash index occurs once.
\<close>

definition leaf_ok :: "page \<Rightarrow> nat \<Rightarrow> leaf_e list \<Rightarrow> bool" where
  "leaf_ok m i es \<longleftrightarrow> length es \<le> 8 \<and> (\<forall>e \<in> set es. le_hidx e \<noteq> UINT_MAX) \<and>
     (\<forall>j < length es. m ! hw i j = le_hidx (es ! j) \<and> m ! pw i j = le_ppa (es ! j)) \<and>
     (\<forall>j. length es \<le> j \<and> j < 8 \<longrightarrow> m ! hw i j = UINT_MAX)"

definition leaves_ok :: "page \<Rightarrow> leaf_e list list \<Rightarrow> bool" where
  "leaves_ok m ls \<longleftrightarrow> length m = 1024 \<and> length ls = 60 \<and> (\<forall>i < 60. leaf_ok m i (ls ! i))"

definition keys_ok :: "page \<Rightarrow> u32 list \<Rightarrow> bool" where
  "keys_ok m ks \<longleftrightarrow> ks \<noteq> [] \<and> length ks \<le> 60 \<and> m ! 0 = word_of_nat (length ks) \<and>
     (\<forall>i < length ks. m ! Suc i = ks ! i)"

definition goes_to :: "u32 list \<Rightarrow> u32 \<Rightarrow> nat \<Rightarrow> bool" where
  "goes_to ks h i \<longleftrightarrow> i < length ks \<and> h \<le> ks ! i \<and> (\<forall>i' < i. ks ! i' < h)"

definition routed :: "u32 list \<Rightarrow> leaf_e list list \<Rightarrow> bool" where
  "routed ks ls \<longleftrightarrow> sorted ks \<and> last ks = UINT_MAX \<and>
     (\<forall>i < length ls. \<forall>e \<in> set (ls ! i). goes_to ks (le_hidx e) i) \<and>
     (\<forall>i < length ks - 1. ks ! i = UINT_MAX \<longrightarrow> ls ! i = []) \<and>
     distinct (map le_hidx (concat ls))"

definition table_ok :: "page \<Rightarrow> u32 list \<Rightarrow> leaf_e list list \<Rightarrow> bool" where
  "table_ok m ks ls \<longleftrightarrow> leaves_ok m ls \<and> keys_ok m ks \<and> routed ks ls"

definition cell_map :: "leaf_e list \<Rightarrow> u32 \<rightharpoonup> u32" where
  "cell_map es = map_of (map (\<lambda>e. (le_hidx e, le_ppa e)) es)"

abbreviation cells :: "leaf_e list list \<Rightarrow> u32 \<rightharpoonup> u32" where
  "cells ls \<equiv> cell_map (concat ls)"

lemma leaf_hidx:
  assumes "length m = 1024" "leaf_ok m i es" "i < 60" "j < 8"
  shows "word_at m (hidx_pos i j) = Inr (if j < length es then le_hidx (es ! j) else UINT_MAX)"
  using assms by (simp add: word_at_def leaf_ok_def)

lemma leaf_ppa:
  assumes "length m = 1024" "leaf_ok m i es" "i < 60" "j < length es"
  shows "word_at m (ppa_pos i j) = Inr (le_ppa (es ! j))"
  using assms by (simp add: word_at_def leaf_ok_def)

lemma leaf_ok_frame:
  assumes "leaf_ok m i es" "\<And>j. j < 8 \<Longrightarrow> m' ! hw i j = m ! hw i j \<and> m' ! pw i j = m ! pw i j"
  shows "leaf_ok m' i es"
proof -
  have "j < 8" if "j < length es" for j using that assms(1) by (simp add: leaf_ok_def)
  then show ?thesis using assms by (simp add: leaf_ok_def)
qed

lemma leaves_ok_update:
  assumes "leaves_ok m ls" "i < 60" "leaf_ok m' i es" "length m' = 1024"
    and "\<And>k. k < 1024 \<Longrightarrow> (\<forall>j < 8. k \<noteq> hw i j \<and> k \<noteq> pw i j) \<Longrightarrow> m' ! k = m ! k"
  shows "leaves_ok m' (ls[i := es])"
proof -
  have "leaf_ok m' i' (ls[i := es] ! i')" if i': "i' < 60" for i'
  proof (cases "i' = i")
    case True
    then show ?thesis using assms by (simp add: leaves_ok_def)
  next
    case False
    have "m' ! hw i' j = m ! hw i' j" "m' ! pw i' j = m ! pw i' j" if "j < 8" for j
      using assms(5) i' that False by auto
    note same = this
    have "leaf_ok m' i' (ls ! i')"
      by (rule leaf_ok_frame [of m]) (use same assms(1) i' in \<open>simp_all add: leaves_ok_def\<close>)
    then show ?thesis using False by simp
  qed
  then show ?thesis using assms by (simp add: leaves_ok_def)
qed

lemma leaves_ok_entries:
  assumes "leaves_ok m ls" "length m' = 1024" "\<And>k. 61 \<le> k \<Longrightarrow> k < 1024 \<Longrightarrow> m' ! k = m ! k"
  shows "leaves_ok m' ls"
proof -
  have "leaf_ok m' i (ls ! i)" if "i < 60" for i
    by (rule leaf_ok_frame [of m]) (use assms that in \<open>simp_all add: leaves_ok_def\<close>)
  then show ?thesis using assms by (simp add: leaves_ok_def)
qed

section \<open>Searching\<close>

lemma keys_ok_entry:
  assumes "keys_ok m ks" "length m = 1024" "i < length ks"
  shows "word_at m (entry_pos i) = Inr (ks ! i)"
  using assms by (simp add: word_at_def keys_ok_def)

lemma lower_bound_loop_spec:
  assumes "keys_ok m ks" "length m = 1024" "sorted ks"
  shows "0 \<le> left \<Longrightarrow> left \<le> right + 1 \<Longrightarrow> right < int (length ks) \<Longrightarrow>
    (\<And>i. int i < left \<Longrightarrow> ks ! i < h) \<Longrightarrow> (\<And>i. right < int i \<Longrightarrow> i < length ks \<Longrightarrow> h \<le> ks ! i) \<Longrightarrow>
    \<exists>i \<le> length ks. lower_bound_loop m h left right = Inr (int i) \<and> (\<forall>i' < i. ks ! i' < h) \<and>
      (\<forall>i'. i \<le> i' \<and> i' < length ks \<longrightarrow> h \<le> ks ! i')"
proof (induction "nat (right - left + 1)" arbitrary: left right rule: less_induct)
  case less
  show ?case
  proof (cases "left \<le> right")
    case False
    then have "right = left - 1" using less.prems by simp
    then show ?thesis
      using less.prems by (intro exI [of _ "nat left"]) (auto simp: lower_bound_loop.simps)
  next
    case True
    define mid where "mid = left + (right - left) div 2"
    have mid: "left \<le> mid" "mid \<le> right" using True by (auto simp: mid_def)
    define k where "k = nat mid"
    have k: "mid = int k" "k < length ks" using mid less.prems by (simp_all add: k_def)
    have step: "lower_bound_loop m h left right = (if ks ! k < h then lower_bound_loop m h (mid + 1) right
        else lower_bound_loop m h left (mid - 1))"
      using True k keys_ok_entry [OF assms(1,2)] by (subst lower_bound_loop.simps) (simp flip: mid_def)
    show ?thesis
    proof (cases "ks ! k < h")
      case True
      have "ks ! i < h" if "int i < mid + 1" for i
        using True that k sorted_nth_mono [OF assms(3), of i k] by (simp add: order_le_less_trans)
      then show ?thesis using less.hyps [of right "mid + 1"] less.prems mid k step True by simp
    next
      case False
      have "h \<le> ks ! i" if "mid - 1 < int i" "i < length ks" for i
        using False that k sorted_nth_mono [OF assms(3), of k i] by (simp add: order_trans [of h "ks ! k"])
      then show ?thesis using less.hyps [of "mid - 1" left] less.prems mid k step False by simp
    qed
  qed
qed

lemma sint_cnt: "0 < n \<Longrightarrow> n \<le> 60 \<Longrightarrow> sint (word_of_nat n - 1 :: u32) = int n - 1"
proof -
  assume n: "0 < n" "n \<le> 60"
  have "(word_of_nat n - 1 :: u32) = word_of_int (int n - 1)" by simp
  then show ?thesis using n sint_of_int_small [of "int n - 1"] by simp
qed

lemma lower_bound_spec:
  assumes "table_ok m ks ls"
  obtains i where "lower_bound m h = Inr i" "goes_to ks h i"
proof -
  have ok: "keys_ok m ks" "length m = 1024" "sorted ks" "last ks = UINT_MAX"
    using assms by (auto simp: table_ok_def leaves_ok_def routed_def)
  have ks: "ks \<noteq> []" "length ks \<le> 60" "m ! 0 = word_of_nat (length ks)" using ok(1) by (auto simp: keys_ok_def)
  obtain i where i: "i \<le> length ks" "lower_bound_loop m h 0 (int (length ks) - 1) = Inr (int i)"
    "\<forall>i' < i. ks ! i' < h" "\<forall>i'. i \<le> i' \<and> i' < length ks \<longrightarrow> h \<le> ks ! i'"
    using lower_bound_loop_spec [OF ok(1-3), of 0 "int (length ks) - 1" h] by auto
  have "i \<noteq> length ks"
  proof
    assume "i = length ks"
    then have "last ks < h" using i(3) ks(1) by (simp add: last_conv_nth)
    then show False using ok(4) by simp
  qed
  then have "i < length ks" using i(1) by simp
  moreover have "lower_bound m h = Inr i"
    using i ks ok sint_cnt [of "length ks"] by (simp add: lower_bound_def word_at_def)
  ultimately show ?thesis using i that by (simp add: goes_to_def)
qed

text \<open>The byte position of a slot, as \<^verbatim>\<open>twolevel_find\<close> reports it.\<close>

definition slot_pos :: "nat \<Rightarrow> nat \<Rightarrow> u32" where
  "slot_pos i j = word_of_nat (ppa_pos i j)"

lemma upt_8_Cons: "j < 8 \<Longrightarrow> [j..<8] = j # [Suc j..<8]"
  by (rule upt_conv_Cons)

lemma find_loop_hit:
  assumes "length m = 1024" "leaf_ok m i es" "i < 60" "k < length es" "distinct (map le_hidx es)"
  shows "j \<le> k \<Longrightarrow> find_loop m (le_hidx (es ! k)) i [j..<8] = Inr (Some (le_ppa (es ! k), slot_pos i k))"
proof (induction "8 - j" arbitrary: j)
  case 0
  then show ?case using assms by (simp add: leaf_ok_def)
next
  case (Suc n j)
  then have j: "j < 8" by simp
  show ?case
  proof (cases "j = k")
    case True
    then show ?thesis
      using j assms leaf_hidx [OF assms(1,2,3) j] leaf_ppa [OF assms(1-4)]
      by (simp add: upt_8_Cons slot_pos_def ppa_pos_def leaf_pos_def mult.commute)
  next
    case False
    then have "le_hidx (es ! j) \<noteq> le_hidx (es ! k)" "le_hidx (es ! j) \<noteq> UINT_MAX"
      using Suc.prems assms by (auto simp: distinct_conv_nth leaf_ok_def)
    then show ?thesis
      using Suc False j assms leaf_hidx [OF assms(1,2,3) j] by (simp add: upt_8_Cons)
  qed
qed

lemma find_loop_miss:
  assumes "length m = 1024" "leaf_ok m i es" "i < 60" "h \<notin> le_hidx ` set es" "h \<noteq> UINT_MAX"
  shows "find_loop m h i [j..<8] = Inr None"
proof (induction "8 - j" arbitrary: j)
  case 0
  then show ?case by simp
next
  case (Suc n j)
  then have j: "j < 8" by simp
  have "j < length es \<Longrightarrow> le_hidx (es ! j) \<noteq> h" using assms(4) by (metis image_eqI nth_mem)
  then show ?case
    using Suc j assms leaf_hidx [OF assms(1,2,3) j] by (simp add: upt_8_Cons)
qed

lemma goes_to_unique: "goes_to ks h i \<Longrightarrow> goes_to ks h i' \<Longrightarrow> i = i'"
  unfolding goes_to_def by (metis linorder_neqE_nat not_less)

lemma routed_leaf:
  assumes "table_ok m ks ls" "e \<in> set (ls ! i)" "i < 60"
  shows "goes_to ks (le_hidx e) i"
  using assms by (auto simp: table_ok_def routed_def leaves_ok_def)

lemma distinct_leaf: "distinct (map f (concat ls)) \<Longrightarrow> es \<in> set ls \<Longrightarrow> distinct (map f es)"
  by (induction ls) auto

lemma leaf_in_concat: "i < length ls \<Longrightarrow> e \<in> set (ls ! i) \<Longrightarrow> e \<in> set (concat ls)"
  by (auto intro: nth_mem)

lemma table_okD:
  assumes "table_ok m ks ls"
  shows "length m = 1024" "length ls = 60" "length ks \<le> 60" "0 < length ks" "m ! 0 = word_of_nat (length ks)"
    "i < 60 \<Longrightarrow> leaf_ok m i (ls ! i)" "i < 60 \<Longrightarrow> distinct (map le_hidx (ls ! i))"
proof -
  show *: "length m = 1024" "length ls = 60" "length ks \<le> 60" "0 < length ks" "m ! 0 = word_of_nat (length ks)"
    "i < 60 \<Longrightarrow> leaf_ok m i (ls ! i)"
    using assms by (auto simp: table_ok_def leaves_ok_def keys_ok_def)
  assume i: "i < 60"
  have "distinct (map le_hidx (concat ls))" using assms by (auto simp: table_ok_def routed_def)
  then show "distinct (map le_hidx (ls ! i))" using i *(2) distinct_leaf [of le_hidx ls "ls ! i"] by simp
qed

lemma unat_cnt: "n \<le> 60 \<Longrightarrow> unat (word_of_nat n :: u32) = n"
  by (simp add: unat_of_nat take_bit_nat_eq_self)

lemma twolevel_find_hit:
  assumes ok: "table_ok m ks ls" and e: "i < 60" "j < length (ls ! i)"
  shows "twolevel_find m (le_hidx (ls ! i ! j)) = Inr (le_ppa (ls ! i ! j), Some (slot_pos i j))"
proof -
  let ?h = "le_hidx (ls ! i ! j)"
  have i: "goes_to ks ?h i" using routed_leaf [OF ok _ e(1)] e(2) by simp
  then have "lower_bound m ?h = Inr i" using lower_bound_spec [OF ok] goes_to_unique by metis
  then show ?thesis
    using i find_loop_hit [OF table_okD(1) [OF ok] table_okD(6) [OF ok e(1)] e table_okD(7) [OF ok e(1)], of 0]
      table_okD [OF ok] by (simp add: twolevel_find_def word_at_def unat_cnt goes_to_def)
qed

lemma twolevel_find_miss:
  assumes ok: "table_ok m ks ls" and h: "h \<notin> le_hidx ` set (concat ls)" "h \<noteq> UINT_MAX"
  shows "twolevel_find m h = Inr (UINT_MAX, None)"
proof -
  obtain i where lb: "lower_bound m h = Inr i" "i < length ks"
    using lower_bound_spec [OF ok] goes_to_def by metis
  then have i: "i < 60" "i < length ls" using table_okD [OF ok] by auto
  then have "h \<notin> le_hidx ` set (ls ! i)" using h(1) leaf_in_concat [OF i(2)] by blast
  then show ?thesis
    using lb find_loop_miss [OF table_okD(1) [OF ok] table_okD(6) [OF ok i(1)] i(1) _ h(2), of 0]
      table_okD [OF ok] by (simp add: twolevel_find_def word_at_def unat_cnt)
qed

section \<open>Inserting a new index\<close>

lemma fill_loop_spec:
  assumes "length m = 1024" "leaf_ok m i es" "i < 60" "length es < 8"
  shows "j \<le> length es \<Longrightarrow>
    fill_loop m i h p [j..<8] = Inr (m[hw i (length es) := h, pw i (length es) := p])"
proof (induction "8 - j" arbitrary: j)
  case 0
  then show ?case using assms by simp
next
  case (Suc n j)
  then have j: "j < 8" by simp
  show ?case
  proof (cases "j = length es")
    case True
    then show ?thesis
      using j assms leaf_hidx [OF assms(1,2,3) j] by (simp add: upt_8_Cons set_word_at_def)
  next
    case False
    then have "le_hidx (es ! j) \<noteq> UINT_MAX" using Suc.prems assms by (auto simp: leaf_ok_def)
    then show ?thesis
      using Suc False j assms leaf_hidx [OF assms(1,2,3) j] by (simp add: upt_8_Cons)
  qed
qed

lemma leaf_ok_append:
  assumes "length m = 1024" "leaf_ok m i es" "i < 60" "length es < 8" "le_hidx e \<noteq> UINT_MAX"
  shows "leaf_ok (m[hw i (length es) := le_hidx e, pw i (length es) := le_ppa e]) i (es @ [e])"
proof -
  let ?m = "m[hw i (length es) := le_hidx e, pw i (length es) := le_ppa e]"
  have "?m ! hw i j = le_hidx ((es @ [e]) ! j) \<and> ?m ! pw i j = le_ppa ((es @ [e]) ! j)" if "j < length (es @ [e])" for j
    using that assms by (auto simp: nth_list_update nth_append leaf_ok_def less_Suc_eq)
  moreover have "?m ! hw i j = UINT_MAX" if "length (es @ [e]) \<le> j \<and> j < 8" for j
    using that assms by (auto simp: nth_list_update leaf_ok_def)
  ultimately show ?thesis using assms by (auto simp: leaf_ok_def)
qed

lemma leaves_ok_append:
  assumes "leaves_ok m ls" "i < 60" "length (ls ! i) < 8" "le_hidx e \<noteq> UINT_MAX"
  shows "leaves_ok (m[hw i (length (ls ! i)) := le_hidx e, pw i (length (ls ! i)) := le_ppa e]) (ls[i := ls ! i @ [e]])"
  using assms leaf_ok_append [of m i "ls ! i" e]
  by (intro leaves_ok_update [of m]) (auto simp: leaves_ok_def nth_list_update)

lemma mset_concat_append:
  "i < length ls \<Longrightarrow> mset (concat (ls[i := ls ! i @ [e]])) = add_mset e (mset (concat ls))"
  by (induction ls arbitrary: i) (auto split: nat.split)

lemma distinct_concat_append:
  assumes "i < length ls" "distinct (map f (concat ls))" "f e \<notin> f ` set (concat ls)"
  shows "distinct (map f (concat (ls[i := ls ! i @ [e]])))"
proof -
  have "mset (map f (concat (ls[i := ls ! i @ [e]]))) = mset (f e # map f (concat ls))"
    unfolding mset_map mset_concat_append [OF assms(1)] by simp
  moreover have "distinct (f e # map f (concat ls))" using assms by auto
  ultimately show ?thesis by (metis mset_eq_imp_distinct_iff)
qed

lemma routed_append:
  assumes "routed ks ls" "goes_to ks (le_hidx e) i" "i < length ls"
    "le_hidx e \<notin> le_hidx ` set (concat ls)" "i < length ks - 1 \<Longrightarrow> ks ! i \<noteq> UINT_MAX"
  shows "routed ks (ls[i := ls ! i @ [e]])"
  unfolding routed_def
proof (intro conjI allI impI ballI)
  show "distinct (map le_hidx (concat (ls[i := ls ! i @ [e]])))"
    using assms by (intro distinct_concat_append) (auto simp: routed_def)
qed (use assms in \<open>auto simp: routed_def nth_list_update split: if_splits\<close>)

text \<open>The first entry of a leaf whose key is still \<^verbatim>\<open>UINT_MAX\<close> becomes the key.\<close>

lemma routed_new_key:
  assumes "routed ks ls" "goes_to ks h i" "i < length ks - 1" "ks ! i = UINT_MAX" "length ks \<le> length ls" "h \<noteq> UINT_MAX"
  shows "routed (ks[i := h]) ls" "goes_to (ks[i := h]) h i"
proof -
  have sorted: "sorted ks" and last: "last ks = UINT_MAX" using assms by (auto simp: routed_def)
  have max: "ks ! k = UINT_MAX" if "i \<le> k" "k < length ks" for k
    using sorted_nth_mono [OF sorted that] assms(4) by (simp add: antisym)
  have empty: "ls ! k = []" if "i \<le> k" "k < length ls" for k
  proof (cases "k = i")
    case False
    then have "goes_to ks h' k \<Longrightarrow> ks ! i < h'" for h' using that by (simp add: goes_to_def)
    then have "\<not> goes_to ks h' k" for h' using assms(4) by fastforce
    then show ?thesis using assms(1) that by (force simp: routed_def)
  qed (use assms in \<open>auto simp: routed_def\<close>)
  have "ks[i := h] ! k \<le> ks[i := h] ! l" if "k \<le> l" "l < length ks" for k l
    using that max [of l] sorted_nth_mono [OF sorted that] assms(2,3)
    by (auto simp: nth_list_update goes_to_def intro: less_imp_le)
  then have "sorted (ks[i := h])" by (simp add: sorted_iff_nth_mono)
  moreover have "last (ks[i := h]) = UINT_MAX" using last assms(3) by (cases "ks = []") (auto simp: last_list_update)
  moreover have "goes_to (ks[i := h]) (le_hidx e) k" if "k < length ls" "e \<in> set (ls ! k)" for k e
  proof -
    have "k < i" using empty that by (metis empty_iff list.set(1) not_less)
    then show ?thesis using assms(1) that by (auto simp: routed_def goes_to_def nth_list_update)
  qed
  ultimately show "routed (ks[i := h]) ls"
    using assms empty by (auto simp: routed_def nth_list_update)
  show "goes_to (ks[i := h]) h i" using assms by (auto simp: goes_to_def)
qed

lemma keys_ok_frame:
  assumes "keys_ok m ks" "\<And>k. k < 61 \<Longrightarrow> m' ! k = m ! k"
  shows "keys_ok m' ks"
  using assms by (simp add: keys_ok_def)

lemma keys_ok_set:
  assumes "keys_ok m ks" "length m = 1024" "i < length ks"
  shows "keys_ok (m[Suc i := h]) (ks[i := h])"
  using assms by (auto simp: keys_ok_def nth_list_update)

lemma table_ok_append:
  assumes ok: "table_ok m ks ls" and e: "goes_to ks (le_hidx e) i" "length (ls ! i) < 8" "le_hidx e \<noteq> UINT_MAX"
    "le_hidx e \<notin> le_hidx ` set (concat ls)" "i < length ks - 1 \<Longrightarrow> ks ! i \<noteq> UINT_MAX"
  shows "table_ok (m[hw i (length (ls ! i)) := le_hidx e, pw i (length (ls ! i)) := le_ppa e]) ks (ls[i := ls ! i @ [e]])"
proof -
  have i: "i < 60" using e(1) table_okD [OF ok] by (simp add: goes_to_def)
  have "k < 61 \<Longrightarrow> m[hw i l := x, pw i l := y] ! k = m ! k" for k l x y
    by (cases k) (simp_all add: nth_list_update)
  then show ?thesis
    using ok e i leaves_ok_append [OF _ i e(2,3)] routed_append [OF _ e(1) _ e(4,5)] table_okD [OF ok]
    by (auto simp: table_ok_def intro: keys_ok_frame)
qed

lemma cnt_last:
  assumes "0 < n" "n \<le> 60" "i \<le> 60"
  shows "(word_of_nat i :: u32) = word_of_nat n - 1 \<longleftrightarrow> i = n - 1"
proof -
  have "(word_of_nat n - 1 :: u32) = word_of_nat (n - 1)" using assms(1) by (simp add: of_nat_diff)
  moreover have "(word_of_nat i :: u32) = word_of_nat (n - 1) \<longleftrightarrow> i = n - 1"
    using unat_cnt [of i] unat_cnt [of "n - 1"] assms by (metis diff_le_self order_trans)
  ultimately show ?thesis by simp
qed

lemma insert_new_fits:
  assumes ok: "table_ok (tl_page st) ks ls" and i: "goes_to ks h i" "length (ls ! i) < 8"
    and h: "h \<noteq> UINT_MAX" "h \<notin> le_hidx ` set (concat ls)"
  obtains m ks' where "insert_new reload st h p = Inr (st\<lparr>tl_cached_cnt := tl_cached_cnt st + 1, tl_page := m\<rparr>)"
    "table_ok m ks' (ls[i := ls ! i @ [\<lparr>le_hidx = h, le_ppa = p\<rparr>]])" "length ks' = length ks"
    "(\<forall>k < length ks - 1. ks ! k \<noteq> UINT_MAX) \<Longrightarrow> ks' = ks"
proof -
  let ?m = "tl_page st" and ?e = "\<lparr>le_hidx = h, le_ppa = p\<rparr>"
  define ks' where "ks' = (if i < length ks - 1 \<and> ks ! i = UINT_MAX then ks[i := h] else ks)"
  define m1 where "m1 = (if i < length ks - 1 \<and> ks ! i = UINT_MAX then ?m[Suc i := h] else ?m)"
  have i60: "i < 60" "i < length ks" using i(1) table_okD [OF ok] by (simp_all add: goes_to_def)
  have lb: "lower_bound ?m h = Inr i" using lower_bound_spec [OF ok] goes_to_unique [OF i(1)] by metis
  have m1: "length m1 = 1024" "k \<noteq> Suc i \<Longrightarrow> m1 ! k = ?m ! k" for k
    using table_okD [OF ok] by (simp_all add: m1_def)
  have routed: "routed ks ls" using ok by (simp add: table_ok_def)
  have ok1: "table_ok m1 ks' ls" "goes_to ks' h i" "i < length ks' - 1 \<Longrightarrow> ks' ! i \<noteq> UINT_MAX"
  proof -
    have "leaves_ok m1 ls"
      by (rule leaves_ok_entries [of ?m]) (use ok m1 i60 in \<open>auto simp: table_ok_def\<close>)
    moreover have "keys_ok m1 ks'"
      using ok i60 keys_ok_set [of ?m ks i h] table_okD [OF ok] by (simp add: m1_def ks'_def table_ok_def)
    moreover have "routed ks' ls" and g: "goes_to ks' h i"
      using routed i routed_new_key [OF routed i(1) _ _ _ h(1)] table_okD [OF ok] by (auto simp: ks'_def)
    ultimately show "table_ok m1 ks' ls" "goes_to ks' h i" "i < length ks' - 1 \<Longrightarrow> ks' ! i \<noteq> UINT_MAX"
      using h i60 by (auto simp: table_ok_def ks'_def split: if_splits)
  qed
  have last: "word_at ?m (hidx_pos i 7) = Inr UINT_MAX"
    using leaf_hidx [OF table_okD(1) [OF ok] table_okD(6) [OF ok i60(1)] i60(1), of 7] i(2) by simp
  have cnt: "word_at ?m 0 = Inr (word_of_nat (length ks))" using table_okD [OF ok] by (simp add: word_at_def)
  have neq: "(word_of_nat i :: u32) \<noteq> word_of_nat (length ks) - 1 \<longleftrightarrow> i < length ks - 1"
    using cnt_last [of "length ks" i] table_okD [OF ok] i60 by auto
  have key: "word_at ?m (entry_pos i) = Inr (ks ! i)" "?m ! Suc i = ks ! i"
    using keys_ok_entry [of ?m ks i] ok i60 by (auto simp: table_ok_def leaves_ok_def keys_ok_def)
  have "raise_key ?m i h = Inr m1"
  proof -
    have "?m[Suc i := h] = ?m" if "ks ! i \<le> h"
      using that i(1) key(2) by (metis antisym goes_to_def list_update_id)
    then show ?thesis
      using neq key i60 table_okD [OF ok] cnt by (auto simp: raise_key_def set_word_at_def m1_def)
  qed
  moreover have "fill_loop m1 i h p [0..<8] = Inr (m1[hw i (length (ls ! i)) := h, pw i (length (ls ! i)) := p])"
    using fill_loop_spec [OF m1(1) table_okD(6) [OF ok1(1) i60(1)] i60(1) i(2), of 0] by simp
  ultimately have "insert_new reload st h p = Inr (st\<lparr>tl_cached_cnt := tl_cached_cnt st + 1,
      tl_page := m1[hw i (length (ls ! i)) := h, pw i (length (ls ! i)) := p]\<rparr>)"
    using lb last by (simp add: insert_new_def Let_def)
  moreover have "table_ok (m1[hw i (length (ls ! i)) := h, pw i (length (ls ! i)) := p]) ks' (ls[i := ls ! i @ [?e]])"
    using table_ok_append [OF ok1(1), of ?e i] ok1 i(2) h by simp
  moreover have "ks' = ks" if "\<forall>k < length ks - 1. ks ! k \<noteq> UINT_MAX" using that by (auto simp: ks'_def)
  ultimately show ?thesis using that by (auto simp: ks'_def)
qed

section \<open>Reloading\<close>

lemma leaf_e_eta [simp]: "\<lparr>le_hidx = le_hidx e, le_ppa = le_ppa e\<rparr> = e"
  by (cases e) simp

lemma reload_leaf_from:
  assumes "i < 60" "length es \<le> 8" "\<forall>e \<in> set es. le_hidx e \<noteq> UINT_MAX"
  shows "length m = 1024 \<Longrightarrow> j \<le> length es \<Longrightarrow> length acc + length es \<le> 480 + j \<Longrightarrow>
    (\<forall>k. j \<le> k \<and> k < length es \<longrightarrow> m ! hw i k = le_hidx (es ! k) \<and> m ! pw i k = le_ppa (es ! k)) \<Longrightarrow>
    (\<forall>k. length es \<le> k \<and> k < 8 \<longrightarrow> m ! hw i k = UINT_MAX) \<Longrightarrow>
    \<exists>m'. reload_leaf m i acc [j..<8] = Inr (m', acc @ drop j es) \<and> length m' = 1024
      \<and> (\<forall>k. j \<le> k \<and> k < 8 \<longrightarrow> m' ! hw i k = UINT_MAX) \<and> (\<forall>k < j. m' ! hw i k = m ! hw i k)
      \<and> (\<forall>w. (\<forall>k < 8. w \<noteq> hw i k \<and> w \<noteq> pw i k) \<longrightarrow> m' ! w = m ! w)"
proof (induction "8 - j" arbitrary: j m acc)
  case 0
  then show ?case using assms by auto
next
  case (Suc n j m acc)
  then have j: "j < 8" and n: "n = 8 - Suc j" by simp_all
  have h: "word_at m (hidx_pos i j) = Inr (m ! hw i j)" using j assms Suc.prems by (simp add: word_at_def)
  show ?case
  proof (cases "j < length es")
    case False
    then have "m ! hw i j = UINT_MAX" using Suc.prems j by simp
    then show ?thesis using False h Suc.prems j by (intro exI [of _ m]) (auto simp: upt_8_Cons)
  next
    case True
    let ?m = "m[hw i j := UINT_MAX, pw i j := UINT_MAX]"
    have e: "m ! hw i j = le_hidx (es ! j)" "m ! pw i j = le_ppa (es ! j)" "le_hidx (es ! j) \<noteq> UINT_MAX"
      using True Suc.prems assms by auto
    have unroll: "reload_leaf m i acc [j..<8] = reload_leaf ?m i (acc @ [es ! j]) [Suc j..<8]"
      using e h True Suc.prems j assms by (simp add: upt_8_Cons word_at_def set_word_at_def)
    obtain m' where m': "reload_leaf ?m i (acc @ [es ! j]) [Suc j..<8] = Inr (m', (acc @ [es ! j]) @ drop (Suc j) es)"
      "length m' = 1024" "\<forall>k. Suc j \<le> k \<and> k < 8 \<longrightarrow> m' ! hw i k = UINT_MAX" "\<forall>k < Suc j. m' ! hw i k = ?m ! hw i k"
      "\<forall>w. (\<forall>k < 8. w \<noteq> hw i k \<and> w \<noteq> pw i k) \<longrightarrow> m' ! w = ?m ! w"
      using Suc.hyps(1) [OF n, of ?m "acc @ [es ! j]"] Suc.prems True assms j
      by (auto simp: nth_list_update)
    have "(acc @ [es ! j]) @ drop (Suc j) es = acc @ drop j es" using True by (simp add: Cons_nth_drop_Suc)
    moreover have "m' ! hw i k = UINT_MAX" if "j \<le> k \<and> k < 8" for k
      using that m'(3,4) Suc.prems j assms by (cases "k = j") (auto simp: nth_list_update)
    moreover have "m' ! hw i k = m ! hw i k" if "k < j" for k
      using that m'(4) j by (simp add: nth_list_update)
    moreover have "m' ! w = m ! w" if "\<forall>k < 8. w \<noteq> hw i k \<and> w \<noteq> pw i k" for w
      using that m'(5) j by (auto simp: nth_list_update)
    ultimately show ?thesis using m'(1,2) unroll by (intro exI [of _ m']) simp
  qed
qed

lemma reload_leaf_spec:
  assumes "leaves_ok m ls" "i < 60" "length acc + length (ls ! i) \<le> 480"
  obtains m' where "reload_leaf m i acc [0..<8] = Inr (m', acc @ ls ! i)" "leaves_ok m' (ls[i := []])"
    "\<And>k. k < 61 \<Longrightarrow> m' ! k = m ! k"
proof -
  have ok: "leaf_ok m i (ls ! i)" "length m = 1024" using assms by (auto simp: leaves_ok_def)
  obtain m' where m': "reload_leaf m i acc [0..<8] = Inr (m', acc @ ls ! i)" "length m' = 1024"
      "\<forall>k. k < 8 \<longrightarrow> m' ! hw i k = UINT_MAX"
      "\<forall>w. (\<forall>k < 8. w \<noteq> hw i k \<and> w \<noteq> pw i k) \<longrightarrow> m' ! w = m ! w"
    using reload_leaf_from [of i "ls ! i" m 0 acc] ok assms by (auto simp: leaf_ok_def)
  have "leaves_ok m' (ls[i := []])"
    by (rule leaves_ok_update [OF assms(1,2) _ m'(2)]) (use m' in \<open>auto simp: leaf_ok_def\<close>)
  moreover have "m' ! k = m ! k" if "k < 61" for k
    using m'(4) that by (cases k) auto
  ultimately show ?thesis using m'(1) that by blast
qed

lemma reload_leaves_spec:
  "leaves_ok m ls \<Longrightarrow> distinct is \<Longrightarrow> set is \<subseteq> {..<60} \<Longrightarrow>
    length acc + length (concat (map ((!) ls) is)) \<le> 480 \<Longrightarrow>
    \<exists>m' ls'. reload_leaves m acc is = Inr (m', acc @ concat (map ((!) ls) is)) \<and> leaves_ok m' ls'
      \<and> (\<forall>i < 60. ls' ! i = (if i \<in> set is then [] else ls ! i)) \<and> (\<forall>k < 61. m' ! k = m ! k)"
proof (induction "is" arbitrary: m ls acc)
  case Nil
  then show ?case by auto
next
  case (Cons i "is")
  obtain m1 where m1: "reload_leaf m i acc [0..<8] = Inr (m1, acc @ ls ! i)" "leaves_ok m1 (ls[i := []])"
    "\<And>k. k < 61 \<Longrightarrow> m1 ! k = m ! k"
    using reload_leaf_spec [OF Cons.prems(1), of i acc] Cons.prems by auto
  have same: "map ((!) (ls[i := []])) is = map ((!) ls) is" using Cons.prems(2) by (auto intro!: nth_list_update_neq)
  obtain m' ls' where m': "reload_leaves m1 (acc @ ls ! i) is = Inr (m', (acc @ ls ! i) @ concat (map ((!) ls) is))"
    "leaves_ok m' ls'" "\<forall>k < 60. ls' ! k = (if k \<in> set is then [] else ls[i := []] ! k)" "\<forall>k < 61. m' ! k = m1 ! k"
    using Cons.IH [OF m1(2), of "acc @ ls ! i"] Cons.prems unfolding same by auto
  have "\<forall>k < 60. ls' ! k = (if k \<in> set (i # is) then [] else ls ! k)"
    using m'(3) Cons.prems(1) by (auto simp: leaves_ok_def nth_list_update)
  then show ?case using m1 m' by (intro exI [of _ m'] exI [of _ ls']) simp
qed

subsection \<open>The new root keys\<close>

text \<open>
  \<^verbatim>\<open>__new_roots\<close> deals \<open>n\<close> sorted entries to \<open>c\<close> leaves: the first \<open>n mod c\<close> leaves take one more than
  \<open>n div c\<close>.  \<open>start n c i\<close> is the index of the first entry of leaf \<open>i\<close>.
\<close>

definition start :: "nat \<Rightarrow> nat \<Rightarrow> nat \<Rightarrow> nat" where
  "start n c i = i * (n div c) + min i (n mod c)"

definition chunk_keys :: "leaf_e list \<Rightarrow> nat \<Rightarrow> u32 list" where
  "chunk_keys es c = map (\<lambda>i. if i = c - 1 then UINT_MAX else le_hidx (es ! (start (length es) c (Suc i) - 1))) [0..<c]"

lemma start_0 [simp]: "start n c 0 = 0"
  by (simp add: start_def)

lemma start_Suc: "start n c (Suc i) = start n c i + n div c + (if i < n mod c then 1 else 0)"
  by (simp add: start_def)

lemma start_end: "0 < c \<Longrightarrow> start n c c = n"
  by (simp add: start_def min_absorb2 less_imp_le)

lemma start_mono: "i \<le> j \<Longrightarrow> start n c i \<le> start n c j"
  by (rule lift_Suc_mono_le) (simp_all add: start_Suc)

lemma start_pos: "0 < n \<Longrightarrow> 0 < c \<Longrightarrow> 0 < start n c (Suc i)"
  by (cases "n div c = 0") (auto simp: start_def div_eq_0_iff)

lemma start_width:
  assumes "0 < c" "n \<le> 8 * c"
  shows "start n c (Suc i) \<le> start n c i + 8"
proof (cases "n div c < 8")
  case False
  have "n = c * (n div c) + n mod c" by simp
  moreover have "c * 8 \<le> c * (n div c)" using False by simp
  ultimately have "n mod c = 0" "c * (n div c) \<le> 8 * c" using assms by linarith+
  then show ?thesis using assms by (simp add: start_Suc)
qed (simp add: start_Suc)

lemma chunk_ex:
  assumes "0 < c" "t < n"
  obtains i where "i < c" "start n c i \<le> t" "t < start n c (Suc i)"
proof -
  have "\<exists>i < c. start n c i \<le> t \<and> t < start n c (Suc i)"
  proof -
    define i where "i = (LEAST i. t < start n c (Suc i))"
    have ex: "t < start n c (Suc (c - 1))" using assms start_end [of c n] by simp
    then have 1: "t < start n c (Suc i)" "i \<le> c - 1" unfolding i_def by (rule LeastI, rule Least_le)
    have "start n c i \<le> t"
    proof (cases i)
      case (Suc k)
      then have "\<not> t < start n c (Suc k)" unfolding i_def by (metis lessI not_less_Least)
      then show ?thesis using Suc by simp
    qed simp
    then show ?thesis using 1 assms(1) by (intro exI [of _ i]) auto
  qed
  then show ?thesis using that by blast
qed

lemma new_roots_loop_spec:
  assumes "0 < length es" "0 < c"
  shows "i + r = c \<Longrightarrow>
    new_roots_loop es (int (length es div c)) (int (length es mod c) - int (min i (length es mod c)))
      (int (start (length es) c i)) r = Inr (drop i (chunk_keys es c))"
proof (induction r arbitrary: i)
  case 0
  then show ?case by (simp add: chunk_keys_def)
next
  case (Suc r i)
  let ?n = "length es"
  have i: "i < c" using Suc.prems by simp
  have pos: "0 < start ?n c (Suc i)" "i < c - 1 \<Longrightarrow> start ?n c (Suc i) \<le> ?n"
    using start_pos [OF assms] start_mono [of "Suc i" c ?n c] start_end [OF assms(2)] by auto
  have nth: "drop i (chunk_keys es c) = (if r = 0 then UINT_MAX else le_hidx (es ! (start ?n c (Suc i) - 1))) # drop (Suc i) (chunk_keys es c)"
    using i Suc.prems by (subst Cons_nth_drop_Suc [symmetric]) (auto simp: chunk_keys_def)
  define X where "X = start ?n c (Suc i) - 1"
  have X: "int (start ?n c (Suc i)) = int X + 1" using pos(1) by (simp add: X_def)
  have key: "int (start ?n c i) + (int (?n div c) - 1) + (if i < ?n mod c then 1 else 0) = int X"
    using X start_Suc [of ?n c i] by (auto split: if_splits)
  have IH: "new_roots_loop es (int (?n div c)) (int (?n mod c) - int (min (Suc i) (?n mod c))) (int X + 1) r
      = Inr (drop (Suc i) (chunk_keys es c))"
    using Suc.IH [of "Suc i"] Suc.prems unfolding X by simp
  have "new_roots_loop es (int (?n div c)) (int (?n mod c) - int (min i (?n mod c))) (int (start ?n c i)) (Suc r)
     = bindR (if r = 0 then Inr UINT_MAX else if int X < int ?n then Inr (le_hidx (es ! X)) else Inl Out_of_bounds) (\<lambda>k.
       bindR (new_roots_loop es (int (?n div c)) (int (?n mod c) - int (min (Suc i) (?n mod c))) (int X + 1) r) (\<lambda>ks.
       Inr (k # ks)))"
  proof (cases "i < ?n mod c")
    case True
    then have "int (start ?n c i) + (int (?n div c) - 1) + 1 = int X"
      "int (?n mod c) - int (min i (?n mod c)) - 1 = int (?n mod c) - int (min (Suc i) (?n mod c))" using key by auto
    then show ?thesis using True unfolding new_roots_loop.simps Let_def by (simp add: algebra_simps)
  next
    case False
    then have "int (start ?n c i) + (int (?n div c) - 1) = int X"
      "int (?n mod c) - int (min i (?n mod c)) = int (?n mod c) - int (min (Suc i) (?n mod c))" using key by auto
    then show ?thesis using False unfolding new_roots_loop.simps Let_def by simp
  qed
  moreover have "r \<noteq> 0 \<Longrightarrow> X < ?n" using pos Suc.prems by (auto simp: X_def)
  ultimately show ?case using IH nth by (simp add: X_def)
qed

lemma new_roots_spec:
  assumes "0 < length es" "length es \<le> 480" "0 < c" "c \<le> 60"
  shows "new_roots es (word_of_nat (length es)) (word_of_nat c) = Inr (chunk_keys es c)"
proof -
  have u: "unat (word_of_nat (length es) :: u32) = length es" "unat (word_of_nat c :: u32) = c"
    using assms by (simp_all add: unat_of_nat take_bit_nat_eq_self)
  then have ui: "uint (word_of_nat (length es) :: u32) = int (length es)" "uint (word_of_nat c :: u32) = int c"
    by (metis of_nat_unat)+
  have "uint (word_of_nat (length es) div word_of_nat c :: u32) = int (length es div c)"
    "uint (word_of_nat (length es) mod word_of_nat c :: u32) = int (length es mod c)"
    unfolding uint_div_distrib uint_mod_distrib ui by (simp_all add: zdiv_int zmod_int)
  moreover have "(word_of_nat c :: u32) \<noteq> 0" using u assms(3) by (metis less_irrefl unat_0)
  ultimately show ?thesis
    using new_roots_loop_spec [OF assms(1,3), of 0 c] u ui assms less_imp_le [OF mod_less_divisor [OF assms(3), of "length es"]]
    by (simp add: new_roots_def)
qed

definition ascending :: "leaf_e list \<Rightarrow> bool" where
  "ascending es \<longleftrightarrow> sorted_wrt (\<lambda>a b. le_hidx a < le_hidx b) es \<and> (\<forall>e \<in> set es. le_hidx e \<noteq> UINT_MAX)"

lemma ascending_nth: "ascending es \<Longrightarrow> s < t \<Longrightarrow> t < length es \<Longrightarrow> le_hidx (es ! s) < le_hidx (es ! t)"
  using sorted_wrt_nth_less [of "\<lambda>a b. le_hidx a < le_hidx b" es s t] by (simp add: ascending_def)

lemma ascending_distinct: "ascending es \<Longrightarrow> distinct (map le_hidx es)"
  using strict_sorted_iff [of "map le_hidx es"] by (simp add: ascending_def sorted_wrt_map)

lemma chunk_keys_nth:
  "i < c \<Longrightarrow> chunk_keys es c ! i = (if i = c - 1 then UINT_MAX else le_hidx (es ! (start (length es) c (Suc i) - 1)))"
  by (simp add: chunk_keys_def)

lemma length_chunk_keys [simp]: "length (chunk_keys es c) = c"
  by (simp add: chunk_keys_def)

lemma chunk_last_index:
  assumes "0 < length es" "i < c"
  shows "start (length es) c (Suc i) - 1 < length es"
proof -
  have "start (length es) c (Suc i) \<le> length es"
    using start_mono [of "Suc i" c "length es" c] start_end [of c "length es"] assms by simp
  then show ?thesis using assms(1) by linarith
qed

lemma chunk_goes_to:
  assumes "ascending es" "i < c" "start (length es) c i \<le> t" "t < start (length es) c (Suc i)" "t < length es"
  shows "goes_to (chunk_keys es c) (le_hidx (es ! t)) i"
proof -
  let ?n = "length es"
  have n: "0 < ?n" using assms(5) by linarith
  have "le_hidx (es ! t) \<le> chunk_keys es c ! i"
  proof (cases "t = start ?n c (Suc i) - 1")
    case False
    then have "t < start ?n c (Suc i) - 1" using assms(4) by simp
    then show ?thesis
      using ascending_nth [OF assms(1)] chunk_last_index [OF n assms(2)] assms(2) by (simp add: chunk_keys_nth less_imp_le)
  qed (use assms in \<open>simp add: chunk_keys_nth\<close>)
  moreover have "chunk_keys es c ! k < le_hidx (es ! t)" if "k < i" for k
  proof -
    have "start ?n c (Suc k) - 1 < t"
      using start_mono [of "Suc k" i ?n c] start_pos [OF n, of c k] that assms(2,3) by simp
    then show ?thesis using ascending_nth [OF assms(1)] that assms(2,5) by (simp add: chunk_keys_nth)
  qed
  ultimately show ?thesis using assms(2) by (simp add: goes_to_def)
qed

lemma chunk_keys_sorted:
  assumes "ascending es" "0 < length es"
  shows "sorted (chunk_keys es c)"
  unfolding sorted_iff_nth_mono
proof (intro allI impI)
  fix k l assume kl: "k \<le> l" "l < length (chunk_keys es c)"
  let ?s = "\<lambda>i. start (length es) c (Suc i) - 1"
  have le: "?s k \<le> ?s l" using start_mono [of "Suc k" "Suc l" "length es" c] kl by simp
  have "le_hidx (es ! ?s k) \<le> le_hidx (es ! ?s l)"
    using ascending_nth [OF assms(1), of "?s k" "?s l"] chunk_last_index [OF assms(2), of l c] le kl
    by (cases "?s k = ?s l") auto
  then show "chunk_keys es c ! k \<le> chunk_keys es c ! l" using kl by (auto simp: chunk_keys_nth)
qed

lemma chunk_keys_last: "0 < c \<Longrightarrow> last (chunk_keys es c) = UINT_MAX"
  by (simp add: last_conv_nth chunk_keys_nth flip: length_greater_0_conv)

lemma chunk_keys_not_max:
  assumes "ascending es" "0 < length es" "k < c - 1"
  shows "chunk_keys es c ! k \<noteq> UINT_MAX"
  using assms chunk_last_index [OF assms(2), of k c] by (simp add: chunk_keys_nth ascending_def)

lemma routed_empty:
  assumes "ascending es" "0 < length es" "0 < c" "\<forall>i < length ls. ls ! i = []"
  shows "routed (chunk_keys es c) ls"
proof -
  have "concat ls = []" using assms(4) by (auto simp: in_set_conv_nth)
  then have "distinct (map le_hidx (concat ls))" by (simp only: list.map distinct.simps)
  then show ?thesis
    using assms chunk_keys_sorted [OF assms(1,2)] chunk_keys_last [OF assms(3)] chunk_keys_not_max [OF assms(1,2)]
    by (auto simp: routed_def)
qed

lemma set_entries_spec:
  "length m = 1024 \<Longrightarrow> i + length ks \<le> 60 \<Longrightarrow>
    \<exists>m'. set_entries m i ks = Inr m' \<and> length m' = 1024 \<and> (\<forall>k < length ks. m' ! Suc (i + k) = ks ! k)
      \<and> (\<forall>w. w \<le> i \<or> i + length ks < w \<longrightarrow> m' ! w = m ! w)"
proof (induction ks arbitrary: m i)
  case (Cons k ks m i)
  then obtain m' where m': "set_entries (m[Suc i := k]) (Suc i) ks = Inr m'" "length m' = 1024"
    "\<forall>l < length ks. m' ! Suc (Suc i + l) = ks ! l"
    "\<forall>w. w \<le> Suc i \<or> Suc i + length ks < w \<longrightarrow> m' ! w = m[Suc i := k] ! w"
    using Cons.IH [of "m[Suc i := k]" "Suc i"] by auto
  have "m' ! Suc (i + l) = (k # ks) ! l" if "l < length (k # ks)" for l
    using m'(3,4) that Cons.prems by (cases l) auto
  then show ?case
    using m' Cons.prems by (intro exI [of _ m']) (auto simp: set_word_at_def)
qed simp

subsection \<open>Reinserting\<close>

text \<open>While the entries go back in ascending order, the leaf an entry belongs to is never full.\<close>

lemma chunk_room:
  assumes asc: "ascending es" and c: "0 < c" "length es \<le> 8 * c"
    and ok: "table_ok m (chunk_keys es c) ls" and content: "mset (concat ls) = mset (take t es)" and t: "t < length es"
    and i: "goes_to (chunk_keys es c) (le_hidx (es ! t)) i"
  shows "length (ls ! i) < 8"
proof -
  let ?n = "length es"
  obtain k where k: "k < c" "start ?n c k \<le> t" "t < start ?n c (Suc k)" using chunk_ex [OF c(1) t] .
  have "k = i" using goes_to_unique [OF chunk_goes_to [OF asc k t] i] .
  have i60: "i < 60" "i < length ls" using k(1) \<open>k = i\<close> table_okD [OF ok] by auto
  have "le_hidx ` set (ls ! i) \<subseteq> (\<lambda>s. le_hidx (es ! s)) ` {start ?n c i..<t}"
  proof
    fix h assume "h \<in> le_hidx ` set (ls ! i)"
    then obtain e where e: "h = le_hidx e" "e \<in> set (ls ! i)" by auto
    then have "e \<in> set (take t es)" using content leaf_in_concat [OF i60(2)] by (metis set_mset_mset)
    then obtain s where s: "s < t" "e = es ! s" using t by (auto simp: in_set_conv_nth)
    obtain l where l: "l < c" "start ?n c l \<le> s" "s < start ?n c (Suc l)" using chunk_ex [OF c(1), of s ?n] s t by auto
    have "goes_to (chunk_keys es c) h l" using chunk_goes_to [OF asc l] s t e by simp
    then have "l = i" using goes_to_unique routed_leaf [OF ok e(2) i60(1)] e(1) by metis
    then show "h \<in> (\<lambda>s. le_hidx (es ! s)) ` {start ?n c i..<t}" using s l e by auto
  qed
  then have "card (le_hidx ` set (ls ! i)) \<le> t - start ?n c i"
    using card_mono card_image_le [of "{start ?n c i..<t}" "\<lambda>s. le_hidx (es ! s)"]
    by (metis card_atLeastLessThan finite_atLeastLessThan finite_imageI order_trans)
  moreover have "card (le_hidx ` set (ls ! i)) = length (ls ! i)"
    using distinct_card [OF table_okD(7) [OF ok i60(1)]] by simp
  ultimately show ?thesis using start_width [OF c, of i] k(2,3) unfolding \<open>k = i\<close> by linarith
qed

lemma reinsert_spec:
  assumes asc: "ascending es" and c: "0 < c" "length es \<le> 8 * c"
  shows "t \<le> length es \<Longrightarrow> table_ok (tl_page st) (chunk_keys es c) ls \<Longrightarrow> mset (concat ls) = mset (take t es) \<Longrightarrow>
    \<exists>m ls'. reinsert st (drop t es) = Inr (st\<lparr>tl_page := m, tl_cached_cnt := tl_cached_cnt st + word_of_nat (length es - t)\<rparr>)
      \<and> table_ok m (chunk_keys es c) ls' \<and> mset (concat ls') = mset es"
proof (induction "length es - t" arbitrary: t st ls)
  case 0
  then show ?case by (intro exI [of _ "tl_page st"] exI [of _ ls]) simp
next
  case (Suc n t st ls)
  then have t: "t < length es" and n: "n = length es - Suc t" by simp_all
  let ?e = "es ! t" and ?ks = "chunk_keys es c"
  have len: "0 < length es" using t by linarith
  have ne: "\<forall>k < length ?ks - 1. ?ks ! k \<noteq> UINT_MAX" using chunk_keys_not_max [OF asc len] by simp
  obtain i where i: "goes_to ?ks (le_hidx ?e) i"
    using chunk_ex [OF c(1) t] chunk_goes_to [OF asc _ _ _ t] by metis
  have i60: "i < length ls" using i table_okD [OF Suc.prems(2)] by (simp add: goes_to_def)
  have "?e \<notin> set (take t es)" "le_hidx ?e \<notin> le_hidx ` set (take t es)"
  proof -
    show "le_hidx ?e \<notin> le_hidx ` set (take t es)"
      using ascending_nth [OF asc, of _ t] t by (auto simp: in_set_conv_nth) (metis less_irrefl)
    then show "?e \<notin> set (take t es)" by auto
  qed
  then have new: "le_hidx ?e \<notin> le_hidx ` set (concat ls)" using Suc.prems(3) by (metis set_mset_mset)
  have room: "length (ls ! i) < 8" using chunk_room [OF asc c Suc.prems(2,3) t i] .
  have e: "le_hidx ?e \<noteq> UINT_MAX" using asc t by (simp add: ascending_def)
  obtain m ks' where m: "insert_new (\<lambda>_ _ _. Inl Bug_on) st (le_hidx ?e) (le_ppa ?e)
      = Inr (st\<lparr>tl_cached_cnt := tl_cached_cnt st + 1, tl_page := m\<rparr>)"
    "table_ok m ks' (ls[i := ls ! i @ [\<lparr>le_hidx = le_hidx ?e, le_ppa = le_ppa ?e\<rparr>]])" "ks' = ?ks"
    using insert_new_fits [OF Suc.prems(2) i room e new, of "\<lambda>_ _ _. Inl Bug_on" "le_ppa ?e"] ne by blast
  have "mset (concat (ls[i := ls ! i @ [?e]])) = mset (take (Suc t) es)"
    using Suc.prems(3) t i60 by (simp add: mset_concat_append take_Suc_conv_app_nth)
  then obtain m' ls' where "reinsert (st\<lparr>tl_cached_cnt := tl_cached_cnt st + 1, tl_page := m\<rparr>) (drop (Suc t) es)
      = Inr (st\<lparr>tl_page := m', tl_cached_cnt := tl_cached_cnt st + 1 + word_of_nat (length es - Suc t)\<rparr>)"
    "table_ok m' ?ks ls'" "mset (concat ls') = mset es"
    using Suc.hyps(1) [OF n, of "st\<lparr>tl_cached_cnt := tl_cached_cnt st + 1, tl_page := m\<rparr>" "ls[i := ls ! i @ [?e]]"] m(2,3) t
    by auto
  moreover have "drop t es = ?e # drop (Suc t) es" using t by (simp add: Cons_nth_drop_Suc)
  moreover have "(1 + word_of_nat (length es - Suc t) :: u32) = word_of_nat (length es - t)"
    using t by (metis Suc_diff_Suc of_nat_Suc)
  ultimately show ?case using m(1) by (intro exI [of _ m'] exI [of _ ls']) (simp add: add.assoc)
qed

lemma cmp_hidx_le: "cmp_hidx a b \<le> 0 \<longleftrightarrow> le_hidx a \<le> le_hidx b"
  by (auto simp: cmp_hidx_def)

lemma srt_ascending:
  assumes "sorts_by_hidx srt" "distinct (map le_hidx es)" "\<forall>e \<in> set es. le_hidx e \<noteq> UINT_MAX"
  shows "ascending (srt es)" "mset (srt es) = mset es" "length (srt es) = length es"
proof -
  show m: "mset (srt es) = mset es" using assms(1) by (simp add: sorts_by_hidx_def)
  then show "length (srt es) = length es" by (rule mset_eq_length)
  have "sorted (map le_hidx (srt es))" using assms(1) by (simp add: sorts_by_hidx_def cmp_hidx_le sorted_map)
  moreover have "distinct (map le_hidx (srt es))" using assms(2) m by (metis mset_eq_imp_distinct_iff mset_map)
  ultimately have "sorted_wrt (<) (map le_hidx (srt es))" by (simp add: strict_sorted_iff)
  moreover have "set (srt es) = set es" using m by (rule mset_eq_setD)
  ultimately show "ascending (srt es)" using assms(3) by (simp add: ascending_def sorted_wrt_map)
qed

lemma concat_used:
  assumes "length ls = 60" "c \<le> 60" "\<And>i. c \<le> i \<Longrightarrow> i < 60 \<Longrightarrow> ls ! i = []"
  shows "concat (map ((!) ls) [0..<c]) = concat ls"
proof -
  have "[0..<60] = [0..<c] @ [c..<60]" using upt_add_eq_append [of 0 c "60 - c"] assms(2) by simp
  then have "ls = map ((!) ls) ([0..<c] @ [c..<60])" using map_nth [of ls] assms(1) by simp
  then have "concat ls = concat (map ((!) ls) [0..<c]) @ concat (map ((!) ls) [c..<60])" by (metis concat_append map_append)
  moreover have "concat (map ((!) ls) [c..<60]) = []" using assms(3) by auto
  ultimately show ?thesis by simp
qed

lemma leaves_not_max:
  assumes "leaves_ok m ls" "e \<in> set (concat ls)"
  shows "le_hidx e \<noteq> UINT_MAX"
proof -
  obtain i where "i < 60" "e \<in> set (ls ! i)" using assms by (auto simp: leaves_ok_def in_set_conv_nth [of _ ls])
  then show ?thesis using assms(1) by (auto simp: leaves_ok_def leaf_ok_def)
qed

text \<open>The entries a reload works on: the ones in the leaves, and the new one if there is one.\<close>

definition reload_set :: "leaf_e list list \<Rightarrow> u32 \<Rightarrow> u32 \<Rightarrow> leaf_e list" where
  "reload_set ls h p = concat ls @ (if h = UINT_MAX then [] else [\<lparr>le_hidx = h, le_ppa = p\<rparr>])"

lemma twolevel_reload_spec:
  assumes srt: "sorts_by_hidx srt" and ok: "leaves_ok (tl_page st) ls"
    and c: "tl_page st ! 0 = word_of_nat c" "0 < c" "c \<le> 60" "\<And>i. c \<le> i \<Longrightarrow> i < 60 \<Longrightarrow> ls ! i = []"
    and es: "distinct (map le_hidx (reload_set ls h p))" "0 < length (reload_set ls h p)" "length (reload_set ls h p) \<le> 8 * c"
  obtains m ks ls' where "twolevel_reload srt st h p = Inr (st\<lparr>tl_page := m, tl_reloading := False\<rparr>)"
    "table_ok m ks ls'" "mset (concat ls') = mset (reload_set ls h p)" "length ks = c"
proof -
  let ?m = "tl_page st" and ?es = "reload_set ls h p"
  have len: "length ?m = 1024" "length ls = 60" using ok by (auto simp: leaves_ok_def)
  have used: "concat (map ((!) ls) [0..<c]) = concat ls" using concat_used [OF len(2) c(3,4)] .
  have small: "length (concat ls) \<le> 480" "h \<noteq> UINT_MAX \<Longrightarrow> length (concat ls) < 480"
    using es(3) c(3) by (auto simp: reload_set_def split: if_splits)
  have sub: "set [0..<c] \<subseteq> {..<60}" using c(3) by auto
  obtain m1 ls1 where m1: "reload_leaves ?m [] [0..<c] = Inr (m1, concat ls)" "leaves_ok m1 ls1"
    "\<forall>i < 60. ls1 ! i = (if i \<in> set [0..<c] then [] else ls ! i)" "\<forall>k < 61. m1 ! k = ?m ! k"
    using reload_leaves_spec [OF ok distinct_upt sub, of "[]"] small(1) unfolding used by auto
  have empty: "\<forall>i < length ls1. ls1 ! i = []" using m1(2,3) c(4) by (auto simp: leaves_ok_def)
  have "\<forall>e \<in> set ?es. le_hidx e \<noteq> UINT_MAX"
    using leaves_not_max [OF ok] by (auto simp: reload_set_def split: if_splits)
  note s = srt_ascending [OF srt es(1) this]
  let ?ks = "chunk_keys (srt ?es) c" and ?n = "word_of_nat (length (srt ?es)) :: u32"
  have nr: "new_roots (srt ?es) ?n (word_of_nat c) = Inr ?ks"
    using new_roots_spec [of "srt ?es" c] s(3) es c by simp
  obtain m2 where m2: "set_entries m1 0 ?ks = Inr m2" "length m2 = 1024" "\<forall>k < c. m2 ! Suc k = ?ks ! k"
    "\<forall>w. w \<le> 0 \<or> c < w \<longrightarrow> m2 ! w = m1 ! w"
    using set_entries_spec [of m1 0 ?ks] m1(2) c(3) by (auto simp: leaves_ok_def)
  have "table_ok m2 ?ks ls1"
  proof -
    have "leaves_ok m2 ls1"
      by (rule leaves_ok_entries [OF m1(2) m2(2)]) (use m2(4) c(3) in auto)
    moreover have "keys_ok m2 ?ks" using m1(4) m2 c by (auto simp: keys_ok_def simp flip: length_greater_0_conv)
    moreover have "routed ?ks ls1" using routed_empty [OF s(1) _ c(2) empty] s(3) es(2) by simp
    ultimately show ?thesis by (simp add: table_ok_def)
  qed
  moreover have "mset (concat ls1) = mset (take 0 (srt ?es))" using empty by (auto simp: in_set_conv_nth)
  ultimately obtain m3 ls3 where m3: "table_ok m3 ?ks ls3" "mset (concat ls3) = mset (srt ?es)"
    "reinsert (st\<lparr>tl_reloading := True, tl_page := m2, tl_cached_cnt := tl_cached_cnt st - ?n\<rparr>) (srt ?es)
     = Inr (st\<lparr>tl_reloading := True, tl_page := m3, tl_cached_cnt := tl_cached_cnt st - ?n + ?n\<rparr>)"
    using reinsert_spec [OF s(1) c(2), of 0 "st\<lparr>tl_reloading := True, tl_page := m2, tl_cached_cnt := tl_cached_cnt st - ?n\<rparr>" ls1] es(3) s(3)
    by auto
  have cnt: "word_at ?m 0 = Inr (word_of_nat c)" using len c(1) by (simp add: word_at_def)
  have tmp: "(if h \<noteq> UINT_MAX then bindR (assertR (length (concat ls) < IN_ROOT * IN_LEAF) Out_of_bounds)
        (\<lambda>_. Inr (concat ls @ [\<lparr>le_hidx = h, le_ppa = p\<rparr>])) else Inr (concat ls)) = Inr ?es"
    using small(2) by (simp add: reload_set_def)
  have "twolevel_reload srt st h p = Inr (st\<lparr>tl_page := m3, tl_reloading := False\<rparr>)"
    using m1(1) nr m2(1) m3(3) cnt tmp unat_cnt [OF c(3)]
    by (simp add: twolevel_reload_def Let_def del: layout_consts)
  then show ?thesis using that m3 s(2) by simp
qed

section \<open>Deleting and updating at a position\<close>

lemma shift_loop_spec:
  assumes "i < 60"
  shows "length m = 1024 \<Longrightarrow> j \<le> 7 \<Longrightarrow>
    \<exists>m'. shift_loop m i [j..<7] = Inr m' \<and> length m' = 1024
      \<and> (\<forall>k < 8. m' ! hw i k = m ! hw i (if j \<le> k \<and> k < 7 then Suc k else k)
                \<and> m' ! pw i k = m ! pw i (if j \<le> k \<and> k < 7 then Suc k else k))
      \<and> (\<forall>w. (\<forall>k < 8. w \<noteq> hw i k \<and> w \<noteq> pw i k) \<longrightarrow> m' ! w = m ! w)"
proof (induction "7 - j" arbitrary: j m)
  case 0
  then show ?case by auto
next
  case (Suc n j m)
  then have j: "j < 7" and n: "n = 7 - Suc j" by simp_all
  let ?m = "m[hw i j := m ! hw i (Suc j), pw i j := m ! pw i (Suc j)]"
  have unroll: "shift_loop m i [j..<7] = shift_loop ?m i [Suc j..<7]"
    using j Suc.prems assms by (simp add: upt_conv_Cons word_at_def set_word_at_def nth_list_update)
  obtain m' where m': "shift_loop ?m i [Suc j..<7] = Inr m'" "length m' = 1024"
    "\<forall>k < 8. m' ! hw i k = ?m ! hw i (if Suc j \<le> k \<and> k < 7 then Suc k else k)
           \<and> m' ! pw i k = ?m ! pw i (if Suc j \<le> k \<and> k < 7 then Suc k else k)"
    "\<forall>w. (\<forall>k < 8. w \<noteq> hw i k \<and> w \<noteq> pw i k) \<longrightarrow> m' ! w = ?m ! w"
    using Suc.hyps(1) [OF n, of ?m] Suc.prems j by auto
  have "m' ! hw i k = m ! hw i (if j \<le> k \<and> k < 7 then Suc k else k)
      \<and> m' ! pw i k = m ! pw i (if j \<le> k \<and> k < 7 then Suc k else k)" if "k < 8" for k
    using m'(3) that j Suc.prems assms by (auto simp: nth_list_update)
  moreover have "m' ! w = m ! w" if w: "\<forall>k < 8. w \<noteq> hw i k \<and> w \<noteq> pw i k" for w
  proof -
    have "w \<noteq> hw i j" "w \<noteq> pw i j" using w j by auto
    then show ?thesis using m'(4) w by simp
  qed
  ultimately show ?case using m'(1,2) unroll by auto
qed

definition drop_nth :: "nat \<Rightarrow> 'a list \<Rightarrow> 'a list" where
  "drop_nth j xs = take j xs @ drop (Suc j) xs"

lemma drop_nth_nth: "j < length xs \<Longrightarrow> k < length xs - 1 \<Longrightarrow> drop_nth j xs ! k = xs ! (if j \<le> k then Suc k else k)"
  by (auto simp: drop_nth_def nth_append)

lemma length_drop_nth [simp]: "j < length xs \<Longrightarrow> length (drop_nth j xs) = length xs - 1"
  by (auto simp: drop_nth_def)

lemma set_drop_nth: "set (drop_nth j xs) \<subseteq> set xs"
  by (auto simp: drop_nth_def dest: in_set_takeD in_set_dropD)

lemma slot_decode:
  assumes "i < 60" "j < 8"
  shows "unat (slot_pos i j div 64 - 4) = i"
    and "unat (((slot_pos i j - (244 + 64 * (slot_pos i j div 64 - 4))) - 32) div 4) = j"
    and "unat (slot_pos i j) = ppa_pos i j" "slot_pos i j \<noteq> UINT_MAX"
proof -
  have P: "ppa_pos i j = 276 + 64 * i + 4 * j" by (simp add: ppa_pos_def leaf_pos_def)
  then have lt: "ppa_pos i j < 4096" using assms by simp
  then show u: "unat (slot_pos i j) = ppa_pos i j"
    by (simp add: slot_pos_def unat_of_nat take_bit_nat_eq_self)
  have "ppa_pos i j div 64 = 4 + i" using P assms by simp
  then have "unat (slot_pos i j div 64) = 4 + i" using u by (simp add: unat_div)
  moreover have "unat (word_of_nat (4 + i) :: u32) = 4 + i"
    using assms(1) by (subst unat_of_nat) (simp add: take_bit_nat_eq_self)
  ultimately have "slot_pos i j div 64 = word_of_nat (4 + i)" by (simp only: word_unat_eq_iff)
  then have d: "slot_pos i j div 64 = 4 + word_of_nat i" by simp
  then show "unat (slot_pos i j div 64 - 4) = i" using assms(1) unat_cnt [of i] by simp
  have "(slot_pos i j - (244 + 64 * (slot_pos i j div 64 - 4))) - 32 = word_of_nat (4 * j)"
    unfolding d by (simp add: slot_pos_def P)
  moreover have "unat (word_of_nat (4 * j) div 4 :: u32) = j"
  proof -
    have "unat (word_of_nat (4 * j) :: u32) = 4 * j"
      using assms(2) by (subst unat_of_nat) (simp add: take_bit_nat_eq_self)
    then show ?thesis by (subst unat_div) (simp only:, simp)
  qed
  ultimately show "unat (((slot_pos i j - (244 + 64 * (slot_pos i j div 64 - 4))) - 32) div 4) = j" by simp
  have "unat UINT_MAX = 4294967295" by (simp add: unsigned_minus_1_eq_mask mask_eq_exp_minus_1)
  then show "slot_pos i j \<noteq> UINT_MAX" using u lt by auto
qed

lemma delete_at_spec:
  assumes ok: "leaves_ok m ls" and i: "i < 60" "j < length (ls ! i)"
  obtains m' where "delete_at m (slot_pos i j) = Inr m'" "leaves_ok m' (ls[i := drop_nth j (ls ! i)])"
    "\<And>k. k < 61 \<Longrightarrow> m' ! k = m ! k"
proof -
  have leaf: "leaf_ok m i (ls ! i)" and len: "length m = 1024" using ok i by (auto simp: leaves_ok_def)
  then have j: "j < 8" "length (ls ! i) \<le> 8" using i(2) by (auto simp: leaf_ok_def)
  obtain m1 where m1: "shift_loop m i [j..<7] = Inr m1" "length m1 = 1024"
    "\<forall>k < 8. m1 ! hw i k = m ! hw i (if j \<le> k \<and> k < 7 then Suc k else k)
           \<and> m1 ! pw i k = m ! pw i (if j \<le> k \<and> k < 7 then Suc k else k)"
    "\<forall>w. (\<forall>k < 8. w \<noteq> hw i k \<and> w \<noteq> pw i k) \<longrightarrow> m1 ! w = m ! w"
    using shift_loop_spec [OF i(1) len, of j] j by auto
  define m' where "m' = m1[hw i 7 := UINT_MAX, pw i 7 := UINT_MAX]"
  have "delete_at m (slot_pos i j) = Inr m'"
    using m1(1,2) slot_decode [OF i(1) j(1)] i(1) by (simp add: delete_at_def Let_def ROOT_G_def set_word_at_def m'_def)
  moreover have frame: "m' ! w = m ! w" if w: "\<forall>k < 8. w \<noteq> hw i k \<and> w \<noteq> pw i k" for w
  proof -
    have "w \<noteq> hw i 7" "w \<noteq> pw i 7" using w by auto
    then have "m' ! w = m1 ! w" by (simp add: m'_def)
    then show ?thesis using m1(4) w by simp
  qed
  moreover have "leaves_ok m' (ls[i := drop_nth j (ls ! i)])"
  proof (rule leaves_ok_update [OF ok i(1)])
    have "m' ! hw i k = le_hidx (drop_nth j (ls ! i) ! k) \<and> m' ! pw i k = le_ppa (drop_nth j (ls ! i) ! k)"
      if "k < length (ls ! i) - 1" for k
      using that m1(3) leaf i j by (auto simp: m'_def nth_list_update drop_nth_nth leaf_ok_def)
    moreover have "m' ! hw i k = UINT_MAX" if "length (ls ! i) - 1 \<le> k" "k < 8" for k
      using that m1(2,3) leaf i j by (auto simp: m'_def nth_list_update leaf_ok_def)
    ultimately show "leaf_ok m' i (drop_nth j (ls ! i))"
      using leaf i set_drop_nth [of j "ls ! i"] by (auto simp: leaf_ok_def)
    show "length m' = 1024" by (simp add: m'_def m1(2))
  qed (use frame in auto)
  moreover have "m' ! k = m ! k" if "k < 61" for k
    using frame that by (cases k) auto
  ultimately show ?thesis using that by blast
qed

lemma mset_concat_drop_nth:
  "i < length ls \<Longrightarrow> j < length (ls ! i) \<Longrightarrow> mset (concat ls) = add_mset (ls ! i ! j) (mset (concat (ls[i := drop_nth j (ls ! i)])))"
proof (induction ls arbitrary: i)
  case (Cons es ls)
  have "j < length es \<Longrightarrow> mset es = add_mset (es ! j) (mset (drop_nth j es))"
    by (metis drop_nth_def id_take_nth_drop mset.simps(2) mset_append union_mset_add_mset_right)
  then show ?case using Cons by (cases i) auto
qed simp

section \<open>The table as a map\<close>

definition represents :: "tl_state \<Rightarrow> nat \<Rightarrow> (u32 \<rightharpoonup> u32) \<Rightarrow> bool" where
  "represents st c f \<longleftrightarrow> (\<exists>ks ls. table_ok (tl_page st) ks ls \<and> length ks = c \<and> cells ls = f
     \<and> tl_cached_cnt st = word_of_nat (length (concat ls)) \<and> \<not> tl_reloading st)"

lemma cells_None: "cell_map es h = None \<longleftrightarrow> h \<notin> le_hidx ` set es"
  by (auto simp: cell_map_def map_of_eq_None_iff image_iff)

lemma cells_Some:
  assumes "distinct (map le_hidx es)"
  shows "cell_map es h = Some p \<longleftrightarrow> \<lparr>le_hidx = h, le_ppa = p\<rparr> \<in> set es"
proof -
  have "distinct (map fst (map (\<lambda>e. (le_hidx e, le_ppa e)) es))" using assms by (simp add: comp_def)
  then have "cell_map es h = Some p \<longleftrightarrow> (h, p) \<in> set (map (\<lambda>e. (le_hidx e, le_ppa e)) es)"
    unfolding cell_map_def by (rule map_of_eq_Some_iff)
  also have "\<dots> \<longleftrightarrow> \<lparr>le_hidx = h, le_ppa = p\<rparr> \<in> set es"
    by (force simp: image_iff)
  finally show ?thesis .
qed

lemma cells_dom: "dom (cell_map es) = le_hidx ` set es"
  using cells_None [of es] by (auto simp: dom_def)

lemma cells_card: "distinct (map le_hidx es) \<Longrightarrow> card (dom (cell_map es)) = length es"
  using distinct_card [of "map le_hidx es"] by (simp add: cells_dom)

lemma cells_cong:
  assumes "mset es' = mset es" "distinct (map le_hidx es)"
  shows "cell_map es' = cell_map es"
proof
  fix h
  have d: "distinct (map le_hidx es')" using assms by (metis mset_eq_imp_distinct_iff mset_map)
  have "cell_map es' h = Some p \<longleftrightarrow> cell_map es h = Some p" for p
    using cells_Some [OF d, of h p] cells_Some [OF assms(2), of h p] mset_eq_setD [OF assms(1)] by simp
  then show "cell_map es' h = cell_map es h" by (metis not_Some_eq)
qed

lemma cells_add:
  assumes "mset es' = add_mset e (mset es)" "distinct (map le_hidx es')"
  shows "cell_map es' = (cell_map es)(le_hidx e \<mapsto> le_ppa e)" "cell_map es (le_hidx e) = None" "distinct (map le_hidx es)"
proof -
  have m: "mset es' = mset (e # es)" using assms(1) by simp
  then have d: "distinct (map le_hidx (e # es))" using assms(2) by (metis mset_eq_imp_distinct_iff mset_map)
  then show "cell_map es (le_hidx e) = None" "distinct (map le_hidx es)" by (auto simp: cells_None)
  show "cell_map es' = (cell_map es)(le_hidx e \<mapsto> le_ppa e)"
    using cells_cong [OF m d] by (simp add: cell_map_def)
qed

lemma table_distinct: "table_ok m ks ls \<Longrightarrow> distinct (map le_hidx (concat ls))"
  by (simp add: table_ok_def routed_def)

lemma table_unused:
  assumes "table_ok m ks ls" "length ks \<le> i" "i < 60"
  shows "ls ! i = []"
  using assms routed_leaf [OF assms(1), of _ i] by (auto simp: goes_to_def) (metis last_in_set not_less)

lemma table_size:
  assumes "table_ok m ks ls"
  shows "length (concat ls) \<le> 8 * length ks"
proof -
  have c: "length ks \<le> 60" "length ls = 60" using table_okD [OF assms] by auto
  have "length (ls ! i) \<le> 8" if "i < length ks" for i
    using table_okD(6) [OF assms, of i] that c by (simp add: leaf_ok_def)
  then have "sum_list (map (\<lambda>i. length (ls ! i)) [0..<length ks]) \<le> sum_list (map (\<lambda>i. 8) [0..<length ks])"
    by (intro sum_list_mono) auto
  moreover have "length (concat ls) = sum_list (map (\<lambda>i. length (ls ! i)) [0..<length ks])"
    by (subst concat_used [OF c(2,1) table_unused [OF assms], symmetric]) (simp_all add: length_concat comp_def)
  ultimately show ?thesis by (simp add: sum_list_triv mult.commute)
qed

lemma represents_find:
  assumes "represents st c f" "h \<noteq> UINT_MAX"
  shows "f h = None \<Longrightarrow> twolevel_find (tl_page st) h = Inr (UINT_MAX, None)"
    and "f h = Some p \<Longrightarrow> \<exists>ks ls i j. table_ok (tl_page st) ks ls \<and> length ks = c \<and> cells ls = f
      \<and> tl_cached_cnt st = word_of_nat (length (concat ls)) \<and> i < 60 \<and> j < length (ls ! i) \<and> ls ! i ! j = \<lparr>le_hidx = h, le_ppa = p\<rparr>
      \<and> twolevel_find (tl_page st) h = Inr (p, Some (slot_pos i j))"
proof -
  obtain ks ls where ok: "table_ok (tl_page st) ks ls" and f: "cells ls = f" "length ks = c"
    "tl_cached_cnt st = word_of_nat (length (concat ls))"
    using assms by (auto simp: represents_def)
  show "f h = None \<Longrightarrow> twolevel_find (tl_page st) h = Inr (UINT_MAX, None)"
    using twolevel_find_miss [OF ok _ assms(2)] cells_None [of "concat ls" h] f by simp
  assume "f h = Some p"
  then have "\<lparr>le_hidx = h, le_ppa = p\<rparr> \<in> set (concat ls)"
    using cells_Some [OF table_distinct [OF ok]] f(1) by metis
  then obtain i j where ij: "i < 60" "j < length (ls ! i)" "ls ! i ! j = \<lparr>le_hidx = h, le_ppa = p\<rparr>"
    using table_okD(2) [OF ok] by (auto simp: in_set_conv_nth [of _ ls]) (metis in_set_conv_nth)
  then show "\<exists>ks ls i j. table_ok (tl_page st) ks ls \<and> length ks = c \<and> cells ls = f
      \<and> tl_cached_cnt st = word_of_nat (length (concat ls)) \<and> i < 60 \<and> j < length (ls ! i) \<and> ls ! i ! j = \<lparr>le_hidx = h, le_ppa = p\<rparr>
      \<and> twolevel_find (tl_page st) h = Inr (p, Some (slot_pos i j))"
    using twolevel_find_hit [OF ok ij(1,2)] ok f
    by (intro exI [of _ ks] exI [of _ ls] exI [of _ i] exI [of _ j]) simp
qed

lemma represents_insert:
  assumes srt: "sorts_by_hidx srt" and rep: "represents st c f" and h: "h \<noteq> UINT_MAX" "f h = None"
    and room: "card (dom f) < 8 * c"
  obtains st' where "twolevel_insert srt st h p UINT_MAX = Inr st'" "represents st' c (f(h \<mapsto> p))"
proof -
  obtain ks ls where ok: "table_ok (tl_page st) ks ls" and f: "cells ls = f" "length ks = c"
    "tl_cached_cnt st = word_of_nat (length (concat ls))" "\<not> tl_reloading st"
    using rep by (auto simp: represents_def)
  let ?e = "\<lparr>le_hidx = h, le_ppa = p\<rparr>"
  have new: "h \<notin> le_hidx ` set (concat ls)" using h f cells_None [of "concat ls"] by simp
  have size: "length (concat ls) < 8 * c" using room cells_card [OF table_distinct [OF ok]] f by simp
  obtain i where lb: "lower_bound (tl_page st) h = Inr i" and i: "goes_to ks h i" using lower_bound_spec [OF ok] .
  have i60: "i < 60" using i table_okD [OF ok] by (simp add: goes_to_def)
  have "\<exists>m ks' ls'. insert_new (twolevel_reload srt) st h p = Inr (st\<lparr>tl_cached_cnt := tl_cached_cnt st + 1, tl_page := m\<rparr>)
    \<and> table_ok m ks' ls' \<and> length ks' = c \<and> mset (concat ls') = add_mset ?e (mset (concat ls))"
  proof (cases "length (ls ! i) < 8")
    case True
    obtain m ks' where "insert_new (twolevel_reload srt) st h p = Inr (st\<lparr>tl_cached_cnt := tl_cached_cnt st + 1, tl_page := m\<rparr>)"
      "table_ok m ks' (ls[i := ls ! i @ [?e]])" "length ks' = length ks"
      using insert_new_fits [OF ok i True h(1) new] .
    moreover have "mset (concat (ls[i := ls ! i @ [?e]])) = add_mset ?e (mset (concat ls))"
      using i60 table_okD(2) [OF ok] by (intro mset_concat_append) simp
    ultimately show ?thesis using f(2) by metis
  next
    case False
    let ?st = "st\<lparr>tl_cached_cnt := tl_cached_cnt st + 1\<rparr>"
    have leaf: "leaf_ok (tl_page st) i (ls ! i)" using table_okD(6) [OF ok i60] .
    then have "length (ls ! i) = 8" using False by (simp add: leaf_ok_def)
    then have "word_at (tl_page st) (hidx_pos i 7) = Inr (le_hidx (ls ! i ! 7))" "le_hidx (ls ! i ! 7) \<noteq> UINT_MAX"
      using leaf_hidx [OF table_okD(1) [OF ok] leaf i60, of 7] leaf by (auto simp: leaf_ok_def)
    then have reload: "insert_new (twolevel_reload srt) st h p = twolevel_reload srt ?st h p"
      using lb f(4) by (simp add: insert_new_def Let_def)
    have es: "reload_set ls h p = concat ls @ [?e]" using h(1) by (simp add: reload_set_def)
    have "distinct (map le_hidx (concat ls @ [?e]))" using table_distinct [OF ok] new by auto
    moreover have "leaves_ok (tl_page st) ls" using ok by (simp add: table_ok_def)
    ultimately obtain m ks' ls' where "twolevel_reload srt ?st h p = Inr (?st\<lparr>tl_page := m, tl_reloading := False\<rparr>)"
      "table_ok m ks' ls'" "mset (concat ls') = mset (reload_set ls h p)" "length ks' = c"
      using twolevel_reload_spec [OF srt, of ?st ls c h p] table_okD [OF ok] table_unused [OF ok] size f(2) unfolding es
      by (auto simp: Suc_le_eq)
    then show ?thesis using reload es f(4) by (intro exI [of _ m] exI [of _ ks'] exI [of _ ls']) simp
  qed
  then obtain m ks' ls' where m: "insert_new (twolevel_reload srt) st h p = Inr (st\<lparr>tl_cached_cnt := tl_cached_cnt st + 1, tl_page := m\<rparr>)"
    "table_ok m ks' ls'" "length ks' = c" "mset (concat ls') = add_mset ?e (mset (concat ls))" by blast
  have "length (concat ls') = Suc (length (concat ls))" using m(4) by (metis size_add_mset size_mset)
  then have "represents (st\<lparr>tl_cached_cnt := tl_cached_cnt st + 1, tl_page := m\<rparr>) c (f(h \<mapsto> p))"
    unfolding represents_def using m(2,3) f cells_add(1) [OF m(4) table_distinct [OF m(2)]]
    by (intro exI [of _ ks'] exI [of _ ls']) simp
  then show ?thesis using m(1) that by (simp add: twolevel_insert_def)
qed

lemma represents_expand:
  assumes srt: "sorts_by_hidx srt" and rep: "represents st c f" and full: "card (dom f) = 8 * c" "c < 60"
  obtains m st' where "twolevel_expand (tl_page st) = Inr m" "twolevel_reload srt (st\<lparr>tl_page := m\<rparr>) UINT_MAX UINT_MAX = Inr st'"
    "represents st' (Suc c) f"
proof -
  obtain ks ls where ok: "table_ok (tl_page st) ks ls" and f: "cells ls = f" "length ks = c"
    "tl_cached_cnt st = word_of_nat (length (concat ls))" "\<not> tl_reloading st"
    using rep by (auto simp: represents_def)
  let ?m = "(tl_page st)[0 := word_of_nat (Suc c)]"
  have len: "length (concat ls) = 8 * c" using full(1) cells_card [OF table_distinct [OF ok]] f by simp
  have c: "0 < c" using table_okD(4) [OF ok] f by simp
  have expand: "twolevel_expand (tl_page st) = Inr ?m"
    using table_okD [OF ok] f by (simp add: twolevel_expand_def word_at_def set_word_at_def add.commute)
  have ok': "leaves_ok ?m ls"
    by (rule leaves_ok_entries [of "tl_page st"]) (use ok table_okD [OF ok] in \<open>auto simp: table_ok_def\<close>)
  have es: "reload_set ls UINT_MAX UINT_MAX = concat ls" by (simp add: reload_set_def)
  obtain m ks' ls' where m: "twolevel_reload srt (st\<lparr>tl_page := ?m\<rparr>) UINT_MAX UINT_MAX
      = Inr (st\<lparr>tl_page := ?m\<rparr>\<lparr>tl_page := m, tl_reloading := False\<rparr>)"
    "table_ok m ks' ls'" "mset (concat ls') = mset (reload_set ls UINT_MAX UINT_MAX)" "length ks' = Suc c"
    using twolevel_reload_spec [OF srt, of "st\<lparr>tl_page := ?m\<rparr>" ls "Suc c" UINT_MAX UINT_MAX] ok' table_okD [OF ok]
      table_unused [OF ok] table_distinct [OF ok] len c full(2) f(2) unfolding es by auto
  have "cells ls' = f" "length (concat ls') = length (concat ls)"
    using cells_cong [OF m(3) [unfolded es] table_distinct [OF ok]] f(1) m(3) es by (auto dest: mset_eq_length)
  then have "represents (st\<lparr>tl_page := ?m\<rparr>\<lparr>tl_page := m, tl_reloading := False\<rparr>) (Suc c) f"
    unfolding represents_def using m f by (intro exI [of _ ks'] exI [of _ ls']) simp
  then show ?thesis using expand m(1) that by blast
qed

text \<open>Replacing the grain of an entry in place.\<close>

lemma leaf_ok_set_ppa:
  assumes "leaf_ok m i es" "j < length es" "length m = 1024" "i < 60"
  shows "leaf_ok (m[pw i j := p]) i (es[j := (es ! j)\<lparr>le_ppa := p\<rparr>])"
proof -
  have "le_hidx e \<noteq> UINT_MAX" if "e \<in> set (es[j := (es ! j)\<lparr>le_ppa := p\<rparr>])" for e
  proof -
    have "e = (es ! j)\<lparr>le_ppa := p\<rparr> \<or> e \<in> set es" using that set_update_subset_insert by fastforce
    then show ?thesis using assms by (auto simp: leaf_ok_def)
  qed
  moreover have "length es \<le> 8" using assms(1) by (simp add: leaf_ok_def)
  ultimately show ?thesis using assms by (auto simp: leaf_ok_def nth_list_update)
qed

lemma mset_concat_replace:
  "i < length ls \<Longrightarrow> j < length (ls ! i) \<Longrightarrow>
    mset (concat (ls[i := (ls ! i)[j := e]])) = add_mset e (mset (concat (ls[i := drop_nth j (ls ! i)])))"
proof (induction ls arbitrary: i)
  case (Cons es ls)
  have "j < length es \<Longrightarrow> mset (es[j := e]) = add_mset e (mset (drop_nth j es))"
    by (simp add: upd_conv_take_nth_drop drop_nth_def)
  then show ?case using Cons by (cases i) auto
qed simp

lemma concat_hidx_replace:
  "i < length ls \<Longrightarrow> j < length (ls ! i) \<Longrightarrow> le_hidx e = le_hidx (ls ! i ! j) \<Longrightarrow>
    map le_hidx (concat (ls[i := (ls ! i)[j := e]])) = map le_hidx (concat ls)"
  by (induction ls arbitrary: i) (auto split: nat.split simp: map_update list_update_same_conv)

lemma routed_sub:
  assumes "routed ks ls" "i < length ls" "le_hidx ` set es \<subseteq> le_hidx ` set (ls ! i)"
    "distinct (map le_hidx (concat (ls[i := es])))"
  shows "routed ks (ls[i := es])"
proof -
  have "goes_to ks (le_hidx e) i" if "e \<in> set es" for e
  proof -
    obtain e' where "e' \<in> set (ls ! i)" "le_hidx e = le_hidx e'" using assms(3) \<open>e \<in> set es\<close> by blast
    then show ?thesis using assms(1,2) by (auto simp: routed_def)
  qed
  moreover have "ls ! i = [] \<Longrightarrow> es = []" using assms(3) by auto
  ultimately show ?thesis using assms by (auto simp: routed_def nth_list_update)
qed

lemma slot_removed:
  assumes ok: "table_ok m ks ls" and ij: "i < 60" "j < length (ls ! i)" "ls ! i ! j = \<lparr>le_hidx = h, le_ppa = p\<rparr>"
  defines "rest \<equiv> ls[i := drop_nth j (ls ! i)]"
  shows "mset (concat ls) = add_mset \<lparr>le_hidx = h, le_ppa = p\<rparr> (mset (concat rest))"
    "cells rest = (cells ls)(h := None)" "cells rest h = None" "distinct (map le_hidx (concat rest))"
proof -
  have i: "i < length ls" using ij(1) table_okD(2) [OF ok] by simp
  show m: "mset (concat ls) = add_mset \<lparr>le_hidx = h, le_ppa = p\<rparr> (mset (concat rest))"
    using mset_concat_drop_nth [OF i ij(2)] ij(3) by (simp add: rest_def)
  from cells_add [OF m table_distinct [OF ok]]
  show "cells rest h = None" "distinct (map le_hidx (concat rest))" "cells rest = (cells ls)(h := None)" by auto
qed

lemma represents_update:
  assumes rep: "represents st c f" and h: "h \<noteq> UINT_MAX" "f h = Some q" "p \<noteq> UINT_MAX"
  obtains pos st' where "twolevel_find (tl_page st) h = Inr (q, Some pos)" "twolevel_insert srt st h p pos = Inr st'"
    "pos \<noteq> UINT_MAX" "represents st' c (f(h \<mapsto> p))"
proof -
  obtain ks ls i j where ok: "table_ok (tl_page st) ks ls" and f: "length ks = c" "cells ls = f"
    "tl_cached_cnt st = word_of_nat (length (concat ls))" and ij: "i < 60" "j < length (ls ! i)" "ls ! i ! j = \<lparr>le_hidx = h, le_ppa = q\<rparr>"
    and find: "twolevel_find (tl_page st) h = Inr (q, Some (slot_pos i j))"
    using represents_find(2) [OF rep h(1,2)] by blast
  note rest = slot_removed [OF ok ij]
  let ?m = "(tl_page st)[pw i j := p]" and ?e = "\<lparr>le_hidx = h, le_ppa = p\<rparr>"
  let ?ls = "ls[i := (ls ! i)[j := ?e]]"
  have i: "i < length ls" "j < 8"
    using ij(1,2) table_okD(2) [OF ok] table_okD(6) [OF ok ij(1)] by (auto simp: leaf_ok_def)
  have e: "(ls ! i ! j)\<lparr>le_ppa := p\<rparr> = ?e" using ij(3) by simp
  have m: "mset (concat ?ls) = add_mset ?e (mset (concat (ls[i := drop_nth j (ls ! i)])))"
    using mset_concat_replace [OF i(1) ij(2)] .
  have dist: "distinct (map le_hidx (concat ?ls))"
    using concat_hidx_replace [OF i(1) ij(2), of ?e] ij(3) table_distinct [OF ok] by simp
  have "leaves_ok ?m ?ls"
    using ok leaf_ok_set_ppa [OF table_okD(6) [OF ok ij(1)] ij(2) table_okD(1) [OF ok] ij(1), of p] table_okD(1) [OF ok] i ij(1)
    by (intro leaves_ok_update [of "tl_page st"]) (auto simp: table_ok_def e)
  moreover have "keys_ok ?m ks"
  proof (rule keys_ok_frame [of "tl_page st"])
    show "?m ! k = tl_page st ! k" if "k < 61" for k using that by (cases k) simp_all
  qed (use ok in \<open>simp add: table_ok_def\<close>)
  moreover have "routed ks ?ls"
  proof (rule routed_sub [OF _ i(1) _ dist])
    show "le_hidx ` set ((ls ! i)[j := ?e]) \<subseteq> le_hidx ` set (ls ! i)"
      using set_update_subset_insert [of "ls ! i" j ?e] ij(2,3) by (force simp: image_iff dest: nth_mem)
  qed (use ok in \<open>simp add: table_ok_def\<close>)
  ultimately have ok': "table_ok ?m ks ?ls" by (simp add: table_ok_def)
  have "cells ?ls = f(h \<mapsto> p)" using cells_add(1) [OF m dist] rest(2) f(2) by simp
  moreover have "length (concat ?ls) = length (concat ls)" using m rest(1) by (metis size_add_mset size_mset)
  ultimately have "represents (st\<lparr>tl_page := ?m\<rparr>) c (f(h \<mapsto> p))"
    unfolding represents_def using ok' f rep by (intro exI [of _ ks] exI [of _ ?ls]) (auto simp: represents_def)
  moreover have "twolevel_insert srt st h p (slot_pos i j) = Inr (st\<lparr>tl_page := ?m\<rparr>)"
    using slot_decode(3,4) [OF ij(1) i(2)] h(3) table_okD(1) [OF ok] ij(1) i(2) by (simp add: twolevel_insert_def set_word_at_def)
  ultimately show ?thesis using that find slot_decode(4) [OF ij(1) i(2)] by blast
qed

lemma represents_delete:
  assumes rep: "represents st c f" and h: "h \<noteq> UINT_MAX" "f h = Some q"
  obtains pos st' where "twolevel_find (tl_page st) h = Inr (q, Some pos)" "twolevel_insert srt st h UINT_MAX pos = Inr st'"
    "pos \<noteq> UINT_MAX" "represents st' c (f(h := None))"
proof -
  obtain ks ls i j where ok: "table_ok (tl_page st) ks ls" and f: "length ks = c" "cells ls = f"
    "tl_cached_cnt st = word_of_nat (length (concat ls))" and ij: "i < 60" "j < length (ls ! i)" "ls ! i ! j = \<lparr>le_hidx = h, le_ppa = q\<rparr>"
    and find: "twolevel_find (tl_page st) h = Inr (q, Some (slot_pos i j))"
    using represents_find(2) [OF rep h] by blast
  note rest = slot_removed [OF ok ij]
  let ?ls = "ls[i := drop_nth j (ls ! i)]"
  have i: "i < length ls" "j < 8"
    using ij(1,2) table_okD(2) [OF ok] table_okD(6) [OF ok ij(1)] by (auto simp: leaf_ok_def)
  have leaves: "leaves_ok (tl_page st) ls" using ok by (simp add: table_ok_def)
  obtain m where m: "delete_at (tl_page st) (slot_pos i j) = Inr m" "leaves_ok m ?ls" "\<And>k. k < 61 \<Longrightarrow> m ! k = tl_page st ! k"
    using delete_at_spec [OF leaves ij(1,2)] by blast
  have "keys_ok m ks" using keys_ok_frame [of "tl_page st" ks m] ok m(3) by (simp add: table_ok_def)
  moreover have "routed ks ?ls"
    by (rule routed_sub [OF _ i(1) image_mono [OF set_drop_nth] rest(4)]) (use ok in \<open>simp add: table_ok_def\<close>)
  ultimately have ok': "table_ok m ks ?ls" using m(2) by (simp add: table_ok_def)
  have "length (concat ls) = Suc (length (concat ?ls))" using rest(1) by (metis size_add_mset size_mset)
  then have "tl_cached_cnt st - 1 = word_of_nat (length (concat ?ls))" using f(3) by simp
  then have "represents (st\<lparr>tl_page := m, tl_cached_cnt := tl_cached_cnt st - 1\<rparr>) c (f(h := None))"
    unfolding represents_def using ok' f rest(2) rep by (intro exI [of _ ks] exI [of _ ?ls]) (auto simp: represents_def)
  moreover have "twolevel_insert srt st h UINT_MAX (slot_pos i j) = Inr (st\<lparr>tl_page := m, tl_cached_cnt := tl_cached_cnt st - 1\<rparr>)"
    using m(1) slot_decode(4) [OF ij(1) i(2)] by (simp add: twolevel_insert_def)
  ultimately show ?thesis using that find slot_decode(4) [OF ij(1) i(2)] by blast
qed

section \<open>Initialising\<close>

lemma init_leaf_spec:
  "length m = 1024 \<Longrightarrow> i < 60 \<Longrightarrow> n \<le> 8 \<Longrightarrow>
    \<exists>m'. init_leaf m i n = Inr m' \<and> length m' = 1024 \<and> (\<forall>j < n. m' ! hw i j = UINT_MAX)
      \<and> (\<forall>w. (\<forall>j < 8. w \<noteq> hw i j \<and> w \<noteq> pw i j) \<longrightarrow> m' ! w = m ! w)"
proof (induction n)
  case (Suc n)
  then obtain m' where m': "init_leaf m i n = Inr m'" "length m' = 1024" "\<forall>j < n. m' ! hw i j = UINT_MAX"
    "\<forall>w. (\<forall>j < 8. w \<noteq> hw i j \<and> w \<noteq> pw i j) \<longrightarrow> m' ! w = m ! w" by auto
  let ?m = "m'[hw i n := UINT_MAX, pw i n := UINT_MAX]"
  have "?m ! w = m ! w" if w: "\<forall>j < 8. w \<noteq> hw i j \<and> w \<noteq> pw i j" for w
  proof -
    have "w \<noteq> hw i n" "w \<noteq> pw i n" using w Suc.prems by auto
    then have "?m ! w = m' ! w" by simp
    then show ?thesis using m'(4) w by simp
  qed
  moreover have "?m ! hw i j = UINT_MAX" if "j < Suc n" for j
    using m'(2,3) that Suc.prems by (auto simp: nth_list_update)
  moreover have "init_leaf m i (Suc n) = Inr ?m"
    using m'(1,2) Suc.prems by (simp add: set_word_at_def)
  ultimately show ?case using m'(2) by (intro exI [of _ ?m]) simp
qed simp

lemma init_leaves_spec:
  "length m = 1024 \<Longrightarrow> n \<le> 60 \<Longrightarrow>
    \<exists>m'. init_leaves m n = Inr m' \<and> length m' = 1024 \<and> m' ! 0 = m ! 0
      \<and> (\<forall>i < n. m' ! Suc i = UINT_MAX \<and> (\<forall>j < 8. m' ! hw i j = UINT_MAX))"
proof (induction n)
  case (Suc n)
  then obtain m1 where m1: "init_leaves m n = Inr m1" "length m1 = 1024" "m1 ! 0 = m ! 0"
    "\<forall>i < n. m1 ! Suc i = UINT_MAX \<and> (\<forall>j < 8. m1 ! hw i j = UINT_MAX)" by auto
  let ?m = "m1[Suc n := UINT_MAX]"
  obtain m2 where m2: "init_leaf ?m n 8 = Inr m2" "length m2 = 1024" "\<forall>j < 8. m2 ! hw n j = UINT_MAX"
    "\<forall>w. (\<forall>j < 8. w \<noteq> hw n j \<and> w \<noteq> pw n j) \<longrightarrow> m2 ! w = ?m ! w"
    using init_leaf_spec [of ?m n 8] m1(2) Suc.prems by auto
  have "m2 ! Suc i = UINT_MAX \<and> (\<forall>j < 8. m2 ! hw i j = UINT_MAX)" if "i < Suc n" for i
  proof (cases "i = n")
    case True
    then show ?thesis using m2 m1(2) Suc.prems by auto
  next
    case False
    then have i: "i < n" using that by simp
    have "m2 ! Suc i = ?m ! Suc i" using m2(4) i Suc.prems by auto
    moreover have "m2 ! hw i j = ?m ! hw i j" if "j < 8" for j using m2(4) False that by auto
    ultimately show ?thesis using m1(4) i Suc.prems by (auto simp: nth_list_update)
  qed
  moreover have "m2 ! 0 = m ! 0" using m2(4) m1(3) by auto
  moreover have "init_leaves m (Suc n) = Inr m2"
    using m1(1,2) m2(1) Suc.prems by (simp add: set_word_at_def)
  ultimately show ?case using m2(2) by auto
qed simp

definition fresh_page :: "page \<Rightarrow> nat \<Rightarrow> bool" where
  "fresh_page m c \<longleftrightarrow> length m = 1024 \<and> m ! 0 = word_of_nat c
     \<and> (\<forall>i < 60. m ! Suc i = UINT_MAX \<and> (\<forall>j < 8. m ! hw i j = UINT_MAX))"

lemma twolevel_init_fresh:
  assumes "length m = 1024"
  obtains m' where "twolevel_init m = Inr m'" "fresh_page m' 2"
proof -
  obtain m' where m': "init_leaves (m[0 := 2]) 60 = Inr m'" "length m' = 1024" "m' ! 0 = m[0 := 2] ! 0"
      "\<forall>i < 60. m' ! Suc i = UINT_MAX \<and> (\<forall>j < 8. m' ! hw i j = UINT_MAX)"
    using init_leaves_spec [of "m[0 := 2]" 60] assms by auto
  moreover have "twolevel_init m = Inr m'"
    using m'(1) assms by (simp add: twolevel_init_def set_word_at_def ORIG_GLEN_def ROOT_G_def)
  moreover have "m' ! 0 = 2" using m'(3) assms by simp
  ultimately show ?thesis using that by (simp add: fresh_page_def)
qed

lemma fresh_represents:
  assumes "fresh_page m c" "0 < c" "c \<le> 60"
  shows "represents \<lparr>tl_page = m, tl_cached_cnt = 0, tl_reloading = False\<rparr> c Map.empty"
proof -
  have "sorted (replicate c UINT_MAX)" "last (replicate c UINT_MAX) = UINT_MAX"
    using assms(2) by (simp_all add: sorted_iff_nth_mono)
  then have "table_ok m (replicate c UINT_MAX) (replicate 60 [])"
    using assms by (auto simp: fresh_page_def table_ok_def leaves_ok_def leaf_ok_def keys_ok_def routed_def)
  then show ?thesis
    unfolding represents_def
    by (intro exI [of _ "replicate c UINT_MAX"] exI [of _ "replicate 60 []"]) (simp add: cell_map_def)
qed

lemma expand_fresh:
  assumes "fresh_page m c"
  obtains m' where "twolevel_expand m = Inr m'" "fresh_page m' (Suc c)"
proof -
  let ?m = "m[0 := word_of_nat (Suc c)]"
  have "fresh_page ?m (Suc c)" using assms by (auto simp: fresh_page_def)
  moreover have "twolevel_expand m = Inr ?m"
    using assms by (simp add: fresh_page_def twolevel_expand_def word_at_def set_word_at_def add.commute)
  ultimately show ?thesis using that by blast
qed

lemma expand_times_fresh:
  "fresh_page m c \<Longrightarrow> \<exists>m'. expand_times n m = Inr m' \<and> fresh_page m' (c + n)"
proof (induction n arbitrary: m c)
  case (Suc n)
  obtain m1 where "twolevel_expand m = Inr m1" "fresh_page m1 (Suc c)" using expand_fresh [OF Suc.prems] .
  then show ?case using Suc.IH [of m1 "Suc c"] by auto
qed simp

lemma twolevel_init_spec:
  assumes "length m = 1024"
  obtains m' where "twolevel_init m = Inr m'" "represents \<lparr>tl_page = m', tl_cached_cnt = 0, tl_reloading = False\<rparr> 2 Map.empty"
  using twolevel_init_fresh [OF assms] fresh_represents [of _ 2] by (metis numeral_le_iff semiring_norm(68) semiring_norm(71) zero_less_numeral)

section \<open>Bulk filling\<close>

lemma bulk_loop_spec:
  assumes asc: "ascending es" and c: "0 < c" "length es \<le> 8 * c" "c \<le> 60" and pos: "\<forall>e \<in> set es. 0 < le_hidx e"
  defines "ks \<equiv> chunk_keys es c"
  shows "t \<le> length es \<Longrightarrow> l < c \<Longrightarrow> table_ok m ks ls \<Longrightarrow> mset (concat ls) = mset (take t es) \<Longrightarrow>
    (t < length es \<Longrightarrow> \<forall>i < l. ks ! i < le_hidx (es ! t)) \<Longrightarrow> \<forall>i. l < i \<and> i < 60 \<longrightarrow> ls ! i = [] \<Longrightarrow>
    \<exists>m' ls'. bulk_loop m (drop l ks) l (length (ls ! l)) (drop t es) = Inr m' \<and> table_ok m' ks ls' \<and> mset (concat ls') = mset es"
proof (induction "length es - t + (c - l)" arbitrary: t l m ls rule: less_induct)
  case (less t l m ls)
  show ?case
  proof (cases "t < length es")
    case False
    then show ?thesis using less.prems by auto
  next
    case True
    let ?e = "es ! t"
    have split: "drop l ks = ks ! l # drop (Suc l) ks" "drop t es = ?e # drop (Suc t) es"
      using less.prems(2) True by (simp_all add: Cons_nth_drop_Suc ks_def)
    have l60: "l < 60" "l < length ls" using less.prems(2) c(3) table_okD(2) [OF less.prems(3)] by auto
    show ?thesis
    proof (cases "le_hidx ?e \<le> ks ! l")
      case le: True
      then have g: "goes_to ks (le_hidx ?e) l" using less.prems(2,5) True by (simp add: goes_to_def ks_def)
      have room: "length (ls ! l) < 8"
        using chunk_room [OF asc c(1,2), of m ls t l] less.prems True g by (simp add: ks_def)
      have e: "le_hidx ?e \<noteq> UINT_MAX" "0 < le_hidx ?e" using asc pos True by (auto simp: ascending_def)
      have "le_hidx ?e \<notin> le_hidx ` set (take t es)"
        using ascending_nth [OF asc, of _ t] True by (auto simp: in_set_conv_nth) (metis less_irrefl)
      then have new: "le_hidx ?e \<notin> le_hidx ` set (concat ls)" using less.prems(4) by (metis set_mset_mset)
      let ?m = "m[hw l (length (ls ! l)) := le_hidx ?e, pw l (length (ls ! l)) := le_ppa ?e]" and ?ls = "ls[l := ls ! l @ [?e]]"
      have key: "l < length ks - 1 \<Longrightarrow> ks ! l \<noteq> UINT_MAX"
        using chunk_keys_not_max [OF asc, of l c] True by (fastforce simp: ks_def)
      have "table_ok ?m ks ?ls" using table_ok_append [OF less.prems(3) g room e(1) new key] .
      moreover have "mset (concat ?ls) = mset (take (Suc t) es)"
        using less.prems(4) True l60 by (simp add: mset_concat_append take_Suc_conv_app_nth)
      moreover have "\<forall>i < l. ks ! i < le_hidx (es ! Suc t)" if "Suc t < length es"
        using less.prems(5) [OF True] ascending_nth [OF asc, of t "Suc t"] that by (auto intro: less_trans)
      ultimately have "\<exists>m' ls'. bulk_loop ?m (drop l ks) l (length (?ls ! l)) (drop (Suc t) es) = Inr m'
          \<and> table_ok m' ks ls' \<and> mset (concat ls') = mset es"
        using less.hyps [of "Suc t" l ?m ?ls] less.prems True by simp
      moreover have "bulk_loop m (drop l ks) l (length (ls ! l)) (drop t es)
          = bulk_loop ?m (drop l ks) l (length (?ls ! l)) (drop (Suc t) es)"
        using le e room l60 table_okD(1) [OF less.prems(3)] unfolding split by (simp add: set_word_at_def)
      ultimately show ?thesis by simp
    next
      case False
      have "ks ! l \<noteq> UINT_MAX" using False by auto
      then have l: "Suc l < c" using less.prems(2) chunk_keys_nth [of l c es] by (cases "l = c - 1") (auto simp: ks_def)
      have "\<forall>i < Suc l. ks ! i < le_hidx ?e" using less.prems(5) [OF True] False by (auto simp: less_Suc_eq)
      moreover have "ls ! Suc l = []" using less.prems(6) l c(3) by simp
      ultimately show ?thesis
        using less.hyps [of t "Suc l" m ls] less.prems l False unfolding split by auto
    qed
  qed
qed

lemma twolevel_bulk_insert_spec:
  assumes srt: "sorts_by_hidx srt" and rep: "represents st c Map.empty"
    and es: "distinct (map le_hidx es)" "\<forall>e \<in> set es. 0 < le_hidx e \<and> le_hidx e \<noteq> UINT_MAX" "0 < length es" "length es \<le> 8 * c"
  obtains m where "twolevel_bulk_insert srt (tl_page st) es = Inr m"
    "represents (st\<lparr>tl_page := m, tl_cached_cnt := tl_cached_cnt st + word_of_nat (length es)\<rparr>) c (cell_map es)"
proof -
  obtain ks ls where ok: "table_ok (tl_page st) ks ls" "cells ls = Map.empty" "length ks = c"
    "tl_cached_cnt st = word_of_nat (length (concat ls))" "\<not> tl_reloading st"
    using rep by (auto simp: represents_def)
  have c: "0 < c" "c \<le> 60" "tl_page st ! 0 = word_of_nat c" "length (tl_page st) = 1024" using table_okD [OF ok(1)] ok(3) by auto
  have nil: "concat ls = []" using cells_dom [of "concat ls"] ok(2) by simp
  then have empty: "ls ! i = []" if "i < length ls" for i using nth_mem [OF that] by simp
  have "\<forall>e \<in> set es. le_hidx e \<noteq> UINT_MAX" using es(2) by auto
  note s = srt_ascending [OF srt es(1) this]
  let ?es = "srt es" and ?ks = "chunk_keys (srt es) c"
  have nr: "new_roots ?es (word_of_nat (length ?es)) (word_of_nat c) = Inr ?ks"
    using new_roots_spec [of ?es c] s(3) es c by simp
  obtain m1 where m1: "set_entries (tl_page st) 0 ?ks = Inr m1" "length m1 = 1024" "\<forall>k < c. m1 ! Suc k = ?ks ! k"
    "\<forall>w. w \<le> 0 \<or> c < w \<longrightarrow> m1 ! w = tl_page st ! w"
    using set_entries_spec [of "tl_page st" 0 ?ks] c by auto
  have "table_ok m1 ?ks ls"
  proof -
    have "leaves_ok (tl_page st) ls" using ok(1) by (simp add: table_ok_def)
    then have "leaves_ok m1 ls" by (rule leaves_ok_entries [OF _ m1(2)]) (use m1(4) c(2) in auto)
    moreover have "keys_ok m1 ?ks" using m1 c by (auto simp: keys_ok_def simp flip: length_greater_0_conv)
    moreover have "routed ?ks ls" using routed_empty [OF s(1) _ c(1), of ls] empty s(3) es(3) by simp
    ultimately show ?thesis by (simp add: table_ok_def)
  qed
  moreover have "set ?es = set es" using mset_eq_setD [OF s(2)] .
  moreover have "length ls = 60" using table_okD(2) [OF ok(1)] .
  ultimately obtain m2 ls2 where m2: "bulk_loop m1 ?ks 0 0 ?es = Inr m2" "table_ok m2 ?ks ls2" "mset (concat ls2) = mset ?es"
    using bulk_loop_spec [OF s(1) c(1) _ c(2), of 0 0 m1 ls] s(3) es(2,4) c(1) nil empty by auto
  have "twolevel_bulk_insert srt (tl_page st) es = Inr m2"
    using nr m1(1) m2(1) c by (simp add: twolevel_bulk_insert_def Let_def word_at_def)
  moreover have "cells ls2 = cell_map es" using cells_cong [of "concat ls2" es] m2(3) s(2) es(1) by simp
  then have "represents (st\<lparr>tl_page := m2, tl_cached_cnt := tl_cached_cnt st + word_of_nat (length es)\<rparr>) c (cell_map es)"
    unfolding represents_def using m2 ok nil mset_eq_length [OF m2(3)] s(3) by (intro exI [of _ ?ks] exI [of _ ls2]) simp
  ultimately show ?thesis using that by blast
qed

section \<open>Properties\<close>

text \<open>
  What the table promises its clients: a store of a grain sets the value of the index, a store of
  \<^verbatim>\<open>UINT_MAX\<close> over an existing entry removes it.
\<close>

definition map_store :: "u32 \<times> u32 \<Rightarrow> (u32 \<rightharpoonup> u32) \<Rightarrow> u32 \<rightharpoonup> u32" where
  "map_store op f = (case op of (h, p) \<Rightarrow> if p = UINT_MAX \<and> f h \<noteq> None then f(h := None) else f(h \<mapsto> p))"

text \<open>The hash indices that belong to hash table section \<open>idx\<close> (the macro \<^verbatim>\<open>IDX\<close>).\<close>

definition in_section :: "nat \<Rightarrow> u32 \<Rightarrow> bool" where
  "in_section idx h \<longleftrightarrow> unat h div EPP = idx \<and> h \<noteq> UINT_MAX"

lemma section_card: "A \<subseteq> {h. in_section idx h} \<Longrightarrow> finite A \<and> card A \<le> 480"
proof -
  assume A: "A \<subseteq> {h. in_section idx h}"
  have sub: "unat ` A \<subseteq> {480 * idx..<480 * idx + 480}"
  proof
    fix x assume "x \<in> unat ` A"
    then have "x div 480 = idx" using A by (auto simp: in_section_def)
    then show "x \<in> {480 * idx..<480 * idx + 480}" using div_mult_mod_eq [of x 480] mod_less_divisor [of 480 x] by auto
  qed
  have inj: "inj_on unat A" by (simp add: inj_on_def word_unat_eq_iff)
  have "finite A" using finite_imageD [OF finite_subset [OF sub] inj] by simp
  then show ?thesis using card_mono [OF _ sub] card_image [OF inj] by simp
qed

lemma store_mapping_step:
  assumes srt: "sorts_by_hidx srt" and rep: "represents st c f" and dom: "dom f \<subseteq> {h. in_section idx h}" and h: "in_section idx h"
  shows "\<exists>st' c'. store_mapping srt (h, p) st = Inr st' \<and> represents st' c' (map_store (h, p) f)
    \<and> dom (map_store (h, p) f) \<subseteq> {h. in_section idx h}"
proof -
  have h': "h \<noteq> UINT_MAX" using h by (simp add: in_section_def)
  obtain ks ls where ok: "table_ok (tl_page st) ks ls" "cells ls = f" "length ks = c" "tl_cached_cnt st = word_of_nat (length (concat ls))"
    using rep by (auto simp: represents_def)
  have c: "0 < c" "c \<le> 60" "tl_page st ! 0 = word_of_nat c" "length (tl_page st) = 1024" using table_okD [OF ok(1)] ok(3) by auto
  have n: "card (dom f) = length (concat ls)" "card (dom f) \<le> 8 * c"
    using cells_card [OF table_distinct [OF ok(1)]] table_size [OF ok(1)] ok by auto
  have dom': "dom (map_store (h, p) f) \<subseteq> {h. in_section idx h}" using dom h by (auto simp: map_store_def)
  have cnt: "word_at (tl_page st) 0 = Inr (word_of_nat c)" using c by (simp add: word_at_def)
  have "\<exists>st' c'. store_mapping srt (h, p) st = Inr st' \<and> represents st' c' (map_store (h, p) f)"
  proof (cases "f h")
    case (Some q)
    show ?thesis
    proof (cases "p = UINT_MAX")
      case True
      obtain pos st' where "twolevel_find (tl_page st) h = Inr (q, Some pos)" "twolevel_insert srt st h UINT_MAX pos = Inr st'"
        "pos \<noteq> UINT_MAX" "represents st' c (f(h := None))" using represents_delete [OF rep h' Some] .
      then show ?thesis using True Some cnt by (auto simp: store_mapping_def update_table_def Let_def map_store_def)
    next
      case False
      obtain pos st' where "twolevel_find (tl_page st) h = Inr (q, Some pos)" "twolevel_insert srt st h p pos = Inr st'"
        "pos \<noteq> UINT_MAX" "represents st' c (f(h \<mapsto> p))" using represents_update [OF rep h' Some False] .
      then show ?thesis using False cnt by (auto simp: store_mapping_def update_table_def Let_def map_store_def)
    qed
  next
    case None
    note find = represents_find(1) [OF rep h' None]
    have spec: "map_store (h, p) f = f(h \<mapsto> p)" using None by (simp add: map_store_def)
    have "h \<notin> dom f" using None by auto
    then have small: "card (dom f) < 480"
      using section_card [of "insert h (dom f)" idx] dom h by (auto simp: card_insert_disjoint)
    have max: "tl_cached_cnt st = word_of_nat c * 8 \<longleftrightarrow> card (dom f) = 8 * c"
    proof -
      have "unat (word_of_nat (card (dom f)) :: u32) = card (dom f)" "unat (word_of_nat (8 * c) :: u32) = 8 * c"
        using small c(2) by (subst unat_of_nat, simp add: take_bit_nat_eq_self)+
      then show ?thesis using ok(4) n(1) by (metis mult.commute of_nat_mult of_nat_numeral)
    qed
    show ?thesis
    proof (cases "card (dom f) = 8 * c")
      case True
      then have "c < 60" using small by simp
      then obtain m st1 where e: "twolevel_expand (tl_page st) = Inr m"
        "twolevel_reload srt (st\<lparr>tl_page := m\<rparr>) UINT_MAX UINT_MAX = Inr st1" "represents st1 (Suc c) f"
        using represents_expand [OF srt rep True] by metis
      obtain st2 where "twolevel_insert srt st1 h p UINT_MAX = Inr st2" "represents st2 (Suc c) (f(h \<mapsto> p))"
        using represents_insert [OF srt e(3) h' None] True by auto
      then show ?thesis using e find max True spec cnt by (auto simp: store_mapping_def update_table_def Let_def)
    next
      case False
      then obtain st2 where "twolevel_insert srt st h p UINT_MAX = Inr st2" "represents st2 c (f(h \<mapsto> p))"
        using represents_insert [OF srt rep h' None] n(2) by auto
      then show ?thesis using find max False spec cnt by (auto simp: store_mapping_def update_table_def Let_def)
    qed
  qed
  then show ?thesis using dom' by blast
qed

lemma store_mappings_refine:
  assumes srt: "sorts_by_hidx srt"
  shows "represents st c f \<Longrightarrow> dom f \<subseteq> {h. in_section idx h} \<Longrightarrow> \<forall>(h, p) \<in> set ops. in_section idx h \<Longrightarrow>
    \<exists>st' c'. store_mappings srt ops st = Inr st' \<and> represents st' c' (fold map_store ops f)"
proof (induction ops arbitrary: st c f)
  case (Cons op ops)
  obtain h p where op: "op = (h, p)" by (cases op)
  then obtain st' c' where "store_mapping srt op st = Inr st'" "represents st' c' (map_store op f)"
    "dom (map_store op f) \<subseteq> {h. in_section idx h}"
    using store_mapping_step [OF srt Cons.prems(1,2), of h p] Cons.prems(3) by auto
  then show ?case using Cons.IH [of st' c' "map_store op f"] Cons.prems(3) by simp
qed auto

text \<open>
  \<^bold>\<open>C36.\<close>  The two-level table implements a map: on a freshly initialised page, any sequence of
  stores and deletions of hash indices of one section runs without a fault --- every rebuild of the
  leaves finds room, no assertion fails, no access leaves the page --- and afterwards a lookup
  finds exactly the value the map has, at a position from which the value can be read back; the
  cached count is the number of entries.
\<close>

theorem twolevel_implements_map:
  assumes "sorts_by_hidx srt" "length m = 1024" "\<forall>(h, p) \<in> set ops. in_section idx h"
  shows "\<exists>m0 st. twolevel_init m = Inr m0
    \<and> store_mappings srt ops \<lparr>tl_page = m0, tl_cached_cnt = 0, tl_reloading = False\<rparr> = Inr st
    \<and> tl_cached_cnt st = word_of_nat (card (dom (fold map_store ops Map.empty)))
    \<and> (\<forall>h. h \<noteq> UINT_MAX \<longrightarrow> (case fold map_store ops Map.empty h of
         None \<Rightarrow> twolevel_find (tl_page st) h = Inr (UINT_MAX, None)
       | Some p \<Rightarrow> \<exists>pos. twolevel_find (tl_page st) h = Inr (p, Some pos)
                     \<and> twolevel_direct_read (tl_page st) pos = Inr p))"
proof -
  obtain m0 where m0: "twolevel_init m = Inr m0"
    "represents \<lparr>tl_page = m0, tl_cached_cnt = 0, tl_reloading = False\<rparr> 2 Map.empty"
    using twolevel_init_spec [OF assms(2)] .
  obtain st c where st: "store_mappings srt ops \<lparr>tl_page = m0, tl_cached_cnt = 0, tl_reloading = False\<rparr> = Inr st"
    "represents st c (fold map_store ops Map.empty)"
    using store_mappings_refine [OF assms(1) m0(2) _ assms(3)] by auto
  let ?f = "fold map_store ops Map.empty"
  have "tl_cached_cnt st = word_of_nat (card (dom ?f))"
    using st(2) cells_card table_distinct by (fastforce simp: represents_def)
  moreover have "case ?f h of None \<Rightarrow> twolevel_find (tl_page st) h = Inr (UINT_MAX, None)
       | Some p \<Rightarrow> \<exists>pos. twolevel_find (tl_page st) h = Inr (p, Some pos) \<and> twolevel_direct_read (tl_page st) pos = Inr p"
    if h: "h \<noteq> UINT_MAX" for h
  proof (cases "?f h")
    case (Some p)
    obtain ks ls i j where s: "table_ok (tl_page st) ks ls" "i < 60" "j < length (ls ! i)" "ls ! i ! j = \<lparr>le_hidx = h, le_ppa = p\<rparr>"
      "twolevel_find (tl_page st) h = Inr (p, Some (slot_pos i j))"
      using represents_find(2) [OF st(2) h Some] by blast
    then have "j < 8" using table_okD(6) [OF s(1,2)] by (simp add: leaf_ok_def)
    then have "twolevel_direct_read (tl_page st) (slot_pos i j) = Inr p"
      using leaf_ppa [OF table_okD(1) [OF s(1)] table_okD(6) [OF s(1,2)] s(2,3)] slot_decode(3) [OF s(2)] s(4)
      by (simp add: twolevel_direct_read_def)
    then show ?thesis using Some s(5) by auto
  qed (use represents_find(1) [OF st(2) h] in simp)
  ultimately show ?thesis using m0(1) st(1) by blast
qed

lemma sort_key_sorts: "sorts_by_hidx (sort_key le_hidx)"
proof -
  have "sorted_wrt (\<lambda>a b. le_hidx a \<le> le_hidx b) (sort_key le_hidx es)" for es
    using sorted_sort_key [of le_hidx es] unfolding sorted_map by simp
  then show ?thesis unfolding sorts_by_hidx_def cmp_hidx_le using mset_sort by blast
qed

text \<open>Three stores to section 0, the last one replacing the first.\<close>

theorem twolevel_implements_map_witness:
  "\<exists>m0 st. twolevel_init (replicate 1024 0) = Inr m0
    \<and> store_mappings (sort_key le_hidx) [(5, 70), (6, 80), (5, 71)] \<lparr>tl_page = m0, tl_cached_cnt = 0, tl_reloading = False\<rparr> = Inr st
    \<and> tl_cached_cnt st = 2 \<and> (\<exists>pos. twolevel_find (tl_page st) 5 = Inr (71, Some pos))"
proof -
  have ops: "\<forall>(h, p) \<in> set [(5, 70), (6, 80), (5, 71 :: u32)]. in_section 0 h" by (simp add: in_section_def)
  let ?f = "fold map_store [(5, 70), (6, 80), (5, 71)] Map.empty"
  have dom: "dom ?f = {5, 6}" by (auto simp: map_store_def)
  have five: "?f 5 = Some 71" by (simp add: map_store_def)
  obtain m0 st where st: "twolevel_init (replicate 1024 0) = Inr m0"
    "store_mappings (sort_key le_hidx) [(5, 70), (6, 80), (5, 71)] \<lparr>tl_page = m0, tl_cached_cnt = 0, tl_reloading = False\<rparr> = Inr st"
    "tl_cached_cnt st = word_of_nat (card (dom ?f))"
    "\<forall>h. h \<noteq> UINT_MAX \<longrightarrow> (case ?f h of None \<Rightarrow> twolevel_find (tl_page st) h = Inr (UINT_MAX, None)
       | Some p \<Rightarrow> \<exists>pos. twolevel_find (tl_page st) h = Inr (p, Some pos) \<and> twolevel_direct_read (tl_page st) pos = Inr p)"
    using twolevel_implements_map [OF sort_key_sorts length_replicate ops, of 0] by blast
  have "\<exists>pos. twolevel_find (tl_page st) 5 = Inr (71, Some pos)"
    using spec [OF st(4), of 5] unfolding five by auto
  moreover have "tl_cached_cnt st = 2" using st(3) unfolding dom by simp
  ultimately show ?thesis using st(1,2) by blast
qed

subsection \<open>Filling a section\<close>

lemma fresh_table:
  assumes "length m = 1024" "ORIG_GLEN \<le> glen" "glen \<le> 64"
  obtains m0 m1 where "twolevel_init m = Inr m0" "word_at m0 0 = Inr 2" "expand_times (glen - ROOT_G - 2) m0 = Inr m1" "fresh_page m1 (glen - ROOT_G)"
    "represents \<lparr>tl_page = m1, tl_cached_cnt = 0, tl_reloading = False\<rparr> (glen - ROOT_G) Map.empty"
proof -
  obtain m0 where m0: "twolevel_init m = Inr m0" "fresh_page m0 2" using twolevel_init_fresh [OF assms(1)] .
  have glen: "2 + (glen - ROOT_G - 2) = glen - ROOT_G" using assms(2) by (simp add: ORIG_GLEN_def ROOT_G_def)
  have le: "0 < glen - ROOT_G" "glen - ROOT_G \<le> 60" using assms(2,3) by (simp_all add: ORIG_GLEN_def ROOT_G_def)
  obtain m1 where m1: "expand_times (glen - ROOT_G - 2) m0 = Inr m1" "fresh_page m1 (glen - ROOT_G)"
    using expand_times_fresh [OF m0(2), of "glen - ROOT_G - 2"] le unfolding glen by auto
  have "word_at m0 0 = Inr 2" using m0(2) by (auto simp: fresh_page_def word_at_def)
  then show thesis using that [OF m0(1) _ m1] fresh_represents [OF m1(2)] le by simp
qed

lemma fill_table_spec:
  assumes "sorts_by_hidx srt" "length m = 1024" "distinct (map le_hidx es)"
    "\<forall>e \<in> set es. 0 < le_hidx e \<and> le_hidx e \<noteq> UINT_MAX" "0 < length es"
    "ORIG_GLEN \<le> glen" "glen \<le> 64" "length es \<le> 8 * (glen - ROOT_G)"
  shows "\<exists>st. fill_table srt UINT_MAX mappings m glen 0 es = Inr st \<and> tl_cached_cnt st = word_of_nat (length es)
    \<and> (\<forall>e \<in> set es. \<exists>pos. twolevel_find (tl_page st) (le_hidx e) = Inr (le_ppa e, Some pos))
    \<and> (\<forall>h. h \<noteq> UINT_MAX \<and> h \<notin> le_hidx ` set es \<longrightarrow> twolevel_find (tl_page st) h = Inr (UINT_MAX, None))"
proof -
  obtain m0 m1 where m1: "twolevel_init m = Inr m0" "word_at m0 0 = Inr 2" "expand_times (glen - ROOT_G - 2) m0 = Inr m1" "fresh_page m1 (glen - ROOT_G)"
    "represents \<lparr>tl_page = m1, tl_cached_cnt = 0, tl_reloading = False\<rparr> (glen - ROOT_G) Map.empty"
    using assms(2,6,7) by (rule fresh_table)
  then obtain m2 where m2: "twolevel_bulk_insert srt m1 es = Inr m2"
    "represents \<lparr>tl_page = m2, tl_cached_cnt = word_of_nat (length es), tl_reloading = False\<rparr> (glen - ROOT_G) (cell_map es)"
    using twolevel_bulk_insert_spec [OF assms(1) _ assms(3-5,8)] by force
  let ?st = "\<lparr>tl_page = m2, tl_cached_cnt = word_of_nat (length es), tl_reloading = False\<rparr>"
  have "fill_table srt UINT_MAX mappings m glen 0 es = Inr ?st" using m1(1-3) m2(1) by (simp add: fill_table_def)
  moreover have "\<exists>pos. twolevel_find m2 (le_hidx e) = Inr (le_ppa e, Some pos)" if "e \<in> set es" for e
  proof -
    have "cell_map es (le_hidx e) = Some (le_ppa e)" using cells_Some [OF assms(3)] that by simp
    then show ?thesis using represents_find(2) [OF m2(2)] assms(4) that by force
  qed
  moreover have "twolevel_find m2 h = Inr (UINT_MAX, None)" if "h \<noteq> UINT_MAX \<and> h \<notin> le_hidx ` set es" for h
    using represents_find(1) [OF m2(2)] cells_None [of es h] that by simp
  ultimately show ?thesis by (intro exI [of _ ?st]) simp
qed

text \<open>
  Placing no entries at all reads the entry before the first one of the array: \<^verbatim>\<open>__new_roots\<close> computes
  \<^verbatim>\<open>key_index = -1\<close> for the first root key as soon as there are at least two leaves.
\<close>

lemma bulk_insert_empty_overread:
  assumes "sorts_by_hidx srt" "m \<noteq> []" "2 \<le> unat (m ! 0)" "unat (m ! 0) \<le> 60"
  shows "twolevel_bulk_insert srt m [] = Inl Out_of_bounds"
proof -
  have "srt [] = []" using assms(1) by (metis mset_zero_iff sorts_by_hidx_def mset.simps(1))
  moreover obtain n where "unat (m ! 0) = Suc (Suc n)" using assms(3) by (metis add_2_eq_Suc le_Suc_ex)
  moreover have "m ! 0 \<noteq> 0" using assms(3) by auto
  ultimately show ?thesis
    using assms by (simp add: twolevel_bulk_insert_def word_at_def new_roots_def Let_def)
qed

lemma fill_glen_bounds:
  assumes "cnt \<le> EPP"
  shows "ORIG_GLEN \<le> fill_glen cnt" "fill_glen cnt \<le> 64" "cnt \<le> 8 * (fill_glen cnt - ROOT_G)"
proof -
  have "cnt * 8 div 64 = cnt div 8" "cnt * 8 mod 64 = cnt mod 8 * 8"
    using div_mult2_eq [of "cnt * 8" 8 8] mult_mod_left [of cnt 8 8] by simp_all
  then have g: "fill_glen cnt = (if 16 < cnt then ROOT_G + cnt div 8 + (if cnt mod 8 \<noteq> 0 then 1 else 0) else ROOT_G + 2)"
    by (auto simp: fill_glen_def Let_def ORIG_GLEN_def mult.commute)
  have c: "cnt = 8 * (cnt div 8) + cnt mod 8" "cnt mod 8 < 8" "cnt \<le> 480" using assms by simp_all
  show "ORIG_GLEN \<le> fill_glen cnt" "fill_glen cnt \<le> 64" "cnt \<le> 8 * (fill_glen cnt - ROOT_G)"
    using c unfolding g ORIG_GLEN_def ROOT_G_def by (simp_all; linarith)+
qed

text \<open>The indices of a section.\<close>

lemma section_index:
  assumes "0 < idx" "idx * EPP + EPP < 2 ^ 32" "i < EPP"
  shows "unat (word_of_nat (idx * EPP + i) :: u32) = idx * EPP + i" "(word_of_nat (idx * EPP + i) :: u32) \<noteq> UINT_MAX"
    "0 < (word_of_nat (idx * EPP + i) :: u32)"
proof -
  show u: "unat (word_of_nat (idx * EPP + i) :: u32) = idx * EPP + i" unfolding unat_of_nat using assms(2,3) by (intro mod_less) (simp del: layout_consts)
  show "0 < (word_of_nat (idx * EPP + i) :: u32)" unfolding word_less_nat_alt u using assms(1) by simp
  have "unat UINT_MAX = 4294967295" by (simp add: unsigned_minus_1_eq_mask mask_eq_exp_minus_1)
  then show "(word_of_nat (idx * EPP + i) :: u32) \<noteq> UINT_MAX" using u assms(2,3) by auto
qed

text \<open>
  \<^bold>\<open>C37.\<close>  The fast fill of a section.  For every section but the first (the loop starts at 1) whose indices fit 32
  bits, without a flash page and with no cached entries, and for every way pairs are present in it: if there is at least
  one pair, the page is allotted enough leaves, filled without fault, and a lookup then finds every present pair at its
  grain and nothing else; if the section has no pair at all, the fill reads before the start of its array of entries.
\<close>

theorem fill_section_implements_map:
  assumes "sorts_by_hidx srt" "length m = 1024" "0 < idx" "idx * EPP + EPP < 2 ^ 32"
  shows "if \<exists>i<EPP. present i then
      \<exists>st. fill_section srt idx UINT_MAX mappings m 0 present grains = Inr st
      \<and> unat (tl_cached_cnt st) = card {i. i < EPP \<and> present i}
      \<and> (\<forall>i<EPP. present i \<longrightarrow> (\<exists>pos. twolevel_find (tl_page st) (word_of_nat (idx * EPP + i)) = Inr (grains i, Some pos)))
      \<and> (\<forall>h. h \<noteq> UINT_MAX \<and> (\<forall>i<EPP. present i \<longrightarrow> unat h \<noteq> idx * EPP + i) \<longrightarrow> twolevel_find (tl_page st) h = Inr (UINT_MAX, None))
    else fill_section srt idx UINT_MAX mappings m 0 present grains = Inl Out_of_bounds"
proof (cases "\<exists>i<EPP. present i")
  case True
  let ?is = "filter present [0..<EPP]" and ?es = "fill_entries idx present grains"
  let ?h = "\<lambda>i. word_of_nat (idx * EPP + i) :: u32"
  note si = section_index [OF assms(3,4)]
  have n: "length ?es = length ?is" "length ?is \<le> EPP" "0 < length ?is"
    using True length_filter_le [of present "[0..<EPP]"] by (auto simp: fill_entries_def filter_empty_conv)
  have "inj_on ?h {..<EPP}"
  proof (rule inj_onI)
    fix i j assume "i \<in> {..<EPP}" "j \<in> {..<EPP}" "?h i = ?h j"
    then show "i = j" using si(1) [of i] si(1) [of j] by simp
  qed
  then have "inj_on ?h (set ?is)" by (rule inj_on_subset) auto
  then have d: "distinct (map le_hidx ?es)" by (simp add: fill_entries_def comp_def distinct_map del: layout_consts)
  have h: "\<forall>e \<in> set ?es. 0 < le_hidx e \<and> le_hidx e \<noteq> UINT_MAX"
    using si(2,3) by (auto simp: fill_entries_def simp del: layout_consts)
  have pos: "0 < length ?es" "length ?es \<le> 8 * (fill_glen (length ?is) - ROOT_G)" using n fill_glen_bounds(3) [OF n(2)] by simp_all
  obtain st where st: "fill_table srt UINT_MAX mappings m (fill_glen (length ?is)) 0 ?es = Inr st" "tl_cached_cnt st = word_of_nat (length ?es)"
    "\<forall>e \<in> set ?es. \<exists>pos. twolevel_find (tl_page st) (le_hidx e) = Inr (le_ppa e, Some pos)"
    "\<forall>h. h \<noteq> UINT_MAX \<and> h \<notin> le_hidx ` set ?es \<longrightarrow> twolevel_find (tl_page st) h = Inr (UINT_MAX, None)"
    using fill_table_spec [OF assms(1,2) d h pos(1) fill_glen_bounds(1,2) [OF n(2)] pos(2)] by blast
  have "card {i. i < EPP \<and> present i} = length ?is" using distinct_card [of ?is] by (simp add: conj_commute)
  then have c: "unat (tl_cached_cnt st) = card {i. i < EPP \<and> present i}" using st(2) n(1,2) by (simp add: unat_of_nat)
  have f: "\<exists>pos. twolevel_find (tl_page st) (?h i) = Inr (grains i, Some pos)" if "i < EPP" "present i" for i
    using st(3) that by (force simp: fill_entries_def simp del: layout_consts)
  have u: "twolevel_find (tl_page st) h = Inr (UINT_MAX, None)" if "h \<noteq> UINT_MAX" "\<forall>i<EPP. present i \<longrightarrow> unat h \<noteq> idx * EPP + i" for h
  proof -
    have "h \<notin> le_hidx ` set ?es" using that(2) si(1) by (auto simp: fill_entries_def simp del: layout_consts)
    then show ?thesis using st(4) that(1) by blast
  qed
  show ?thesis using True st(1) c f u unfolding fill_section_def by auto
next
  case False
  then have nil: "filter present [0..<EPP] = []" by (auto simp: filter_empty_conv)
  have g: "fill_glen 0 = ORIG_GLEN" by (simp add: fill_glen_def Let_def)
  obtain m0 m1 where m1: "twolevel_init m = Inr m0" "word_at m0 0 = Inr 2" "expand_times (ORIG_GLEN - ROOT_G - 2) m0 = Inr m1"
    "fresh_page m1 (ORIG_GLEN - ROOT_G)"
    by (rule fresh_table [OF assms(2), of ORIG_GLEN]) (simp_all add: ORIG_GLEN_def ROOT_G_def)
  have "twolevel_bulk_insert srt m1 [] = Inl Out_of_bounds"
    by (rule bulk_insert_empty_overread [OF assms(1)]) (use m1(4) in \<open>auto simp: fresh_page_def ORIG_GLEN_def ROOT_G_def\<close>)
  then show ?thesis using False nil g m1(1-3) by (simp add: fill_section_def fill_table_def fill_entries_def del: layout_consts)
qed

text \<open>Section 2 with the pairs 4 and 9 present.\<close>

theorem fill_section_implements_map_witness:
  "\<exists>st. fill_section (sort_key le_hidx) 2 UINT_MAX None (replicate 1024 0) 0 (\<lambda>i. i = 4 \<or> i = 9) (\<lambda>i. word_of_nat (10 * i)) = Inr st
    \<and> (\<exists>pos. twolevel_find (tl_page st) (word_of_nat (2 * EPP + 4)) = Inr (40, Some pos)) \<and> twolevel_find (tl_page st) 5 = Inr (UINT_MAX, None)"
proof -
  let ?present = "\<lambda>i. i = 4 \<or> i = (9 :: nat)"
  have e: "\<exists>i<EPP. ?present i" by (rule exI [of _ 4]) simp
  have "0 < (2 :: nat)" "2 * EPP + EPP < 2 ^ 32" by simp_all
  from fill_section_implements_map [OF sort_key_sorts length_replicate this, of ?present None 0 "\<lambda>i. word_of_nat (10 * i)"]
  obtain st where st: "fill_section (sort_key le_hidx) 2 UINT_MAX None (replicate 1024 0) 0 ?present (\<lambda>i. word_of_nat (10 * i)) = Inr st"
    "\<forall>i<EPP. ?present i \<longrightarrow> (\<exists>pos. twolevel_find (tl_page st) (word_of_nat (2 * EPP + i)) = Inr (word_of_nat (10 * i), Some pos))"
    "\<forall>h. h \<noteq> UINT_MAX \<and> (\<forall>i<EPP. ?present i \<longrightarrow> unat h \<noteq> 2 * EPP + i) \<longrightarrow> twolevel_find (tl_page st) h = Inr (UINT_MAX, None)"
    unfolding if_P [OF e] by blast
  have "\<exists>pos. twolevel_find (tl_page st) (word_of_nat (2 * EPP + 4)) = Inr (word_of_nat (10 * 4), Some pos)" using spec [OF st(2), of 4] by simp
  moreover have "twolevel_find (tl_page st) 5 = Inr (UINT_MAX, None)" using spec [OF st(3), of 5] by auto
  ultimately show ?thesis using st(1) by auto
qed

end
