(* ===== verification/PQueue.thy ===== *)
theory PQueue
  imports VPrelude
begin

text \<open>
  The array-based binary heap of \<^verbatim>\<open>nvmevirt/pqueue/pqueue.c\<close>.

  The queue stores pointers; the priority and the position of an element live in the element
  itself and are reached through callbacks.  The model keeps the callbacks as fields of the
  queue record and threads the store \<open>'s\<close> that holds the elements.  An element pointer is a
  value of type \<open>'e\<close>, the array \<^verbatim>\<open>d\<close> a function from indices.  \<^verbatim>\<open>size_t\<close> indices
  are \<open>nat\<close>: they never exceed the number of allocated slots.
\<close>

record ('s, 'e, 'p) pqueue_t =
  pq_size :: nat
  pq_avail :: nat
  pq_step :: nat
  pq_cmppri :: "'p \<Rightarrow> 'p \<Rightarrow> bool"
  pq_getpri :: "'s \<Rightarrow> 'e \<Rightarrow> 'p"
  pq_setpri :: "'e \<Rightarrow> 'p \<Rightarrow> 's \<Rightarrow> 's"
  pq_getpos :: "'s \<Rightarrow> 'e \<Rightarrow> nat"
  pq_setpos :: "'e \<Rightarrow> nat \<Rightarrow> 's \<Rightarrow> 's"
  pq_d :: "nat \<Rightarrow> 'e"

definition pq_left :: "nat \<Rightarrow> nat" where
  "pq_left i = 2 * i"

definition pq_right :: "nat \<Rightarrow> nat" where
  "pq_right i = 2 * i + 1"

definition pq_parent :: "nat \<Rightarrow> nat" where
  "pq_parent i = i div 2"

text \<open>
  The two \<^verbatim>\<open>kmalloc\<close> outcomes are arguments: \<open>q_ok\<close> for the handle, and for the array the
  contents of the fresh memory, \<open>None\<close> when the allocation failed.
\<close>

definition pqueue_init ::
  "bool \<Rightarrow> (nat \<Rightarrow> 'e) option \<Rightarrow> nat \<Rightarrow> ('p \<Rightarrow> 'p \<Rightarrow> bool) \<Rightarrow> ('s \<Rightarrow> 'e \<Rightarrow> 'p) \<Rightarrow>
   ('e \<Rightarrow> 'p \<Rightarrow> 's \<Rightarrow> 's) \<Rightarrow> ('s \<Rightarrow> 'e \<Rightarrow> nat) \<Rightarrow> ('e \<Rightarrow> nat \<Rightarrow> 's \<Rightarrow> 's) \<Rightarrow>
   ('s, 'e, 'p) pqueue_t option" where
  "pqueue_init q_ok mem n cmppri getpri setpri getpos setpos =
     (if \<not> q_ok then None
      else case mem of None \<Rightarrow> None
           | Some d0 \<Rightarrow>
               Some \<lparr>pq_size = 1, pq_avail = n + 1, pq_step = n + 1, pq_cmppri = cmppri,
                     pq_getpri = getpri, pq_setpri = setpri, pq_getpos = getpos,
                     pq_setpos = setpos, pq_d = d0\<rparr>)"

definition pqueue_size :: "('s, 'e, 'p) pqueue_t \<Rightarrow> nat" where
  "pqueue_size q = pq_size q - 1"

function bubble_up_loop ::
  "('s, 'e, 'p) pqueue_t \<Rightarrow> 's \<Rightarrow> 'p \<Rightarrow> nat \<Rightarrow> ('s, 'e, 'p) pqueue_t \<times> 's \<times> nat" where
  "bubble_up_loop q s moving_pri i =
     (if i > 1 \<and> pq_cmppri q (pq_getpri q s (pq_d q (pq_parent i))) moving_pri
      then let q' = q\<lparr>pq_d := (pq_d q)(i := pq_d q (pq_parent i))\<rparr>;
               s' = pq_setpos q (pq_d q' i) i s
           in bubble_up_loop q' s' moving_pri (pq_parent i)
      else (q, s, i))"
  by pat_completeness auto
termination
  by (relation "measure (\<lambda>(q, s, p, i). i)") (auto simp: pq_parent_def)

declare bubble_up_loop.simps [simp del]

definition bubble_up ::
  "('s, 'e, 'p) pqueue_t \<Rightarrow> 's \<Rightarrow> nat \<Rightarrow> ('s, 'e, 'p) pqueue_t \<times> 's" where
  "bubble_up q s i =
     (let moving_node = pq_d q i;
          moving_pri = pq_getpri q s moving_node;
          (q', s', i') = bubble_up_loop q s moving_pri i
      in (q'\<lparr>pq_d := (pq_d q')(i' := moving_node)\<rparr>, pq_setpos q' moving_node i' s'))"

definition maxchild :: "('s, 'e, 'p) pqueue_t \<Rightarrow> 's \<Rightarrow> nat \<Rightarrow> nat" where
  "maxchild q s i =
     (let child_node = pq_left i
      in if child_node \<ge> pq_size q then 0
         else if child_node + 1 < pq_size q \<and>
                 pq_cmppri q (pq_getpri q s (pq_d q child_node))
                             (pq_getpri q s (pq_d q (child_node + 1)))
              then child_node + 1
              else child_node)"

lemma maxchild_gt: "maxchild q s i \<noteq> 0 \<Longrightarrow> i < maxchild q s i \<and> maxchild q s i < pq_size q"
  by (auto simp: maxchild_def pq_left_def Let_def split: if_splits)

function percolate_down_loop ::
  "('s, 'e, 'p) pqueue_t \<Rightarrow> 's \<Rightarrow> 'p \<Rightarrow> nat \<Rightarrow> ('s, 'e, 'p) pqueue_t \<times> 's \<times> nat" where
  "percolate_down_loop q s moving_pri i =
     (let child_node = maxchild q s i
      in if child_node \<noteq> 0 \<and> pq_cmppri q moving_pri (pq_getpri q s (pq_d q child_node))
         then let q' = q\<lparr>pq_d := (pq_d q)(i := pq_d q child_node)\<rparr>;
                  s' = pq_setpos q (pq_d q' i) i s
              in percolate_down_loop q' s' moving_pri child_node
         else (q, s, i))"
  by pat_completeness auto
termination
  by (relation "measure (\<lambda>(q, s, p, i). pq_size q - i)") (use maxchild_gt in \<open>fastforce+\<close>)

declare percolate_down_loop.simps [simp del]

definition percolate_down ::
  "('s, 'e, 'p) pqueue_t \<Rightarrow> 's \<Rightarrow> nat \<Rightarrow> ('s, 'e, 'p) pqueue_t \<times> 's" where
  "percolate_down q s i =
     (let moving_node = pq_d q i;
          moving_pri = pq_getpri q s moving_node;
          (q', s', i') = percolate_down_loop q s moving_pri i
      in (q'\<lparr>pq_d := (pq_d q')(i' := moving_node)\<rparr>, pq_setpos q' moving_node i' s'))"

text \<open>
  The growth code of \<^verbatim>\<open>pqueue_insert\<close> is commented out in the source: a full queue only logs
  an error and the element is then written past the allocation, the \<open>Out_of_bounds\<close> fault here.
  A NULL handle is the argument \<open>None\<close>; the status is 1 then and 0 otherwise.
\<close>

definition pqueue_insert ::
  "('s, 'e, 'p) pqueue_t option \<Rightarrow> 's \<Rightarrow> 'e \<Rightarrow> (int \<times> ('s, 'e, 'p) pqueue_t option \<times> 's) result" where
  "pqueue_insert qo s e =
     (case qo of None \<Rightarrow> Inr (1, None, s)
      | Some q \<Rightarrow>
          if pq_size q \<ge> pq_avail q then Inl Out_of_bounds
          else let i = pq_size q;
                   q1 = q\<lparr>pq_size := i + 1, pq_d := (pq_d q)(i := e)\<rparr>;
                   (q2, s2) = bubble_up q1 s i
               in Inr (0, Some q2, s2))"

definition pqueue_change_priority ::
  "('s, 'e, 'p) pqueue_t \<Rightarrow> 's \<Rightarrow> 'p \<Rightarrow> 'e \<Rightarrow> ('s, 'e, 'p) pqueue_t \<times> 's" where
  "pqueue_change_priority q s new_pri e =
     (let old_pri = pq_getpri q s e;
          s1 = pq_setpri q e new_pri s;
          posn = pq_getpos q s1 e
      in if pq_cmppri q old_pri new_pri then bubble_up q s1 posn
         else percolate_down q s1 posn)"

definition pqueue_remove ::
  "('s, 'e, 'p) pqueue_t \<Rightarrow> 's \<Rightarrow> 'e \<Rightarrow> int \<times> ('s, 'e, 'p) pqueue_t \<times> 's" where
  "pqueue_remove q s e =
     (let posn = pq_getpos q s e;
          n = pq_size q - 1;
          q1 = q\<lparr>pq_size := n, pq_d := (pq_d q)(posn := pq_d q n)\<rparr>;
          (q2, s2) = (if pq_cmppri q (pq_getpri q s e) (pq_getpri q s (pq_d q1 posn))
                      then bubble_up q1 s posn
                      else percolate_down q1 s posn)
      in (0, q2, s2))"

definition pqueue_pop ::
  "('s, 'e, 'p) pqueue_t option \<Rightarrow> 's \<Rightarrow> 'e option \<times> ('s, 'e, 'p) pqueue_t option \<times> 's" where
  "pqueue_pop qo s =
     (case qo of None \<Rightarrow> (None, None, s)
      | Some q \<Rightarrow>
          if pq_size q = 1 then (None, Some q, s)
          else let hd_node = pq_d q 1;
                   n = pq_size q - 1;
                   q1 = q\<lparr>pq_size := n, pq_d := (pq_d q)(1 := pq_d q n)\<rparr>;
                   (q2, s2) = percolate_down q1 s 1
               in (Some hd_node, Some q2, s2))"

definition pqueue_peek :: "('s, 'e, 'p) pqueue_t option \<Rightarrow> 'e option" where
  "pqueue_peek qo =
     (case qo of None \<Rightarrow> None
      | Some q \<Rightarrow> if pq_size q = 1 then None else Some (pq_d q 1))"

text \<open>
  \<^verbatim>\<open>subtree_is_valid\<close> recurses below every position that has children.  Position 0 is never
  passed (\<^verbatim>\<open>pqueue_is_valid\<close> starts at 1); there the C recursion would not end, and the model
  has the guard \<open>0 < pos\<close> for it.
\<close>

function subtree_is_valid :: "('s, 'e, 'p) pqueue_t \<Rightarrow> 's \<Rightarrow> nat \<Rightarrow> bool" where
  "subtree_is_valid q s pos =
     (if pos = 0 then True
      else
       (if pq_left pos < pq_size q
        then \<not> pq_cmppri q (pq_getpri q s (pq_d q pos)) (pq_getpri q s (pq_d q (pq_left pos))) \<and>
             subtree_is_valid q s (pq_left pos)
        else True) \<and>
       (if pq_right pos < pq_size q
        then \<not> pq_cmppri q (pq_getpri q s (pq_d q pos)) (pq_getpri q s (pq_d q (pq_right pos))) \<and>
             subtree_is_valid q s (pq_right pos)
        else True))"
  by pat_completeness auto
termination
  by (relation "measure (\<lambda>(q, s, i). pq_size q - i)") (auto simp: pq_left_def pq_right_def)

declare subtree_is_valid.simps [simp del]

definition pqueue_is_valid :: "('s, 'e, 'p) pqueue_t \<Rightarrow> 's \<Rightarrow> bool" where
  "pqueue_is_valid q s = subtree_is_valid q s 1"

subsection \<open>Heap order on arrays of priorities\<close>

text \<open>
  \<open>heap_upto cmp P n\<close>: no position in \<open>2..<n\<close> beats its parent.  The two weakened orders
  describe a heap with one element out of place: \<open>rise_inv\<close> while it moves up and
  \<open>sink_inv\<close> while it moves down.
\<close>

definition heap_upto :: "('p \<Rightarrow> 'p \<Rightarrow> bool) \<Rightarrow> (nat \<Rightarrow> 'p) \<Rightarrow> nat \<Rightarrow> bool" where
  "heap_upto cmp P n \<longleftrightarrow> (\<forall>k\<in>{2..<n}. \<not> cmp (P (k div 2)) (P k))"

definition bridged :: "('p \<Rightarrow> 'p \<Rightarrow> bool) \<Rightarrow> (nat \<Rightarrow> 'p) \<Rightarrow> nat \<Rightarrow> nat \<Rightarrow> bool" where
  "bridged cmp P n i \<longleftrightarrow> (1 < i \<longrightarrow> (\<forall>k\<in>{2..<n}. k div 2 = i \<longrightarrow> \<not> cmp (P (i div 2)) (P k)))"

definition rise_inv :: "('p \<Rightarrow> 'p \<Rightarrow> bool) \<Rightarrow> (nat \<Rightarrow> 'p) \<Rightarrow> nat \<Rightarrow> nat \<Rightarrow> bool" where
  "rise_inv cmp P n i \<longleftrightarrow>
     (\<forall>k\<in>{2..<n}. k \<noteq> i \<longrightarrow> \<not> cmp (P (k div 2)) (P k)) \<and> bridged cmp P n i"

definition sink_inv :: "('p \<Rightarrow> 'p \<Rightarrow> bool) \<Rightarrow> (nat \<Rightarrow> 'p) \<Rightarrow> nat \<Rightarrow> nat \<Rightarrow> bool" where
  "sink_inv cmp P n i \<longleftrightarrow>
     (\<forall>k\<in>{2..<n}. k div 2 \<noteq> i \<longrightarrow> \<not> cmp (P (k div 2)) (P k)) \<and> bridged cmp P n i"

lemma heap_uptoD: "heap_upto cmp P n \<Longrightarrow> 2 \<le> k \<Longrightarrow> k < n \<Longrightarrow> \<not> cmp (P (k div 2)) (P k)"
  by (simp add: heap_upto_def)

lemma heap_upto_less: "heap_upto cmp P n \<Longrightarrow> m \<le> n \<Longrightarrow> heap_upto cmp P m"
  by (auto simp: heap_upto_def)

lemma heap_upto_cong: "(\<And>k. 1 \<le> k \<Longrightarrow> k < n \<Longrightarrow> P k = Q k) \<Longrightarrow> heap_upto cmp P n = heap_upto cmp Q n"
  unfolding heap_upto_def by (rule ball_cong) auto

lemma bridged_cong:
  assumes "\<And>k. 1 \<le> k \<Longrightarrow> k < n \<Longrightarrow> P k = Q k" "i < n"
  shows "bridged cmp P n i = bridged cmp Q n i"
  unfolding bridged_def using assms by (intro imp_cong refl ball_cong) auto

lemma rise_inv_cong:
  assumes "\<And>k. 1 \<le> k \<Longrightarrow> k < n \<Longrightarrow> P k = Q k" "i < n"
  shows "rise_inv cmp P n i = rise_inv cmp Q n i"
  unfolding rise_inv_def using assms
  by (intro conj_cong bridged_cong refl ball_cong imp_cong) auto

lemma sink_inv_cong:
  assumes "\<And>k. 1 \<le> k \<Longrightarrow> k < n \<Longrightarrow> P k = Q k" "i < n"
  shows "sink_inv cmp P n i = sink_inv cmp Q n i"
  unfolding sink_inv_def using assms
  by (intro conj_cong bridged_cong refl ball_cong imp_cong) auto

text \<open>The contract of the comparison callback: a strict weak order.\<close>

locale pri_order =
  fixes cmp :: "'p \<Rightarrow> 'p \<Rightarrow> bool"
  assumes cmp_asym: "cmp a b \<Longrightarrow> \<not> cmp b a"
    and cmp_split: "cmp a c \<Longrightarrow> cmp a b \<or> cmp b c"
begin

lemma cmp_irrefl: "\<not> cmp a a"
  using cmp_asym by blast

lemma cmp_trans: "cmp a b \<Longrightarrow> cmp b c \<Longrightarrow> cmp a c"
  using cmp_asym cmp_split by blast

lemma not_cmp_trans: "\<not> cmp a b \<Longrightarrow> \<not> cmp b c \<Longrightarrow> \<not> cmp a c"
  using cmp_split by blast

lemma not_cmp_below: "\<not> cmp a c \<Longrightarrow> cmp a b \<Longrightarrow> \<not> cmp b c"
  using cmp_trans by blast

lemma heap_root:
  assumes "heap_upto cmp P n" "1 \<le> k" "k < n"
  shows "\<not> cmp (P 1) (P k)"
  using assms(2,3)
proof (induction k rule: less_induct)
  case (less k)
  show ?case
  proof (cases "k = 1")
    case True
    then show ?thesis by (simp add: cmp_irrefl)
  next
    case False
    with less.prems have k: "2 \<le> k" by simp
    then have "\<not> cmp (P 1) (P (k div 2))"
      using less by auto
    moreover have "\<not> cmp (P (k div 2)) (P k)"
      using assms(1) k less.prems(2) by (rule heap_uptoD)
    ultimately show ?thesis by (rule not_cmp_trans)
  qed
qed

lemma rise_step:
  assumes inv: "rise_inv cmp P n i" and i: "1 < i" and gt: "cmp (P (i div 2)) (P i)"
  shows "rise_inv cmp (P(i := P (i div 2), i div 2 := P i)) n (i div 2)"
proof -
  let ?p = "i div 2"
  let ?Q = "P(i := P ?p, ?p := P i)"
  have p: "?p < i" "1 \<le> ?p" using i by auto
  have edge: "\<not> cmp (P (k div 2)) (P k)" if "k \<in> {2..<n}" "k \<noteq> i" for k
    using inv that by (simp add: rise_inv_def)
  have "\<not> cmp (?Q (k div 2)) (?Q k)" if k: "k \<in> {2..<n}" "k \<noteq> ?p" for k
  proof -
    consider "k = i" | "k \<noteq> i" "k div 2 = i" | "k \<noteq> i" "k div 2 = ?p" | "k \<noteq> i" "k div 2 \<noteq> i" "k div 2 \<noteq> ?p"
      by blast
    then show ?thesis
    proof cases
      case 1
      with p gt show ?thesis by (simp add: cmp_asym)
    next
      case 2
      with inv i k p show ?thesis by (auto simp: rise_inv_def bridged_def)
    next
      case 3
      have "\<not> cmp (P ?p) (P k)" using edge [of k] 3 k(1) by simp
      then have "\<not> cmp (P i) (P k)" using gt by (rule not_cmp_below)
      then show ?thesis using 3 k p by simp
    next
      case 4
      then show ?thesis using edge [of k] k p by simp
    qed
  qed
  moreover have "bridged cmp ?Q n ?p"
    unfolding bridged_def
  proof (intro impI ballI)
    fix k
    assume p1: "1 < ?p" and k: "k \<in> {2..<n}" "k div 2 = ?p"
    have "?p \<in> {2..<n}" "?p \<noteq> i" using p1 k p by auto
    then have g: "\<not> cmp (P (?p div 2)) (P ?p)" by (rule edge)
    have pp: "?p div 2 \<noteq> i" "?p div 2 \<noteq> ?p" "k \<noteq> ?p" using p p1 k by auto
    show "\<not> cmp (?Q (?p div 2)) (?Q k)"
    proof (cases "k = i")
      case True
      then show ?thesis using g p pp by simp
    next
      case False
      then have "\<not> cmp (P ?p) (P k)" using edge [of k] k by simp
      with g have "\<not> cmp (P (?p div 2)) (P k)" by (rule not_cmp_trans)
      then show ?thesis using False pp by simp
    qed
  qed
  ultimately show ?thesis by (simp add: rise_inv_def)
qed

lemma rise_done:
  assumes "rise_inv cmp P n i" "\<not> (1 < i \<and> cmp (P (i div 2)) (P i))"
  shows "heap_upto cmp P n"
proof -
  have "\<not> cmp (P (k div 2)) (P k)" if "k \<in> {2..<n}" for k
    using assms that by (cases "k = i") (auto simp: rise_inv_def)
  then show ?thesis by (simp add: heap_upto_def)
qed

lemma sink_step:
  assumes inv: "sink_inv cmp P n i" and c: "c div 2 = i" "c < n" and i: "1 \<le> i"
    and best: "\<And>k. 2 \<le> k \<Longrightarrow> k < n \<Longrightarrow> k div 2 = i \<Longrightarrow> \<not> cmp (P c) (P k)"
    and gt: "cmp (P i) (P c)"
  shows "sink_inv cmp (P(i := P c, c := P i)) n c"
proof -
  let ?Q = "P(i := P c, c := P i)"
  have ic: "i < c" "2 \<le> c" using c i by auto
  have edge: "\<not> cmp (P (k div 2)) (P k)" if "k \<in> {2..<n}" "k div 2 \<noteq> i" for k
    using inv that by (simp add: sink_inv_def)
  have "\<not> cmp (?Q (k div 2)) (?Q k)" if k: "k \<in> {2..<n}" "k div 2 \<noteq> c" for k
  proof -
    consider "k = i" | "k = c" | "k \<noteq> i" "k \<noteq> c" "k div 2 = i" | "k \<noteq> i" "k \<noteq> c" "k div 2 \<noteq> i"
      by blast
    then show ?thesis
    proof cases
      case 1
      then have "\<not> cmp (P (i div 2)) (P c)"
        using inv c ic k(1) by (auto simp: sink_inv_def bridged_def)
      then show ?thesis using 1 k ic by auto
    next
      case 2
      then show ?thesis using gt c ic by (auto dest: cmp_asym)
    next
      case 3
      then show ?thesis using best [of k] k ic by auto
    next
      case 4
      then show ?thesis using edge [of k] k by auto
    qed
  qed
  moreover have "bridged cmp ?Q n c"
    unfolding bridged_def
  proof (intro impI ballI)
    fix k
    assume k: "k \<in> {2..<n}" "k div 2 = c"
    then have "\<not> cmp (P c) (P k)" using edge [of k] ic by auto
    then show "\<not> cmp (?Q (c div 2)) (?Q k)" using c ic k by auto
  qed
  ultimately show ?thesis by (simp add: sink_inv_def)
qed

lemma sink_done:
  assumes "sink_inv cmp P n i"
    and "\<And>k. 2 \<le> k \<Longrightarrow> k < n \<Longrightarrow> k div 2 = i \<Longrightarrow> \<not> cmp (P i) (P k)"
  shows "heap_upto cmp P n"
proof -
  have "\<not> cmp (P (k div 2)) (P k)" if "k \<in> {2..<n}" for k
    using assms(1) assms(2) [of k] that by (cases "k div 2 = i") (auto simp: sink_inv_def)
  then show ?thesis by (simp add: heap_upto_def)
qed

text \<open>Replacing the priority at one position of a heap: it rises if it beats the old one,
  otherwise it sinks.\<close>

lemma heap_bridged:
  assumes "heap_upto cmp P n" "i < n"
  shows "bridged cmp (P(i := x)) n i"
  unfolding bridged_def
proof (intro impI ballI)
  fix k
  assume i: "1 < i" and k: "k \<in> {2..<n}" "k div 2 = i"
  have "\<not> cmp (P (i div 2)) (P i)" using heap_uptoD [OF assms(1), of i] assms(2) i by simp
  moreover have "\<not> cmp (P i) (P k)" using heap_uptoD [OF assms(1), of k] k by auto
  ultimately have "\<not> cmp (P (i div 2)) (P k)" by (rule not_cmp_trans)
  then show "\<not> cmp ((P(i := x)) (i div 2)) ((P(i := x)) k)" using i k by auto
qed

lemma heap_replace_rise:
  assumes h: "heap_upto cmp P n" and i: "1 \<le> i" "i < n" and gt: "cmp (P i) x"
  shows "rise_inv cmp (P(i := x)) n i"
proof -
  have "\<not> cmp ((P(i := x)) (k div 2)) ((P(i := x)) k)" if k: "k \<in> {2..<n}" "k \<noteq> i" for k
  proof -
    have e: "\<not> cmp (P (k div 2)) (P k)" using heap_uptoD [OF h, of k] k by simp
    show ?thesis
    proof (cases "k div 2 = i")
      case True
      with e have "\<not> cmp (P i) (P k)" by simp
      then have "\<not> cmp x (P k)" using gt by (rule not_cmp_below)
      then show ?thesis using True k by simp
    next
      case False
      then show ?thesis using e k by simp
    qed
  qed
  then show ?thesis using heap_bridged [OF h i(2)] by (simp add: rise_inv_def)
qed

lemma heap_replace_sink:
  assumes h: "heap_upto cmp P n" and i: "1 \<le> i" "i < n" and le: "\<not> cmp (P i) x"
  shows "sink_inv cmp (P(i := x)) n i"
proof -
  have "\<not> cmp ((P(i := x)) (k div 2)) ((P(i := x)) k)" if k: "k \<in> {2..<n}" "k div 2 \<noteq> i" for k
  proof -
    have e: "\<not> cmp (P (k div 2)) (P k)" using heap_uptoD [OF h, of k] k by simp
    show ?thesis
      using e k le not_cmp_trans [of "P (k div 2)" "P i" x] by (cases "k = i") auto
  qed
  then show ?thesis using heap_bridged [OF h i(2)] by (simp add: sink_inv_def)
qed

lemma heap_snoc_rise:
  assumes "heap_upto cmp P n"
  shows "rise_inv cmp (P(n := x)) (Suc n) n"
  using assms by (auto simp: rise_inv_def bridged_def heap_upto_def)

end

subsection \<open>The invariant of a queue\<close>

text \<open>
  \<open>pq_elems\<close> is the set of queued pointers; \<open>pq_inv\<close> says that the queued pointers are
  distinct live elements that fit the allocation, that they are in heap order, and that every
  queued element knows its own index.
\<close>

definition pq_elems :: "('s, 'e, 'p) pqueue_t \<Rightarrow> 'e set" where
  "pq_elems q = pq_d q ` {1..<pq_size q}"

definition pq_pris :: "('s, 'e, 'p) pqueue_t \<Rightarrow> 's \<Rightarrow> nat \<Rightarrow> 'p" where
  "pq_pris q s = (\<lambda>k. pq_getpri q s (pq_d q k))"

definition pq_shape :: "('s \<Rightarrow> 'e \<Rightarrow> bool) \<Rightarrow> ('s, 'e, 'p) pqueue_t \<Rightarrow> 's \<Rightarrow> bool" where
  "pq_shape live q s \<longleftrightarrow> 1 \<le> pq_size q \<and> pq_size q \<le> pq_avail q \<and>
     inj_on (pq_d q) {1..<pq_size q} \<and> (\<forall>e\<in>pq_elems q. live s e)"

definition pq_placed :: "('s, 'e, 'p) pqueue_t \<Rightarrow> 's \<Rightarrow> nat set \<Rightarrow> bool" where
  "pq_placed q s I \<longleftrightarrow> (\<forall>k\<in>I. pq_getpos q s (pq_d q k) = k)"

definition pq_inv :: "('s \<Rightarrow> 'e \<Rightarrow> bool) \<Rightarrow> ('s, 'e, 'p) pqueue_t \<Rightarrow> 's \<Rightarrow> bool" where
  "pq_inv live q s \<longleftrightarrow> pq_shape live q s \<and> heap_upto (pq_cmppri q) (pq_pris q s) (pq_size q) \<and>
     pq_placed q s {1..<pq_size q}"

definition pq_part :: "('s \<Rightarrow> 'e \<Rightarrow> bool) \<Rightarrow> ('s, 'e, 'p) pqueue_t \<Rightarrow> 's \<Rightarrow> bool" where
  "pq_part live q s \<longleftrightarrow> pq_shape live q s \<and> pq_placed q s {1..<pq_size q}"

text \<open>\<open>pq_plug q i m\<close> is the queue with the moving node \<open>m\<close> written back into the hole \<open>i\<close>: the
  two loops keep the invariants of the plugged queue.\<close>

definition pq_plug :: "('s, 'e, 'p) pqueue_t \<Rightarrow> nat \<Rightarrow> 'e \<Rightarrow> ('s, 'e, 'p) pqueue_t" where
  "pq_plug q i m = q\<lparr>pq_d := (pq_d q)(i := m)\<rparr>"

definition pq_bound ::
  "('s, 'e, 'p) pqueue_t \<Rightarrow> ('p \<Rightarrow> 'p \<Rightarrow> bool) \<Rightarrow> ('s \<Rightarrow> 'e \<Rightarrow> 'p) \<Rightarrow>
   ('e \<Rightarrow> 'p \<Rightarrow> 's \<Rightarrow> 's) \<Rightarrow> ('s \<Rightarrow> 'e \<Rightarrow> nat) \<Rightarrow> ('e \<Rightarrow> nat \<Rightarrow> 's \<Rightarrow> 's) \<Rightarrow> bool" where
  "pq_bound q cmp getpri setpri getpos setpos \<longleftrightarrow>
     pq_cmppri q = cmp \<and> pq_getpri q = getpri \<and> pq_setpri q = setpri \<and>
     pq_getpos q = getpos \<and> pq_setpos q = setpos"

lemma pq_plug_simps [simp]:
  "pq_size (pq_plug q i m) = pq_size q" "pq_avail (pq_plug q i m) = pq_avail q"
  "pq_cmppri (pq_plug q i m) = pq_cmppri q" "pq_getpri (pq_plug q i m) = pq_getpri q"
  "pq_setpri (pq_plug q i m) = pq_setpri q" "pq_getpos (pq_plug q i m) = pq_getpos q"
  "pq_setpos (pq_plug q i m) = pq_setpos q" "pq_d (pq_plug q i m) = (pq_d q)(i := m)"
  by (simp_all add: pq_plug_def)

lemma pq_plug_self [simp]: "pq_plug q i (pq_d q i) = q"
  by (simp add: pq_plug_def)

lemma pq_pris_plug: "pq_pris (pq_plug q i m) s = (pq_pris q s)(i := pq_getpri q s m)"
  by (auto simp: pq_pris_def)

lemma swap_image:
  assumes "i \<in> A" "j \<in> A"
  shows "(f(i := f j, j := f i)) ` A = f ` A"
proof
  show "(f(i := f j, j := f i)) ` A \<subseteq> f ` A" using assms by auto
  show "f ` A \<subseteq> (f(i := f j, j := f i)) ` A"
  proof
    fix y assume "y \<in> f ` A"
    then obtain k where k: "k \<in> A" "y = f k" by auto
    consider "k = i" | "k = j" | "k \<noteq> i" "k \<noteq> j" by blast
    then show "y \<in> (f(i := f j, j := f i)) ` A"
    proof cases
      case 1
      with k assms show ?thesis by (intro image_eqI [where x = j]) auto
    next
      case 2
      with k assms show ?thesis by (intro image_eqI [where x = i]) auto
    next
      case 3
      with k show ?thesis by (intro image_eqI [where x = k]) auto
    qed
  qed
qed

lemma swap_inj_on:
  assumes "inj_on f A" "i \<in> A" "j \<in> A"
  shows "inj_on (f(i := f j, j := f i)) A"
  using assms by (auto simp: inj_on_def)

text \<open>Moving the hole from \<open>i\<close> to \<open>j\<close> swaps two entries of the plugged queue.\<close>

lemma hole_swap:
  "i \<noteq> j \<Longrightarrow> pq_d (pq_plug (q\<lparr>pq_d := (pq_d q)(i := pq_d q j)\<rparr>) j m) =
     (pq_d (pq_plug q i m))(i := pq_d (pq_plug q i m) j, j := pq_d (pq_plug q i m) i)"
  by auto

lemma hole_elems:
  assumes "i \<in> {1..<pq_size q}" "j \<in> {1..<pq_size q}" "i \<noteq> j"
  shows "pq_elems (pq_plug (q\<lparr>pq_d := (pq_d q)(i := pq_d q j)\<rparr>) j m) = pq_elems (pq_plug q i m)"
proof -
  let ?f = "pq_d (pq_plug q i m)"
  have "pq_elems (pq_plug (q\<lparr>pq_d := (pq_d q)(i := pq_d q j)\<rparr>) j m) =
      (?f(i := ?f j, j := ?f i)) ` {1..<pq_size q}"
    unfolding pq_elems_def hole_swap [OF assms(3)] by (rule image_cong) simp_all
  also have "\<dots> = ?f ` {1..<pq_size q}"
    by (rule swap_image [OF assms(1,2)])
  finally show ?thesis by (simp only: pq_elems_def pq_plug_simps)
qed

lemma hole_shape:
  assumes "pq_shape live (pq_plug q i m) s" "i \<in> {1..<pq_size q}" "j \<in> {1..<pq_size q}" "i \<noteq> j"
  shows "pq_shape live (pq_plug (q\<lparr>pq_d := (pq_d q)(i := pq_d q j)\<rparr>) j m) s"
proof -
  have "inj_on (pq_d (pq_plug q i m)) {1..<pq_size q}"
    using assms(1) by (simp add: pq_shape_def)
  from swap_inj_on [OF this assms(2,3)] show ?thesis
    using assms(1) unfolding pq_shape_def hole_swap [OF assms(4)] hole_elems [OF assms(2-4)]
    by simp
qed

lemma hole_pris:
  assumes "i \<noteq> j" "pq_getpri q s' = pq_getpri q s"
  shows "pq_pris (pq_plug (q\<lparr>pq_d := (pq_d q)(i := pq_d q j)\<rparr>) j m) s' =
     (pq_pris (pq_plug q i m) s)
       (i := pq_pris (pq_plug q i m) s j, j := pq_pris (pq_plug q i m) s i)"
  using assms by (auto simp: pq_pris_def)

subsection \<open>The run-time check agrees with heap order\<close>

lemma heap_subtree_valid:
  assumes "heap_upto (pq_cmppri q) (pq_pris q s) (pq_size q)" "1 \<le> pos"
  shows "subtree_is_valid q s pos"
  using assms
proof (induction q s pos rule: subtree_is_valid.induct)
  case (1 q s pos)
  have edge: "\<not> pq_cmppri q (pq_getpri q s (pq_d q pos)) (pq_getpri q s (pq_d q k))"
    if "k div 2 = pos" "k < pq_size q" for k
    using heap_uptoD [OF "1.prems"(1), of k] that "1.prems"(2) by (auto simp: pq_pris_def)
  show ?case
    using "1.IH" "1.prems" edge
    by (subst subtree_is_valid.simps) (auto simp: pq_left_def pq_right_def)
qed

lemma subtree_valid_edge:
  assumes "subtree_is_valid q s pos" "1 \<le> pos" "k div 2 ^ Suc j = pos" "k < pq_size q"
  shows "\<not> pq_cmppri q (pq_pris q s (k div 2)) (pq_pris q s k)"
  using assms
proof (induction q s pos arbitrary: j rule: subtree_is_valid.induct)
  case (1 q s pos)
  let ?c = "k div 2 ^ j"
  have c: "?c div 2 = pos" using "1.prems"(3) by (metis div_mult2_eq mult.commute power_Suc)
  then have lr: "?c = pq_left pos \<or> ?c = pq_right pos" by (auto simp: pq_left_def pq_right_def)
  have cs: "?c < pq_size q" using "1.prems"(4) by (rule le_less_trans [OF div_le_dividend])
  note v = "1.prems"(1) [unfolded subtree_is_valid.simps [of q s pos]]
  have edge: "\<not> pq_cmppri q (pq_pris q s pos) (pq_pris q s ?c)" and sub: "subtree_is_valid q s ?c"
    using v lr cs "1.prems"(2) by (auto simp: pq_pris_def)
  show ?case
  proof (cases j)
    case 0
    then show ?thesis using edge c by simp
  next
    case (Suc j')
    have "1 \<le> ?c" using c "1.prems"(2) by (cases "?c = 0") auto
    then show ?thesis using "1.IH" lr cs sub Suc "1.prems"(2,4) by (metis One_nat_def not_one_le_zero)
  qed
qed

lemma reaches_root: "2 \<le> k \<Longrightarrow> \<exists>j. (k::nat) div 2 ^ Suc j = 1"
proof (induction k rule: less_induct)
  case (less k)
  show ?case
  proof (cases "k < 4")
    case True
    with less.prems have "k div 2 ^ Suc 0 = 1" by auto
    then show ?thesis by blast
  next
    case False
    then have "k div 2 < k" "2 \<le> k div 2" by auto
    then obtain j where "k div 2 div 2 ^ Suc j = 1" using less.IH by blast
    then have "k div 2 ^ Suc (Suc j) = 1" by (metis div_mult2_eq power_Suc)
    then show ?thesis by blast
  qed
qed

lemma is_valid_heap:
  "pqueue_is_valid q s = heap_upto (pq_cmppri q) (pq_pris q s) (pq_size q)"
proof
  assume v: "pqueue_is_valid q s"
  show "heap_upto (pq_cmppri q) (pq_pris q s) (pq_size q)"
    unfolding heap_upto_def
  proof
    fix k assume k: "k \<in> {2..<pq_size q}"
    then obtain j where "k div 2 ^ Suc j = 1" using reaches_root by auto
    with v k show "\<not> pq_cmppri q (pq_pris q s (k div 2)) (pq_pris q s k)"
      using subtree_valid_edge [of q s 1 k j] by (auto simp: pqueue_is_valid_def)
  qed
qed (simp add: pqueue_is_valid_def heap_subtree_valid)

text \<open>
  \<^bold>\<open>C21.\<close>  The recursive check \<open>pqueue_is_valid\<close> decides heap order: it answers yes exactly when no element
  beats the element at its parent's index, wherever in the array the two are.
\<close>

theorem pqueue_is_valid_iff:
  "pqueue_is_valid q s \<longleftrightarrow>
     (\<forall>k\<in>{2..<pq_size q}. \<not> pq_cmppri q (pq_getpri q s (pq_d q (pq_parent k))) (pq_getpri q s (pq_d q k)))"
  unfolding is_valid_heap heap_upto_def pq_pris_def pq_parent_def ..

theorem pqueue_is_valid_iff_witness:
  "\<not> pqueue_is_valid \<lparr>pq_size = 4, pq_avail = 4, pq_step = 4, pq_cmppri = (\<lambda>a b. (b :: nat) < a), pq_getpri = (!),
     pq_setpri = (\<lambda>_ _ s. s), pq_getpos = (\<lambda>_ _. 0), pq_setpos = (\<lambda>_ _ s. s), pq_d = (\<lambda>i. i)\<rparr> [0, 5, 7, 3]"
  unfolding pqueue_is_valid_iff by (intro notI) (drule bspec [of _ _ 3], simp_all add: pq_parent_def)

subsection \<open>What the operations leave alone in the store\<close>

text \<open>A view of the store that the position callback does not change survives every operation; the
  priority change has to leave it alone too.\<close>

lemma bubble_up_view:
  assumes "\<And>e i s. view (pq_setpos q e i s) = view s"
  shows "view (snd (bubble_up q s i)) = view s \<and> pq_setpos (fst (bubble_up q s i)) = pq_setpos q"
proof -
  have "view (fst (snd (bubble_up_loop q s p i))) = view s \<and> pq_setpos (fst (bubble_up_loop q s p i)) = pq_setpos q" for p
    using assms
  proof (induction q s p i rule: bubble_up_loop.induct)
    case (1 q s p i)
    show ?case
    proof (cases "i > 1 \<and> pq_cmppri q (pq_getpri q s (pq_d q (pq_parent i))) p")
      case True
      then show ?thesis using "1.IH" [OF True refl refl] "1.prems"
        by (simp add: bubble_up_loop.simps [of q s p i] Let_def)
    qed (auto simp: bubble_up_loop.simps [of q s p i])
  qed
  then show ?thesis using assms by (simp add: bubble_up_def Let_def split_def)
qed

lemma percolate_down_view:
  assumes "\<And>e i s. view (pq_setpos q e i s) = view s"
  shows "view (snd (percolate_down q s i)) = view s \<and> pq_setpos (fst (percolate_down q s i)) = pq_setpos q"
proof -
  have "view (fst (snd (percolate_down_loop q s p i))) = view s \<and>
      pq_setpos (fst (percolate_down_loop q s p i)) = pq_setpos q" for p
    using assms
  proof (induction q s p i rule: percolate_down_loop.induct)
    case (1 q s p i)
    show ?case
    proof (cases "maxchild q s i \<noteq> 0 \<and> pq_cmppri q p (pq_getpri q s (pq_d q (maxchild q s i)))")
      case True
      then show ?thesis using "1.IH" [OF refl True refl refl] "1.prems"
        by (simp add: percolate_down_loop.simps [of q s p i] Let_def)
    qed (auto simp: percolate_down_loop.simps [of q s p i] Let_def)
  qed
  then show ?thesis using assms by (simp add: percolate_down_def Let_def split_def)
qed

lemma pqueue_views:
  assumes "\<And>e i s. view (pq_setpos q e i s) = view s"
  shows "pqueue_insert (Some q) s e = Inr (r, q', s') \<Longrightarrow> view s' = view s"
    "pqueue_pop (Some q) s = (x, q', s') \<Longrightarrow> view s' = view s"
    "pqueue_change_priority q s p e = (q'', s') \<Longrightarrow> view s' = view (pq_setpri q e p s)"
proof -
  show "view s' = view s" if "pqueue_insert (Some q) s e = Inr (r, q', s')"
    using that bubble_up_view [of view "q\<lparr>pq_size := pq_size q + 1, pq_d := (pq_d q)(pq_size q := e)\<rparr>"] assms
    by (auto simp: pqueue_insert_def Let_def split_def split: if_splits)
  show "view s' = view s" if "pqueue_pop (Some q) s = (x, q', s')"
    using that percolate_down_view [of view "q\<lparr>pq_size := pq_size q - 1, pq_d := (pq_d q)(1 := pq_d q (pq_size q - 1))\<rparr>"] assms
    by (auto simp: pqueue_pop_def Let_def split_def split: if_splits)
  show "view s' = view (pq_setpri q e p s)" if "pqueue_change_priority q s p e = (q'', s')"
    using that percolate_down_view [of view q, OF assms] bubble_up_view [of view q, OF assms]
    unfolding pqueue_change_priority_def Let_def by (metis snd_conv)
qed

subsection \<open>The contract between the queue and its element store\<close>

text \<open>
  \<open>live s e\<close>: \<open>e\<close> points to an element of the store.  \<open>pri_ok p\<close>: the priority \<open>p\<close> can be
  stored and read back unchanged.
\<close>

locale pq_store = pri_order cmp for cmp :: "'p \<Rightarrow> 'p \<Rightarrow> bool" +
  fixes getpri :: "'s \<Rightarrow> 'e \<Rightarrow> 'p"
    and setpri :: "'e \<Rightarrow> 'p \<Rightarrow> 's \<Rightarrow> 's"
    and getpos :: "'s \<Rightarrow> 'e \<Rightarrow> nat"
    and setpos :: "'e \<Rightarrow> nat \<Rightarrow> 's \<Rightarrow> 's"
    and live :: "'s \<Rightarrow> 'e \<Rightarrow> bool"
    and pri_ok :: "'p \<Rightarrow> bool"
  assumes getpos_setpos: "live s e \<Longrightarrow> getpos (setpos e i s) e' = (if e' = e then i else getpos s e')"
    and getpri_setpos: "getpri (setpos e i s) = getpri s"
    and live_setpos: "live (setpos e i s) = live s"
    and getpri_setpri: "live s e \<Longrightarrow> pri_ok p \<Longrightarrow>
          getpri (setpri e p s) e' = (if e' = e then p else getpri s e')"
    and getpos_setpri: "getpos (setpri e p s) = getpos s"
    and live_setpri: "live (setpri e p s) = live s"
begin

definition handle :: "('s, 'e, 'p) pqueue_t \<Rightarrow> bool" where
  "handle q \<longleftrightarrow> pq_bound q cmp getpri setpri getpos setpos"

definition pos_only :: "'e set \<Rightarrow> 's \<Rightarrow> 's \<Rightarrow> bool" where
  "pos_only E s s' \<longleftrightarrow> getpri s' = getpri s \<and> live s' = live s \<and>
     (\<forall>e. e \<notin> E \<longrightarrow> getpos s' e = getpos s e)"

lemma handle_upd [simp]:
  "handle (q\<lparr>pq_d := f\<rparr>) = handle q" "handle (q\<lparr>pq_size := n\<rparr>) = handle q"
  "handle (pq_plug q i m) = handle q"
  by (simp_all add: handle_def pq_bound_def)

lemma handle_fields [simp]:
  assumes "handle q"
  shows "pq_cmppri q = cmp" "pq_getpri q = getpri" "pq_setpri q = setpri" "pq_getpos q = getpos"
    "pq_setpos q = setpos"
  using assms by (simp_all add: handle_def pq_bound_def)

lemma pos_only_refl [simp]: "pos_only E s s"
  by (simp add: pos_only_def)

lemma pos_only_trans: "pos_only E s t \<Longrightarrow> pos_only E t u \<Longrightarrow> pos_only E s u"
  by (simp add: pos_only_def)

lemma pos_only_setpos: "live s e \<Longrightarrow> e \<in> E \<Longrightarrow> pos_only E s (setpos e i s)"
  by (auto simp: pos_only_def getpos_setpos getpri_setpos live_setpos)

lemma pos_only_shape: "pos_only E s s' \<Longrightarrow> pq_shape live q s' = pq_shape live q s"
  by (simp add: pos_only_def pq_shape_def)

lemma pos_only_pris: "handle q \<Longrightarrow> pos_only E s s' \<Longrightarrow> pq_pris q s' = pq_pris q s"
  by (simp add: pos_only_def pq_pris_def)

text \<open>What one iteration of either loop does to the positions: the node moved into the old hole
  gets its new index, the others keep theirs.\<close>

lemma hole_placed:
  assumes "handle q" "pq_shape live (pq_plug q i m) s" "i \<in> {1..<pq_size q}" "j \<in> {1..<pq_size q}"
    "i \<noteq> j" "pq_placed q s ({1..<pq_size q} - {i})"
  defines "q' \<equiv> q\<lparr>pq_d := (pq_d q)(i := pq_d q j)\<rparr>"
  shows "pq_placed q' (setpos (pq_d q j) i s) ({1..<pq_size q} - {j})"
    and "pos_only (pq_elems (pq_plug q i m)) s (setpos (pq_d q j) i s)"
proof -
  have E: "pq_d q j \<in> pq_elems (pq_plug q i m)"
    using assms(4,5) by (auto simp: pq_elems_def intro!: image_eqI [where x = j])
  then have live: "live s (pq_d q j)" using assms(2) by (simp add: pq_shape_def)
  then show "pos_only (pq_elems (pq_plug q i m)) s (setpos (pq_d q j) i s)"
    using E by (rule pos_only_setpos)
  have inj: "inj_on ((pq_d q)(i := m)) {1..<pq_size q}"
    using assms(2) by (simp add: pq_shape_def)
  have ne: "pq_d q k \<noteq> pq_d q j" if "k \<in> {1..<pq_size q}" "k \<noteq> i" "k \<noteq> j" for k
    using inj_onD [OF inj, of k j] that assms(4,5) by auto
  show "pq_placed q' (setpos (pq_d q j) i s) ({1..<pq_size q} - {j})"
    using assms(1,6) live ne by (auto simp: pq_placed_def q'_def getpos_setpos)
qed

lemma plug_placed:
  assumes "handle q" "pq_shape live (pq_plug q i m) s" "i \<in> {1..<pq_size q}"
    "pq_placed q s ({1..<pq_size q} - {i})"
  shows "pq_placed (pq_plug q i m) (setpos m i s) {1..<pq_size q}"
    and "pos_only (pq_elems (pq_plug q i m)) s (setpos m i s)"
proof -
  have E: "m \<in> pq_elems (pq_plug q i m)"
    using assms(3) by (auto simp: pq_elems_def intro!: image_eqI [where x = i])
  then have live: "live s m" using assms(2) by (simp add: pq_shape_def)
  then show "pos_only (pq_elems (pq_plug q i m)) s (setpos m i s)"
    using E by (rule pos_only_setpos)
  have inj: "inj_on ((pq_d q)(i := m)) {1..<pq_size q}"
    using assms(2) by (simp add: pq_shape_def)
  have "pq_d q k \<noteq> m" if "k \<in> {1..<pq_size q}" "k \<noteq> i" for k
    using inj_onD [OF inj, of k i] that assms(3) by auto
  then show "pq_placed (pq_plug q i m) (setpos m i s) {1..<pq_size q}"
    using assms(1,4) live by (auto simp: pq_placed_def getpos_setpos)
qed

text \<open>\<open>hole_ok\<close> is the state between two iterations; \<open>moved\<close> relates it to a later one.\<close>

definition hole_ok :: "('s, 'e, 'p) pqueue_t \<Rightarrow> 's \<Rightarrow> nat \<Rightarrow> 'e \<Rightarrow> bool" where
  "hole_ok q s i m \<longleftrightarrow> handle q \<and> pq_shape live (pq_plug q i m) s \<and> i \<in> {1..<pq_size q} \<and>
     pq_placed q s ({1..<pq_size q} - {i})"

definition moved ::
  "'e \<Rightarrow> ('s, 'e, 'p) pqueue_t \<times> 's \<times> nat \<Rightarrow> ('s, 'e, 'p) pqueue_t \<times> 's \<times> nat \<Rightarrow> bool" where
  "moved m = (\<lambda>(q, s, i) (q', s', i').
     hole_ok q' s' i' m \<and> pq_size q' = pq_size q \<and> pq_avail q' = pq_avail q \<and>
     pq_elems (pq_plug q' i' m) = pq_elems (pq_plug q i m) \<and>
     pos_only (pq_elems (pq_plug q i m)) s s')"

lemma moved_refl: "hole_ok q s i m \<Longrightarrow> moved m (q, s, i) (q, s, i)"
  by (simp add: moved_def)

lemma moved_trans: "moved m x y \<Longrightarrow> moved m y z \<Longrightarrow> moved m x z"
  by (cases x; cases y; cases z) (auto simp: moved_def intro: pos_only_trans)

lemma moved_step:
  assumes "hole_ok q s i m" "j \<in> {1..<pq_size q}" "i \<noteq> j"
  shows "moved m (q, s, i) (q\<lparr>pq_d := (pq_d q)(i := pq_d q j)\<rparr>, setpos (pq_d q j) i s, j)"
proof -
  from assms have q: "handle q" "pq_shape live (pq_plug q i m) s" "i \<in> {1..<pq_size q}"
    "pq_placed q s ({1..<pq_size q} - {i})" by (simp_all add: hole_ok_def)
  note pl = hole_placed [OF q(1-3) assms(2,3) q(4)]
  have "pq_shape live (pq_plug (q\<lparr>pq_d := (pq_d q)(i := pq_d q j)\<rparr>) j m) (setpos (pq_d q j) i s)"
    using pos_only_shape [OF pl(2)] hole_shape [OF q(2,3) assms(2,3)] by (rule iffD2)
  then show ?thesis
    using pl q assms hole_elems [OF q(3) assms(2,3), of m]
    by (simp add: moved_def hole_ok_def)
qed

lemma bubble_up_loop_moved:
  assumes "hole_ok q s i m" "p = getpri s m"
    and "rise_inv cmp (pq_pris (pq_plug q i m) s) (pq_size q) i"
    and "bubble_up_loop q s p i = (q', s', i')"
  shows "moved m (q, s, i) (q', s', i') \<and>
    heap_upto cmp (pq_pris (pq_plug q' i' m) s') (pq_size q)"
  using assms
proof (induction q s p i rule: bubble_up_loop.induct)
  case (1 q s p i)
  let ?j = "pq_parent i"
  let ?q = "q\<lparr>pq_d := (pq_d q)(i := pq_d q ?j)\<rparr>"
  let ?s = "setpos (pq_d q ?j) i s"
  let ?P = "pq_pris (pq_plug q i m) s"
  from "1.prems"(1) have q [simp]: "handle q" and i: "i \<in> {1..<pq_size q}"
    by (simp_all add: hole_ok_def)
  show ?case
  proof (cases "i > 1 \<and> cmp (getpri s (pq_d q ?j)) p")
    case True
    have j: "?j \<in> {1..<pq_size q}" "i \<noteq> ?j" using True i by (auto simp: pq_parent_def)
    have mv: "moved m (q, s, i) (?q, ?s, ?j)" using "1.prems"(1) j by (rule moved_step)
    have P: "pq_pris (pq_plug ?q ?j m) ?s = ?P(i := ?P ?j, ?j := ?P i)"
      using j(2) by (intro hole_pris) (simp_all add: getpri_setpos)
    have "1 < i" "cmp (?P (i div 2)) (?P i)"
      using True "1.prems"(2) j(2) by (simp_all add: pq_parent_def pq_pris_def)
    from rise_step [OF "1.prems"(3) this]
    have "rise_inv cmp (pq_pris (pq_plug ?q ?j m) ?s) (pq_size q) ?j"
      unfolding P by (simp only: pq_parent_def)
    moreover have "bubble_up_loop ?q ?s p ?j = (q', s', i')"
      using "1.prems"(4) True by (simp add: bubble_up_loop.simps [of q s p i] Let_def)
    ultimately have "moved m (?q, ?s, ?j) (q', s', i') \<and>
        heap_upto cmp (pq_pris (pq_plug q' i' m) s') (pq_size ?q)"
      using mv True "1.prems"(2) by (intro "1.IH") (auto simp: moved_def getpri_setpos)
    then show ?thesis using mv moved_trans by fastforce
  next
    case False
    then have "(q', s', i') = (q, s, i)"
      using "1.prems"(4) by (auto simp: bubble_up_loop.simps [of q s p i])
    moreover have "heap_upto cmp ?P (pq_size q)"
      using "1.prems"(2,3) False by (intro rise_done) (auto simp: pq_pris_def pq_parent_def)
    ultimately show ?thesis using "1.prems"(1) by (simp add: moved_refl)
  qed
qed

text \<open>The bigger child, in the order of the callback.\<close>

lemma maxchild_child:
  assumes "maxchild q s i \<noteq> 0" "1 \<le> i"
  shows "maxchild q s i div 2 = i" "maxchild q s i < pq_size q"
  using assms by (auto simp: maxchild_def pq_left_def Let_def split: if_splits)

lemma maxchild_best:
  assumes "handle q" "2 \<le> k" "k < pq_size q" "k div 2 = i"
  shows "maxchild q s i \<noteq> 0 \<and> \<not> cmp (getpri s (pq_d q (maxchild q s i))) (getpri s (pq_d q k))"
proof -
  have "k = 2 * i \<or> k = 2 * i + 1" "1 \<le> i" using assms(2,4) by auto
  then show ?thesis
    using assms(1,3) by (auto simp: maxchild_def pq_left_def Let_def cmp_irrefl dest: cmp_asym)
qed

lemma percolate_down_loop_moved:
  assumes "hole_ok q s i m" "p = getpri s m"
    and "sink_inv cmp (pq_pris (pq_plug q i m) s) (pq_size q) i"
    and "percolate_down_loop q s p i = (q', s', i')"
  shows "moved m (q, s, i) (q', s', i') \<and>
    heap_upto cmp (pq_pris (pq_plug q' i' m) s') (pq_size q)"
  using assms
proof (induction q s p i rule: percolate_down_loop.induct)
  case (1 q s p i)
  let ?j = "maxchild q s i"
  let ?q = "q\<lparr>pq_d := (pq_d q)(i := pq_d q ?j)\<rparr>"
  let ?s = "setpos (pq_d q ?j) i s"
  let ?P = "pq_pris (pq_plug q i m) s"
  from "1.prems"(1) have q [simp]: "handle q" and i: "i \<in> {1..<pq_size q}" "1 \<le> i"
    by (simp_all add: hole_ok_def)
  have P_i: "?P i = p" using "1.prems"(2) by (simp add: pq_pris_def)
  have P_k: "?P k = getpri s (pq_d q k)" if "k \<noteq> i" for k
    using that by (simp add: pq_pris_def)
  have kid: "k \<noteq> i" if "2 \<le> k" "k div 2 = i" for k using that by auto
  show ?case
  proof (cases "?j \<noteq> 0 \<and> cmp p (getpri s (pq_d q ?j))")
    case True
    note c = maxchild_child [OF conjunct1 [OF True] i(2)]
    have j: "?j \<in> {1..<pq_size q}" "i \<noteq> ?j" "2 \<le> ?j" using c i by auto
    have mv: "moved m (q, s, i) (?q, ?s, ?j)" using "1.prems"(1) j(1,2) by (rule moved_step)
    have P: "pq_pris (pq_plug ?q ?j m) ?s = ?P(i := ?P ?j, ?j := ?P i)"
      using j(2) by (intro hole_pris) (simp_all add: getpri_setpos)
    have best: "\<not> cmp (?P ?j) (?P k)" if "2 \<le> k" "k < pq_size q" "k div 2 = i" for k
      using maxchild_best [OF q that] P_k [of ?j] P_k [of k] kid [OF that(1,3)] j(2) by simp
    have "cmp (?P i) (?P ?j)" using True P_i P_k [of ?j] j(2) by simp
    from sink_step [OF "1.prems"(3) c i(2) best this]
    have "sink_inv cmp (pq_pris (pq_plug ?q ?j m) ?s) (pq_size q) ?j" by (simp only: P)
    moreover have "percolate_down_loop ?q ?s p ?j = (q', s', i')"
      using "1.prems"(4) True by (simp add: percolate_down_loop.simps [of q s p i] Let_def)
    ultimately have "moved m (?q, ?s, ?j) (q', s', i') \<and>
        heap_upto cmp (pq_pris (pq_plug q' i' m) s') (pq_size ?q)"
      using mv True "1.prems"(2) by (intro "1.IH") (auto simp: moved_def getpri_setpos)
    then show ?thesis using mv moved_trans by fastforce
  next
    case False
    then have "(q', s', i') = (q, s, i)"
      using "1.prems"(4) by (auto simp: percolate_down_loop.simps [of q s p i] Let_def)
    moreover have "\<not> cmp (?P i) (?P k)" if "2 \<le> k" "k < pq_size q" "k div 2 = i" for k
      using maxchild_best [OF q that, of s] False P_i P_k [of k] kid [OF that(1,3)] not_cmp_trans
      by auto
    then have "heap_upto cmp ?P (pq_size q)"
      by (rule sink_done [OF "1.prems"(3)])
    ultimately show ?thesis using "1.prems"(1) by (simp add: moved_refl)
  qed
qed

text \<open>\<open>resifted q s q' s'\<close>: the same elements, again a heap with right positions.\<close>

definition resifted ::
  "('s, 'e, 'p) pqueue_t \<Rightarrow> 's \<Rightarrow> ('s, 'e, 'p) pqueue_t \<Rightarrow> 's \<Rightarrow> bool" where
  "resifted q s q' s' \<longleftrightarrow> handle q' \<and> pq_inv live q' s' \<and> pq_size q' = pq_size q \<and>
     pq_avail q' = pq_avail q \<and> pq_elems q' = pq_elems q \<and> pos_only (pq_elems q) s s'"

lemma moved_resifted:
  assumes mv: "moved (pq_d q i) (q, s, i) (q1, s1, i1)"
    and h: "heap_upto cmp (pq_pris (pq_plug q1 i1 (pq_d q i)) s1) (pq_size q)"
  shows "resifted q s (pq_plug q1 i1 (pq_d q i)) (setpos (pq_d q i) i1 s1)"
proof -
  let ?m = "pq_d q i"
  from mv have q1: "handle q1" "pq_shape live (pq_plug q1 i1 ?m) s1" "i1 \<in> {1..<pq_size q1}"
    "pq_placed q1 s1 ({1..<pq_size q1} - {i1})" and sz: "pq_size q1 = pq_size q"
    "pq_avail q1 = pq_avail q" and E: "pq_elems (pq_plug q1 i1 ?m) = pq_elems q"
    and po: "pos_only (pq_elems q) s s1"
    by (auto simp: moved_def hole_ok_def)
  note pl = plug_placed [OF q1]
  have "pq_shape live (pq_plug q1 i1 ?m) (setpos ?m i1 s1)"
    using pos_only_shape [OF pl(2)] q1(2) by (rule iffD2)
  moreover have "pq_pris (pq_plug q1 i1 ?m) (setpos ?m i1 s1) = pq_pris (pq_plug q1 i1 ?m) s1"
    using q1(1) pl(2) by (intro pos_only_pris) simp_all
  ultimately show ?thesis
    using q1 sz E pl h pos_only_trans [OF po pl(2) [unfolded E]]
    by (simp add: resifted_def pq_inv_def)
qed

lemma hole_ok_self:
  "handle q \<Longrightarrow> pq_shape live q s \<Longrightarrow> i \<in> {1..<pq_size q} \<Longrightarrow>
   pq_placed q s ({1..<pq_size q} - {i}) \<Longrightarrow> hole_ok q s i (pq_d q i)"
  by (simp add: hole_ok_def)

lemma bubble_up_resifted:
  assumes "handle q" "pq_shape live q s" "i \<in> {1..<pq_size q}"
    "pq_placed q s ({1..<pq_size q} - {i})" "rise_inv cmp (pq_pris q s) (pq_size q) i"
    and "bubble_up q s i = (q', s')"
  shows "resifted q s q' s'"
proof -
  obtain q1 s1 i1 where lp: "bubble_up_loop q s (getpri s (pq_d q i)) i = (q1, s1, i1)"
    by (metis prod_cases3)
  note r = bubble_up_loop_moved [OF hole_ok_self [OF assms(1-4)] refl _ lp]
  have "q' = pq_plug q1 i1 (pq_d q i)" "s' = pq_setpos q1 (pq_d q i) i1 s1"
    using assms(1,6) lp by (auto simp: bubble_up_def pq_plug_def Let_def)
  then show ?thesis
    using r assms(1,5) moved_resifted [of q i s q1 s1 i1] by (auto simp: moved_def hole_ok_def)
qed

lemma percolate_down_resifted:
  assumes "handle q" "pq_shape live q s" "i \<in> {1..<pq_size q}"
    "pq_placed q s ({1..<pq_size q} - {i})" "sink_inv cmp (pq_pris q s) (pq_size q) i"
    and "percolate_down q s i = (q', s')"
  shows "resifted q s q' s'"
proof -
  obtain q1 s1 i1 where lp: "percolate_down_loop q s (getpri s (pq_d q i)) i = (q1, s1, i1)"
    by (metis prod_cases3)
  note r = percolate_down_loop_moved [OF hole_ok_self [OF assms(1-4)] refl _ lp]
  have "q' = pq_plug q1 i1 (pq_d q i)" "s' = pq_setpos q1 (pq_d q i) i1 s1"
    using assms(1,6) lp by (auto simp: percolate_down_def pq_plug_def Let_def)
  then show ?thesis
    using r assms(1,5) moved_resifted [of q i s q1 s1 i1] by (auto simp: moved_def hole_ok_def)
qed

subsection \<open>The operations meet the contract of an indexed priority queue\<close>

text \<open>\<open>pq_next q s E E' n q' s'\<close>: a well-formed successor with contents \<open>E'\<close> and \<open>n\<close> used slots
  that changed nothing but positions of elements of \<open>E\<close>.\<close>

definition pq_next ::
  "('s, 'e, 'p) pqueue_t \<Rightarrow> 's \<Rightarrow> 'e set \<Rightarrow> 'e set \<Rightarrow> nat \<Rightarrow> ('s, 'e, 'p) pqueue_t \<Rightarrow> 's \<Rightarrow> bool" where
  "pq_next q s E E' n q' s' \<longleftrightarrow> handle q' \<and> pq_inv live q' s' \<and> pq_size q' = n \<and>
     pq_avail q' = pq_avail q \<and> pq_elems q' = E' \<and> pos_only E s s'"

lemma insert_next:
  assumes "handle q" "pq_inv live q s" "live s e" "e \<notin> pq_elems q" "pq_size q < pq_avail q"
  shows "\<exists>q' s'. pqueue_insert (Some q) s e = Inr (0, Some q', s') \<and>
    pq_next q s (insert e (pq_elems q)) (insert e (pq_elems q)) (Suc (pq_size q)) q' s'"
proof -
  let ?n = "pq_size q"
  let ?q = "q\<lparr>pq_size := ?n + 1, pq_d := (pq_d q)(?n := e)\<rparr>"
  obtain q' s' where b: "bubble_up ?q s ?n = (q', s')" by fastforce
  have n: "{1..<Suc ?n} = insert ?n {1..<?n}" "1 \<le> ?n"
    using assms(2) by (auto simp: pq_inv_def pq_shape_def)
  have E: "pq_elems ?q = insert e (pq_elems q)"
    using n by (auto simp: pq_elems_def)
  have "inj_on (pq_d q) {1..<?n}" "e \<notin> pq_d q ` {1..<?n}"
    using assms(2,4) by (simp_all add: pq_inv_def pq_shape_def pq_elems_def)
  then have "inj_on ((pq_d q)(?n := e)) {1..<Suc ?n}"
    unfolding n(1) by (auto simp: inj_on_insert intro!: inj_on_fun_updI)
  then have sh: "pq_shape live ?q s"
    using assms(2,3,5) E n by (auto simp: pq_inv_def pq_shape_def)
  have pl: "pq_placed ?q s ({1..<pq_size ?q} - {?n})"
    using assms(2) by (auto simp: pq_inv_def pq_placed_def)
  have "pq_pris ?q s = (pq_pris q s)(?n := getpri s e)"
    using assms(1) by (auto simp: pq_pris_def)
  then have "rise_inv cmp (pq_pris ?q s) (pq_size ?q) ?n"
    using heap_snoc_rise assms(1,2) by (simp add: pq_inv_def)
  moreover have "handle ?q" "?n \<in> {1..<pq_size ?q}" using assms(1) n(2) by simp_all
  ultimately have "resifted ?q s q' s'" using sh pl b by (intro bubble_up_resifted)
  then show ?thesis
    using assms(5) b E by (simp add: pqueue_insert_def Let_def resifted_def pq_next_def)
qed

lemma change_priority_next:
  assumes "handle q" "pq_inv live q s" "e \<in> pq_elems q" "pri_ok p"
  shows "\<exists>q' s'. pqueue_change_priority q s p e = (q', s') \<and>
    pq_next q (setpri e p s) (pq_elems q) (pq_elems q) (pq_size q) q' s'"
proof -
  let ?s = "setpri e p s"
  obtain i where i: "i \<in> {1..<pq_size q}" "e = pq_d q i" using assms(3) by (auto simp: pq_elems_def)
  have sh: "pq_shape live q ?s" and h: "heap_upto cmp (pq_pris q s) (pq_size q)"
    and inj: "inj_on (pq_d q) {1..<pq_size q}" and pl: "pq_placed q s {1..<pq_size q}"
    using assms(1,2) by (simp_all add: pq_inv_def pq_shape_def live_setpri)
  have pl': "pq_placed q ?s ({1..<pq_size q} - {i})" and pos: "getpos ?s e = i"
    using pl assms(1) i by (auto simp: pq_placed_def getpos_setpri)
  have live: "live s e" using assms(2,3) by (simp add: pq_inv_def pq_shape_def)
  have P: "pq_pris q ?s k = ((pq_pris q s)(i := p)) k" if "k \<in> {1..<pq_size q}" for k
    using assms(1,4) live i inj_onD [OF inj, of k i] that
    by (auto simp: pq_pris_def getpri_setpri)
  have cong: "rise_inv cmp (pq_pris q ?s) (pq_size q) i = rise_inv cmp ((pq_pris q s)(i := p)) (pq_size q) i"
    "sink_inv cmp (pq_pris q ?s) (pq_size q) i = sink_inv cmp ((pq_pris q s)(i := p)) (pq_size q) i"
    using P i by (auto intro!: rise_inv_cong sink_inv_cong)
  have range: "1 \<le> i" "i < pq_size q" using i by auto
  show ?thesis
  proof (cases "cmp (getpri s e) p")
    case True
    obtain q' s' where b: "bubble_up q ?s i = (q', s')" by fastforce
    have "rise_inv cmp (pq_pris q ?s) (pq_size q) i"
      unfolding cong using True i(2) assms(1) by (intro heap_replace_rise h range) (simp add: pq_pris_def)
    then have "resifted q ?s q' s'" using bubble_up_resifted [OF assms(1) sh i(1) pl' _ b] by simp
    then show ?thesis
      using b True pos assms(1) by (simp add: pqueue_change_priority_def resifted_def pq_next_def)
  next
    case False
    obtain q' s' where b: "percolate_down q ?s i = (q', s')" by fastforce
    have "sink_inv cmp (pq_pris q ?s) (pq_size q) i"
      unfolding cong using False i(2) assms(1) by (intro heap_replace_sink h range) (simp add: pq_pris_def)
    then have "resifted q ?s q' s'" using percolate_down_resifted [OF assms(1) sh i(1) pl' _ b] by simp
    then show ?thesis
      using b False pos assms(1) by (simp add: pqueue_change_priority_def resifted_def pq_next_def)
  qed
qed

text \<open>Taking position \<open>i\<close> out: the last element is written over it and the size shrinks.\<close>

lemma take_out:
  assumes "handle q" "pq_inv live q s" "i \<in> {1..<pq_size q}"
  defines "n \<equiv> pq_size q - 1"
  defines "q1 \<equiv> q\<lparr>pq_size := n, pq_d := (pq_d q)(i := pq_d q n)\<rparr>"
  shows "pq_shape live q1 s" "pq_elems q1 = pq_elems q - {pq_d q i}"
    "pq_placed q1 s ({1..<n} - {i})" "pq_pris q1 s = (pq_pris q s)(i := pq_pris q s n)"
    "heap_upto cmp (pq_pris q s) n" "1 \<le> n"
proof -
  have n: "{1..<pq_size q} = insert n {1..<n}" "i \<le> n" "1 \<le> n" "pq_size q = Suc n"
    using assms(3) by (auto simp: n_def)
  have inj: "inj_on (pq_d q) {1..<pq_size q}" using assms(2) by (simp add: pq_inv_def pq_shape_def)
  show el: "pq_elems q1 = pq_elems q - {pq_d q i}"
    using inj_onD [OF inj] n assms(3) by (fastforce simp: pq_elems_def q1_def image_iff)
  have "inj_on ((pq_d q)(i := pq_d q n)) {1..<n}"
    using inj_onD [OF inj] n assms(3) by (fastforce simp: inj_on_def)
  then show "pq_shape live q1 s"
    using assms(2) el n by (auto simp: pq_shape_def pq_inv_def q1_def)
  show "pq_placed q1 s ({1..<n} - {i})"
    using assms(2) n by (auto simp: pq_placed_def pq_inv_def q1_def)
  show "pq_pris q1 s = (pq_pris q s)(i := pq_pris q s n)"
    by (auto simp: pq_pris_def q1_def)
  show "heap_upto cmp (pq_pris q s) n"
    using assms(1,2) n by (auto simp: pq_inv_def intro: heap_upto_less)
  show "1 \<le> n" by (rule n)
qed

lemma percolate_down_end:
  assumes "handle q" "1 \<le> i" "pq_size q \<le> i"
  shows "percolate_down q s i = (q, setpos (pq_d q i) i s)"
proof -
  have "maxchild q s i = 0" using assms(2,3) by (simp add: maxchild_def pq_left_def)
  then show ?thesis
    using assms(1) by (simp add: percolate_down_def percolate_down_loop.simps Let_def)
qed

lemma take_out_last:
  assumes "handle q" "pq_inv live q s" "i = pq_size q - 1" "2 \<le> pq_size q"
  defines "q1 \<equiv> q\<lparr>pq_size := i, pq_d := (pq_d q)(i := pq_d q i)\<rparr>"
  shows "percolate_down q1 s i = (q1, setpos (pq_d q i) i s)"
    "pq_next q s (pq_elems q) (pq_elems q - {pq_d q i}) (pq_size q - 1) q1 (setpos (pq_d q i) i s)"
proof -
  have i: "i \<in> {1..<pq_size q}" using assms(3,4) by simp
  note t = take_out [OF assms(1,2) i, folded assms(3), folded q1_def]
  have q1: "handle q1" "pq_size q1 = i" "pq_avail q1 = pq_avail q" "pq_d q1 = pq_d q"
    using assms(1) by (simp_all add: q1_def)
  show "percolate_down q1 s i = (q1, setpos (pq_d q i) i s)"
    using percolate_down_end [OF q1(1), of i s] i q1 by simp
  have "pq_d q i \<in> pq_elems q" using i by (simp add: pq_elems_def)
  moreover from this have live: "live s (pq_d q i)" using assms(2) by (simp add: pq_inv_def pq_shape_def)
  ultimately have po: "pos_only (pq_elems q) s (setpos (pq_d q i) i s)" by (intro pos_only_setpos)
  have "pq_d q k \<noteq> pq_d q i" if "k \<in> {1..<i}" for k
  proof -
    have "pq_d q k \<in> pq_elems q1" using that q1 by (auto simp: pq_elems_def)
    then show ?thesis using t(2) by auto
  qed
  then have "pq_placed q1 (setpos (pq_d q i) i s) {1..<i}"
    using t(3) q1 live by (auto simp: pq_placed_def getpos_setpos)
  moreover have "heap_upto cmp (pq_pris q1 (setpos (pq_d q i) i s)) i"
    using t(5) pos_only_pris [OF assms(1) po] q1 assms(1) by (simp add: pq_pris_def)
  ultimately show "pq_next q s (pq_elems q) (pq_elems q - {pq_d q i}) (pq_size q - 1) q1
      (setpos (pq_d q i) i s)"
    using q1 t(1,2) po pos_only_shape [OF po, of q1] assms(3)
    by (simp add: pq_next_def pq_inv_def)
qed

lemma resifted_take_out:
  assumes "handle q" "pq_inv live q s" "i \<in> {1..<pq_size q - 1}"
    and "resifted (q\<lparr>pq_size := pq_size q - 1, pq_d := (pq_d q)(i := pq_d q (pq_size q - 1))\<rparr>) s q' s'"
  shows "pq_next q s (pq_elems q) (pq_elems q - {pq_d q i}) (pq_size q - 1) q' s'"
proof -
  have "i \<in> {1..<pq_size q}" using assms(3) by auto
  note t = take_out [OF assms(1,2) this]
  have "pos_only (pq_elems q - {pq_d q i}) s s'" using assms(4) t(2) by (simp add: resifted_def)
  then show ?thesis using assms(4) t(2) by (auto simp: resifted_def pq_next_def pos_only_def)
qed

lemma pop_next:
  assumes "handle q" "pq_inv live q s" "pq_size q \<noteq> 1"
  shows "\<exists>q' s'. pqueue_pop (Some q) s = (Some (pq_d q 1), Some q', s') \<and>
    pq_next q s (pq_elems q) (pq_elems q - {pq_d q 1}) (pq_size q - 1) q' s'"
proof (cases "pq_size q = 2")
  case True
  then show ?thesis
    using take_out_last [OF assms(1,2), of 1] by (auto simp: pqueue_pop_def Let_def)
next
  case False
  let ?n = "pq_size q - 1"
  let ?q = "q\<lparr>pq_size := ?n, pq_d := (pq_d q)(1 := pq_d q ?n)\<rparr>"
  have sz: "1 \<in> {1..<pq_size q}" "1 \<in> {1..<?n}" "1 < ?n"
    using assms(2,3) False by (auto simp: pq_inv_def pq_shape_def)
  note t = take_out [OF assms(1,2) sz(1)]
  obtain q' s' where b: "percolate_down ?q s 1 = (q', s')" by fastforce
  have "\<not> cmp (pq_pris q s 1) (pq_pris q s ?n)"
    using assms(1,2) sz by (intro heap_root) (auto simp: pq_inv_def)
  then have "sink_inv cmp (pq_pris ?q s) (pq_size ?q) 1"
    using t(4) heap_replace_sink [OF t(5) _ sz(3)] by simp
  then have "resifted ?q s q' s'"
    using t(1,3) b sz assms(1) by (intro percolate_down_resifted [of ?q s 1]) simp_all
  then have "pq_next q s (pq_elems q) (pq_elems q - {pq_d q 1}) ?n q' s'"
    by (rule resifted_take_out [OF assms(1,2) sz(2)])
  then show ?thesis using b assms(3) by (simp add: pqueue_pop_def Let_def)
qed

lemma remove_next:
  assumes "handle q" "pq_inv live q s" "e \<in> pq_elems q"
  shows "\<exists>q' s'. pqueue_remove q s e = (0, q', s') \<and>
    pq_next q s (pq_elems q) (pq_elems q - {e}) (pq_size q - 1) q' s'"
proof -
  obtain i where i: "i \<in> {1..<pq_size q}" "e = pq_d q i" using assms(3) by (auto simp: pq_elems_def)
  have pos: "getpos s e = i" using assms(1,2) i by (simp add: pq_inv_def pq_placed_def)
  let ?n = "pq_size q - 1"
  let ?q = "q\<lparr>pq_size := ?n, pq_d := (pq_d q)(i := pq_d q ?n)\<rparr>"
  note t = take_out [OF assms(1,2) i(1)]
  show ?thesis
  proof (cases "i = ?n")
    case True
    then show ?thesis
      using take_out_last [OF assms(1,2) True] pos assms(1) i
      by (auto simp: pqueue_remove_def Let_def cmp_irrefl)
  next
    case False
    then have i': "i \<in> {1..<?n}" "1 \<le> i" "i < ?n" using i by auto
    have "pq_pris q s i = getpri s e" "pq_pris q s ?n = getpri s (pq_d q ?n)"
      using assms(1) i(2) by (simp_all add: pq_pris_def)
    note sift = heap_replace_rise [OF t(5) i'(2,3)] heap_replace_sink [OF t(5) i'(2,3)]
    obtain q1 s1 where u: "bubble_up ?q s i = (q1, s1)" by fastforce
    obtain q2 s2 where d: "percolate_down ?q s i = (q2, s2)" by fastforce
    have up: "resifted ?q s q1 s1" if "cmp (getpri s e) (getpri s (pq_d q ?n))"
      using bubble_up_resifted [of ?q s i, OF _ t(1) _ _ _ u] t(3,4) sift(1) that i' i(2) assms(1)
      by (simp add: pq_pris_def)
    have down: "resifted ?q s q2 s2" if "\<not> cmp (getpri s e) (getpri s (pq_d q ?n))"
      using percolate_down_resifted [of ?q s i, OF _ t(1) _ _ _ d] t(3,4) sift(2) that i' i(2) assms(1)
      by (simp add: pq_pris_def)
    show ?thesis
      using up down u d pos assms(1) resifted_take_out [OF assms(1,2) i'(1)] i(2)
      by (auto simp: pqueue_remove_def Let_def)
  qed
qed

lemma peek_least:
  assumes "handle q" "pq_inv live q s" "pqueue_peek (Some q) = Some e"
  shows "e = pq_d q 1 \<and> e \<in> pq_elems q \<and> (\<forall>x\<in>pq_elems q. \<not> cmp (getpri s e) (getpri s x))"
proof -
  have e: "e = pq_d q 1" "1 < pq_size q"
    using assms(2,3) by (auto simp: pqueue_peek_def pq_inv_def pq_shape_def split: if_splits)
  have "\<not> cmp (pq_pris q s 1) (pq_pris q s k)" if "k \<in> {1..<pq_size q}" for k
    using assms(1,2) that by (intro heap_root) (auto simp: pq_inv_def)
  then show ?thesis using e assms(1) by (auto simp: pq_elems_def pq_pris_def)
qed

subsection \<open>What survives without heap order\<close>

text \<open>
  The client may change a priority behind the queue's back.  Heap order is then lost, but the
  operations still keep the queue a set of distinct elements that know their own index:
  \<open>pq_part\<close> is that weaker invariant.
\<close>

definition part_next ::
  "('s, 'e, 'p) pqueue_t \<Rightarrow> 's \<Rightarrow> 'e set \<Rightarrow> 'e set \<Rightarrow> nat \<Rightarrow> ('s, 'e, 'p) pqueue_t \<Rightarrow> 's \<Rightarrow> bool" where
  "part_next q s E E' n q' s' \<longleftrightarrow> handle q' \<and> pq_part live q' s' \<and> pq_size q' = n \<and>
     pq_avail q' = pq_avail q \<and> pq_elems q' = E' \<and> pos_only E s s'"

lemma part_nextD:
  assumes "part_next q s E E' n q' s'"
  shows "handle q'" "pq_part live q' s'" "pq_size q' = n" "pq_avail q' = pq_avail q" "pq_elems q' = E'"
    "e \<notin> E \<Longrightarrow> getpos s' e = getpos s e" "getpri s' = getpri s" "e \<in> E' \<Longrightarrow> getpos s' e \<noteq> 0"
proof -
  show n: "handle q'" "pq_part live q' s'" "pq_size q' = n" "pq_avail q' = pq_avail q" "pq_elems q' = E'"
    "e \<notin> E \<Longrightarrow> getpos s' e = getpos s e" "getpri s' = getpri s"
    using assms by (simp_all add: part_next_def pos_only_def)
  show "getpos s' e \<noteq> 0" if e: "e \<in> E'"
  proof -
    obtain k where k: "k \<in> {1..<pq_size q'}" "e = pq_d q' k" using e [folded n(5)] unfolding pq_elems_def by blast
    then have "getpos s' e = k" using n(1,2) by (simp add: pq_part_def pq_placed_def)
    then show ?thesis using k(1) by simp
  qed
qed

lemma bubble_up_loop_hole:
  "hole_ok q s i m \<Longrightarrow> bubble_up_loop q s p i = (q', s', i') \<Longrightarrow> moved m (q, s, i) (q', s', i')"
proof (induction q s p i rule: bubble_up_loop.induct)
  case (1 q s p i)
  let ?j = "pq_parent i"
  let ?q = "q\<lparr>pq_d := (pq_d q)(i := pq_d q ?j)\<rparr>"
  let ?s = "setpos (pq_d q ?j) i s"
  from "1.prems"(1) have q [simp]: "handle q" and i: "i \<in> {1..<pq_size q}" by (simp_all add: hole_ok_def)
  show ?case
  proof (cases "i > 1 \<and> cmp (getpri s (pq_d q ?j)) p")
    case True
    have j: "?j \<in> {1..<pq_size q}" "i \<noteq> ?j" using True i by (auto simp: pq_parent_def)
    have mv: "moved m (q, s, i) (?q, ?s, ?j)" using "1.prems"(1) j by (rule moved_step)
    have "bubble_up_loop ?q ?s p ?j = (q', s', i')"
      using "1.prems"(2) True by (simp add: bubble_up_loop.simps [of q s p i] Let_def)
    then have "moved m (?q, ?s, ?j) (q', s', i')" using mv True by (intro "1.IH") (auto simp: moved_def)
    then show ?thesis using mv moved_trans by fastforce
  next
    case False
    then show ?thesis using "1.prems" by (auto simp: bubble_up_loop.simps [of q s p i] moved_refl)
  qed
qed

lemma percolate_down_loop_hole:
  "hole_ok q s i m \<Longrightarrow> percolate_down_loop q s p i = (q', s', i') \<Longrightarrow> moved m (q, s, i) (q', s', i')"
proof (induction q s p i rule: percolate_down_loop.induct)
  case (1 q s p i)
  let ?j = "maxchild q s i"
  let ?q = "q\<lparr>pq_d := (pq_d q)(i := pq_d q ?j)\<rparr>"
  let ?s = "setpos (pq_d q ?j) i s"
  from "1.prems"(1) have q [simp]: "handle q" and i: "i \<in> {1..<pq_size q}" "1 \<le> i"
    by (simp_all add: hole_ok_def)
  show ?case
  proof (cases "?j \<noteq> 0 \<and> cmp p (getpri s (pq_d q ?j))")
    case True
    note c = maxchild_child [OF conjunct1 [OF True] i(2)]
    have j: "?j \<in> {1..<pq_size q}" "i \<noteq> ?j" using c i by auto
    have mv: "moved m (q, s, i) (?q, ?s, ?j)" using "1.prems"(1) j by (rule moved_step)
    have "percolate_down_loop ?q ?s p ?j = (q', s', i')"
      using "1.prems"(2) True by (simp add: percolate_down_loop.simps [of q s p i] Let_def)
    then have "moved m (?q, ?s, ?j) (q', s', i')" using mv True by (intro "1.IH") (auto simp: moved_def)
    then show ?thesis using mv moved_trans by fastforce
  next
    case False
    then show ?thesis
      using "1.prems" by (auto simp: percolate_down_loop.simps [of q s p i] Let_def moved_refl)
  qed
qed

lemma moved_part:
  assumes mv: "moved (pq_d q i) (q, s, i) (q1, s1, i1)"
  shows "part_next q s (pq_elems q) (pq_elems q) (pq_size q) (pq_plug q1 i1 (pq_d q i)) (setpos (pq_d q i) i1 s1)"
proof -
  let ?m = "pq_d q i"
  from mv have q1: "handle q1" "pq_shape live (pq_plug q1 i1 ?m) s1" "i1 \<in> {1..<pq_size q1}"
    "pq_placed q1 s1 ({1..<pq_size q1} - {i1})" and sz: "pq_size q1 = pq_size q"
    "pq_avail q1 = pq_avail q" and E: "pq_elems (pq_plug q1 i1 ?m) = pq_elems q"
    and po: "pos_only (pq_elems q) s s1"
    by (auto simp: moved_def hole_ok_def)
  note pl = plug_placed [OF q1]
  have "pq_shape live (pq_plug q1 i1 ?m) (setpos ?m i1 s1)"
    using pos_only_shape [OF pl(2)] q1(2) by (rule iffD2)
  then show ?thesis
    using q1 sz E pl pos_only_trans [OF po pl(2) [unfolded E]] by (simp add: part_next_def pq_part_def)
qed

lemma sift_part:
  assumes "handle q" "pq_shape live q s" "i \<in> {1..<pq_size q}" "pq_placed q s ({1..<pq_size q} - {i})"
    and "bubble_up q s i = (q', s') \<or> percolate_down q s i = (q', s')"
  shows "part_next q s (pq_elems q) (pq_elems q) (pq_size q) q' s'"
proof -
  note h = hole_ok_self [OF assms(1-4)]
  obtain q1 s1 i1 where up: "bubble_up_loop q s (getpri s (pq_d q i)) i = (q1, s1, i1)" by (metis prod_cases3)
  obtain q2 s2 i2 where dn: "percolate_down_loop q s (getpri s (pq_d q i)) i = (q2, s2, i2)" by (metis prod_cases3)
  note m = bubble_up_loop_hole [OF h up] percolate_down_loop_hole [OF h dn]
  have "handle q1" "handle q2" using m by (simp_all add: moved_def hole_ok_def)
  then show ?thesis
    using assms(1,5) up dn moved_part [OF m(1)] moved_part [OF m(2)]
    by (auto simp: bubble_up_def percolate_down_def pq_plug_def Let_def)
qed

lemma insert_part:
  assumes "handle q" "pq_part live q s" "live s e" "e \<notin> pq_elems q" "pq_size q < pq_avail q"
  shows "\<exists>q' s'. pqueue_insert (Some q) s e = Inr (0, Some q', s') \<and>
    part_next q s (insert e (pq_elems q)) (insert e (pq_elems q)) (Suc (pq_size q)) q' s'"
proof -
  let ?n = "pq_size q"
  let ?q = "q\<lparr>pq_size := ?n + 1, pq_d := (pq_d q)(?n := e)\<rparr>"
  obtain q' s' where b: "bubble_up ?q s ?n = (q', s')" by fastforce
  have n: "{1..<Suc ?n} = insert ?n {1..<?n}" "1 \<le> ?n"
    using assms(2) by (auto simp: pq_part_def pq_shape_def)
  have E: "pq_elems ?q = insert e (pq_elems q)" using n by (auto simp: pq_elems_def)
  have "inj_on (pq_d q) {1..<?n}" "e \<notin> pq_d q ` {1..<?n}"
    using assms(2,4) by (simp_all add: pq_part_def pq_shape_def pq_elems_def)
  then have "inj_on ((pq_d q)(?n := e)) {1..<Suc ?n}"
    unfolding n(1) by (auto simp: inj_on_insert intro!: inj_on_fun_updI)
  then have sh: "pq_shape live ?q s"
    using assms(2,3,5) E n by (auto simp: pq_part_def pq_shape_def)
  have pl: "pq_placed ?q s ({1..<pq_size ?q} - {?n})"
    using assms(2) by (auto simp: pq_part_def pq_placed_def)
  have "handle ?q" "?n \<in> {1..<pq_size ?q}" using assms(1) n(2) by simp_all
  then have "part_next ?q s (pq_elems ?q) (pq_elems ?q) (pq_size ?q) q' s'" using sh pl b by (intro sift_part) auto
  then show ?thesis
    using assms(5) b E by (simp add: pqueue_insert_def Let_def part_next_def)
qed

lemma change_priority_part:
  assumes "handle q" "pq_part live q s" "e \<in> pq_elems q"
  shows "\<exists>q' s'. pqueue_change_priority q s p e = (q', s') \<and>
    part_next q (setpri e p s) (pq_elems q) (pq_elems q) (pq_size q) q' s'"
proof -
  let ?s = "setpri e p s"
  obtain i where i: "i \<in> {1..<pq_size q}" "e = pq_d q i" using assms(3) by (auto simp: pq_elems_def)
  have sh: "pq_shape live q ?s" and pl: "pq_placed q s {1..<pq_size q}"
    using assms(2) by (simp_all add: pq_part_def pq_shape_def live_setpri)
  have pl': "pq_placed q ?s ({1..<pq_size q} - {i})" and pos: "getpos ?s e = i"
    using pl assms(1) i by (auto simp: pq_placed_def getpos_setpri)
  obtain q' s' where r: "pqueue_change_priority q s p e = (q', s')" by fastforce
  then have "bubble_up q ?s i = (q', s') \<or> percolate_down q ?s i = (q', s')"
    using pos assms(1) by (simp add: pqueue_change_priority_def Let_def split: if_splits)
  then show ?thesis using sift_part [OF assms(1) sh i(1) pl'] r by blast
qed

lemma pop_part:
  assumes "handle q" "pq_part live q s" "pq_size q \<noteq> 1"
  shows "\<exists>q' s'. pqueue_pop (Some q) s = (Some (pq_d q 1), Some q', s') \<and>
    part_next q s (pq_elems q) (pq_elems q - {pq_d q 1}) (pq_size q - 1) q' s'"
proof -
  let ?n = "pq_size q - 1"
  let ?q = "q\<lparr>pq_size := ?n, pq_d := (pq_d q)(1 := pq_d q ?n)\<rparr>"
  have sz: "1 \<in> {1..<pq_size q}" using assms(2,3) by (auto simp: pq_part_def pq_shape_def)
  have n: "{1..<pq_size q} = insert ?n {1..<?n}" "1 \<le> ?n" using sz by auto
  have inj: "inj_on (pq_d q) {1..<pq_size q}" using assms(2) by (simp add: pq_part_def pq_shape_def)
  have el: "pq_elems ?q = pq_elems q - {pq_d q 1}"
    using inj_onD [OF inj] n sz by (fastforce simp: pq_elems_def image_iff)
  obtain q' s' where b: "percolate_down ?q s 1 = (q', s')" by fastforce
  have "part_next ?q s (pq_elems q) (pq_elems ?q) (pq_size ?q) q' s'"
  proof (cases "?n = 1")
    case True
    have "(q', s') = (?q, setpos (pq_d ?q 1) 1 s)"
      using percolate_down_end [of ?q 1 s] assms(1) True b by simp
    moreover have "live s (pq_d q 1)" "pq_d q 1 \<in> pq_elems q"
      using assms(2) sz by (auto simp: pq_part_def pq_shape_def pq_elems_def)
    ultimately show ?thesis using True assms(1) pos_only_setpos [of s "pq_d q 1" "pq_elems q" 1]
      by (auto simp: part_next_def pq_part_def pq_shape_def pq_placed_def pq_elems_def)
         (use assms(2) in \<open>auto simp: pq_part_def pq_shape_def\<close>)
  next
    case False
    have "inj_on ((pq_d q)(1 := pq_d q ?n)) {1..<?n}"
      using inj_onD [OF inj] n sz by (fastforce simp: inj_on_def)
    then have "pq_shape live ?q s" using assms(2) el n by (auto simp: pq_shape_def pq_part_def)
    moreover have "pq_placed ?q s ({1..<pq_size ?q} - {1})"
      using assms(2) n by (auto simp: pq_placed_def pq_part_def)
    ultimately have "part_next ?q s (pq_elems ?q) (pq_elems ?q) (pq_size ?q) q' s'"
      using b assms(1) n False by (intro sift_part) auto
    then show ?thesis using el by (auto simp: part_next_def pos_only_def)
  qed
  then show ?thesis using b el assms(3) by (simp add: pqueue_pop_def Let_def part_next_def)
qed

end

end
