(* ===== verification/FtlLines.thy ===== *)
theory FtlLines
  imports FtlAddr PQueue
begin

text \<open>
  Line management in \<^verbatim>\<open>nvmevirt/demand_ftl.c\<close>: superblocks (lines) move between the free list, a write
  pointer, the full list, the victim priority queue and the garbage collector; grains are marked valid
  and invalid and counted per block and per line.

  A \<^verbatim>\<open>struct line *\<close> is an index into \<open>lm_lines\<close>, a kernel list of lines is a list of indices.
  \<^verbatim>\<open>list_del_init\<close> takes a line off whatever list it is on.  The counters of lines and blocks are C ints
  that the code keeps within \<open>pgs_per_line * GRAIN_PER_PAGE\<close> by assertions; they are integers here.  The
  priority of a line is its count of valid grains, read as an unsigned 64-bit number and stored back
  truncated to an int.  The spin locks are flags; taking a held lock is the fault \<open>Deadlock\<close>.
  The unused fields \<^verbatim>\<open>vbc\<close>, \<^verbatim>\<open>ibc\<close>, \<^verbatim>\<open>pos_b\<close> of \<^verbatim>\<open>struct line\<close> are left out.
\<close>

datatype io_type = USER_IO | GC_IO | MAP_IO | GC_MAP_IO | IO_other nat

record line =
  ln_id :: nat
  ln_ipc :: int
  ln_vpc :: int
  ln_vgc :: int
  ln_igc :: int
  ln_pos :: nat
  ln_map :: bool

record write_pointer =
  wp_curline :: nat
  wp_ch :: nat
  wp_lun :: nat
  wp_pg :: nat
  wp_blk :: nat
  wp_pl :: nat

type_synonym victim_queue = "(line list, nat, u64) pqueue_t"

record line_mgmt =
  lm_lines :: "line list"
  lm_free :: "nat list"
  lm_victim :: "victim_queue option"
  lm_full :: "nat list"
  lm_tt_lines :: nat
  lm_free_cnt :: u32
  lm_victim_cnt :: u32
  lm_full_cnt :: u32

record convparams =
  gc_thres_lines :: u32
  gc_thres_lines_high :: u32
  enable_gc_delay :: bool

record write_flow_control =
  write_credits :: u32
  credits_to_refill :: u32

record demand_shard =
  sh_build :: build
  sh_ssd :: ssd
  sh_cp :: convparams
  sh_wp :: write_pointer
  sh_map_wp :: write_pointer
  sh_gc_wp :: write_pointer
  sh_map_gc_wp :: write_pointer
  sh_lm :: line_mgmt
  sh_wfc :: write_flow_control
  sh_offset :: nat
  sh_oob :: "nat \<Rightarrow> nat \<Rightarrow> nat"
  sh_grain_bitmap :: "nat \<Rightarrow> bool"
  sh_pg_inv_cnt :: "nat \<Rightarrow> nat"
  v_spin :: bool
  inv_spin :: bool
  lm_spin :: bool
  map_spin :: bool
  gc_pgs_this_gc :: nat
  map_pgs_this_gc :: nat
  map_gc_pgs_this_gc :: nat

abbreviation sh_spp :: "demand_shard \<Rightarrow> ssdparams" where
  "sh_spp sh \<equiv> ssd_sp (sh_ssd sh)"

abbreviation sh_gpp :: "demand_shard \<Rightarrow> nat" where
  "sh_gpp sh \<equiv> GRAIN_PER_PAGE (sh_build sh)"

abbreviation upd_lm :: "(line_mgmt \<Rightarrow> line_mgmt) \<Rightarrow> demand_shard \<Rightarrow> demand_shard" where
  "upd_lm f sh \<equiv> sh\<lparr>sh_lm := f (sh_lm sh)\<rparr>"

subsection \<open>The callbacks of the victim queue\<close>

definition victim_line_cmp_pri :: "u64 \<Rightarrow> u64 \<Rightarrow> bool" where
  "victim_line_cmp_pri next cur \<longleftrightarrow> next > cur"

definition victim_line_get_pri :: "line list \<Rightarrow> nat \<Rightarrow> u64" where
  "victim_line_get_pri ls a = word_of_int (ln_vgc (ls ! a))"

definition victim_line_set_pri :: "nat \<Rightarrow> u64 \<Rightarrow> line list \<Rightarrow> line list" where
  "victim_line_set_pri a pri ls = ls[a := (ls ! a)\<lparr>ln_vgc := sint (ucast pri :: u32)\<rparr>]"

definition victim_line_get_pos :: "line list \<Rightarrow> nat \<Rightarrow> nat" where
  "victim_line_get_pos ls a = ln_pos (ls ! a)"

definition victim_line_set_pos :: "nat \<Rightarrow> nat \<Rightarrow> line list \<Rightarrow> line list" where
  "victim_line_set_pos a p ls = ls[a := (ls ! a)\<lparr>ln_pos := p\<rparr>]"

subsection \<open>Locks, lines and NAND structures\<close>

definition lock_lm :: "demand_shard \<Rightarrow> demand_shard result" where
  "lock_lm sh = (if lm_spin sh then Inl Deadlock else Inr (sh\<lparr>lm_spin := True\<rparr>))"

definition lock_v :: "demand_shard \<Rightarrow> demand_shard result" where
  "lock_v sh = (if v_spin sh then Inl Deadlock else Inr (sh\<lparr>v_spin := True\<rparr>))"

definition lock_inv :: "demand_shard \<Rightarrow> demand_shard result" where
  "lock_inv sh = (if inv_spin sh then Inl Deadlock else Inr (sh\<lparr>inv_spin := True\<rparr>))"

definition lock_map :: "demand_shard \<Rightarrow> demand_shard result" where
  "lock_map sh = (if map_spin sh then Inl Deadlock else Inr (sh\<lparr>map_spin := True\<rparr>))"

definition line_of :: "demand_shard \<Rightarrow> nat \<Rightarrow> line" where
  "line_of sh i = lm_lines (sh_lm sh) ! i"

definition set_line :: "nat \<Rightarrow> (line \<Rightarrow> line) \<Rightarrow> line_mgmt \<Rightarrow> line_mgmt" where
  "set_line i f lm = lm\<lparr>lm_lines := (lm_lines lm)[i := f (lm_lines lm ! i)]\<rparr>"

text \<open>\<^verbatim>\<open>get_line\<close> gives the line a page belongs to.\<close>

definition get_line :: "demand_shard \<Rightarrow> ppa \<Rightarrow> nat result" where
  "get_line sh p = (if g_blk p < length (lm_lines (sh_lm sh)) then Inr (g_blk p) else Inl Out_of_bounds)"

definition grain2lineid :: "demand_shard \<Rightarrow> nat \<Rightarrow> nat result" where
  "grain2lineid sh grain =
     bindR (ppa_to_struct (sh_spp sh) (G_IDX (sh_build sh) grain)) (\<lambda>p.
     bindR (get_line sh p) (\<lambda>l. Inr (ln_id (line_of sh l))))"

text \<open>Assignments through block and page pointers.\<close>

definition upd_plane :: "ppa \<Rightarrow> (nand_plane \<Rightarrow> nand_plane) \<Rightarrow> ssd \<Rightarrow> ssd" where
  "upd_plane p f s = set_lun p (\<lambda>l. l\<lparr>nl_pl := (nl_pl l)[g_pl p := f (nl_pl l ! g_pl p)]\<rparr>) s"

definition upd_blk :: "ppa \<Rightarrow> (nand_block \<Rightarrow> nand_block) \<Rightarrow> ssd \<Rightarrow> ssd" where
  "upd_blk p f s = upd_plane p (\<lambda>pl. pl\<lparr>npl_blk := (npl_blk pl)[g_blk p := f (npl_blk pl ! g_blk p)]\<rparr>) s"

definition upd_pg :: "ppa \<Rightarrow> (nand_page \<Rightarrow> nand_page) \<Rightarrow> ssd \<Rightarrow> ssd" where
  "upd_pg p f s = upd_blk p (\<lambda>b. b\<lparr>nb_pg := (nb_pg b)[g_pg p := f (nb_pg b ! g_pg p)]\<rparr>) s"

abbreviation upd_ssd :: "(ssd \<Rightarrow> ssd) \<Rightarrow> demand_shard \<Rightarrow> demand_shard" where
  "upd_ssd f sh \<equiv> sh\<lparr>sh_ssd := f (sh_ssd sh)\<rparr>"

subsection \<open>Flow control\<close>

definition should_gc :: "demand_shard \<Rightarrow> bool" where
  "should_gc sh \<longleftrightarrow> lm_free_cnt (sh_lm sh) \<le> gc_thres_lines (sh_cp sh)"

definition should_gc_high :: "demand_shard \<Rightarrow> bool" where
  "should_gc_high sh \<longleftrightarrow> lm_free_cnt (sh_lm sh) \<le> gc_thres_lines_high (sh_cp sh)"

definition consume_write_credit :: "demand_shard \<Rightarrow> u32 \<Rightarrow> demand_shard" where
  "consume_write_credit sh len =
     sh\<lparr>sh_wfc := (sh_wfc sh)\<lparr>write_credits := write_credits (sh_wfc sh) - len\<rparr>\<rparr>"

definition init_write_flow_control :: "demand_shard \<Rightarrow> demand_shard" where
  "init_write_flow_control sh =
     (let c = of_nat (pgs_per_line (sh_spp sh) * sh_gpp sh)
      in sh\<lparr>sh_wfc := \<lparr>write_credits = c, credits_to_refill = c\<rparr>\<rparr>)"

subsection \<open>Allocation of lines\<close>

text \<open>The victim queue is allocated with one slot per line; \<open>alloc\<close> is the outcome of its two
  allocations and \<open>mem\<close> the fresh array.\<close>

definition init_lines :: "bool \<Rightarrow> (nat \<Rightarrow> nat) option \<Rightarrow> demand_shard \<Rightarrow> demand_shard result" where
  "init_lines alloc mem sh =
     (let spp = sh_spp sh; n = blks_per_pl spp in
      if n \<noteq> tt_lines spp then Inl Bug_on
      else Inr (sh\<lparr>sh_lm := \<lparr>
        lm_lines = map (\<lambda>i. \<lparr>ln_id = i, ln_ipc = 0, ln_vpc = 0, ln_vgc = 0, ln_igc = 0, ln_pos = 0, ln_map = False\<rparr>) [0..<n],
        lm_free = [0..<n],
        lm_victim = pqueue_init alloc mem (tt_lines spp) victim_line_cmp_pri victim_line_get_pri
          victim_line_set_pri victim_line_get_pos victim_line_set_pos,
        lm_full = [], lm_tt_lines = n, lm_free_cnt = of_nat n, lm_victim_cnt = 0, lm_full_cnt = 0\<rparr>\<rparr>))"

definition get_next_free_line :: "demand_shard \<Rightarrow> (nat \<times> demand_shard) result" where
  "get_next_free_line sh =
     (case lm_free (sh_lm sh) of
        [] \<Rightarrow> Inl Bug_on
      | curline # rest \<Rightarrow>
          Inr (curline, upd_lm (\<lambda>lm. lm\<lparr>lm_free := rest, lm_free_cnt := lm_free_cnt lm - 1\<rparr>) sh))"

definition get_wp :: "demand_shard \<Rightarrow> io_type \<Rightarrow> write_pointer result" where
  "get_wp sh io = (case io of USER_IO \<Rightarrow> Inr (sh_wp sh) | MAP_IO \<Rightarrow> Inr (sh_map_wp sh) | GC_IO \<Rightarrow> Inr (sh_gc_wp sh)
     | GC_MAP_IO \<Rightarrow> Inr (sh_map_gc_wp sh) | IO_other _ \<Rightarrow> Inl Bug_on)"

definition set_wp :: "io_type \<Rightarrow> write_pointer \<Rightarrow> demand_shard \<Rightarrow> demand_shard" where
  "set_wp io w sh = (case io of USER_IO \<Rightarrow> sh\<lparr>sh_wp := w\<rparr> | MAP_IO \<Rightarrow> sh\<lparr>sh_map_wp := w\<rparr> | GC_IO \<Rightarrow> sh\<lparr>sh_gc_wp := w\<rparr>
     | GC_MAP_IO \<Rightarrow> sh\<lparr>sh_map_gc_wp := w\<rparr> | IO_other _ \<Rightarrow> sh)"

definition is_map_io :: "io_type \<Rightarrow> bool" where
  "is_map_io io \<longleftrightarrow> io = MAP_IO \<or> io = GC_MAP_IO"

definition prepare_write_pointer :: "demand_shard \<Rightarrow> io_type \<Rightarrow> demand_shard result" where
  "prepare_write_pointer sh io =
     bindR (get_wp sh io) (\<lambda>_.
     bindR (get_next_free_line sh) (\<lambda>(curline, sh1).
       let sh2 = upd_lm (set_line curline (\<lambda>l. l\<lparr>ln_map := is_map_io io\<rparr>)) sh1
       in Inr (set_wp io \<lparr>wp_curline = curline, wp_ch = 0, wp_lun = 0, wp_pg = 0,
                           wp_blk = ln_id (line_of sh2 curline), wp_pl = 0\<rparr> sh2)))"

definition get_new_page :: "demand_shard \<Rightarrow> io_type \<Rightarrow> ppa result" where
  "get_new_page sh io =
     bindR (get_wp sh io) (\<lambda>w.
       let p = mk_ppa (wp_ch w) (wp_lun w) (wp_pl w) (wp_blk w) (wp_pg w)
       in if g_pl p = 0 then Inr p else Inl Bug_on)"

text \<open>\<open>count_page\<close>: the page counters of the current collection; \<open>retire_line\<close>: a used-up line goes to the
  full list or to the victim queue.\<close>

definition count_page :: "io_type \<Rightarrow> demand_shard \<Rightarrow> demand_shard" where
  "count_page io sh = (case io of GC_IO \<Rightarrow> sh\<lparr>gc_pgs_this_gc := gc_pgs_this_gc sh + 1\<rparr>
     | GC_MAP_IO \<Rightarrow> sh\<lparr>map_gc_pgs_this_gc := map_gc_pgs_this_gc sh + 1\<rparr>
     | _ \<Rightarrow> sh\<lparr>map_pgs_this_gc := map_pgs_this_gc sh + 1\<rparr>)"

definition retire_line :: "demand_shard \<Rightarrow> nat \<Rightarrow> demand_shard result" where
  "retire_line sh cur =
     (let l = line_of sh cur; lm = sh_lm sh; cap = int (pgs_per_line (sh_spp sh) * sh_gpp sh) in
      if ln_igc l = 0 then
        bindR (assertR (ln_ipc l = 0) Bug_on) (\<lambda>_.
          Inr (sh\<lparr>sh_lm := lm\<lparr>lm_full := lm_full lm @ [cur], lm_full_cnt := lm_full_cnt lm + 1\<rparr>\<rparr>))
      else
        bindR (assertR (ln_vgc l \<ge> 0 \<and> ln_vgc l < cap) Bug_on) (\<lambda>_.
        bindR (assertR (ln_igc l > 0) Bug_on) (\<lambda>_.
        bindR (pqueue_insert (lm_victim lm) (lm_lines lm) cur) (\<lambda>(_, q, ls).
          Inr (sh\<lparr>sh_lm := lm\<lparr>lm_victim := q, lm_lines := ls, lm_victim_cnt := lm_victim_cnt lm + 1\<rparr>\<rparr>)))))"

definition next_line :: "demand_shard \<Rightarrow> io_type \<Rightarrow> write_pointer \<Rightarrow> demand_shard result" where
  "next_line sh io w =
     bindR (lock_lm sh) (\<lambda>sh1.
     bindR (retire_line sh1 (wp_curline w)) (\<lambda>sh2.
     bindR (check_addr (wp_blk w) (blks_per_pl (sh_spp sh2))) (\<lambda>_.
     bindR (get_next_free_line sh2) (\<lambda>(cur, sh3).
       let sh4 = sh3\<lparr>lm_spin := False\<rparr>;
           sh5 = upd_lm (set_line cur (\<lambda>l. l\<lparr>ln_map := is_map_io io\<rparr>)) sh4;
           w1 = w\<lparr>wp_curline := cur, wp_blk := ln_id (line_of sh5 cur)\<rparr>
       in bindR (check_addr (wp_blk w1) (blks_per_pl (sh_spp sh5))) (\<lambda>_.
          bindR (assertR (wp_pg w1 = 0 \<and> wp_lun w1 = 0 \<and> wp_ch w1 = 0 \<and> wp_pl w1 = 0) Bug_on) (\<lambda>_.
            Inr (set_wp io w1 sh5)))))))"

text \<open>\<open>step_wp\<close>: the odometer of the write pointer; \<open>None\<close> when the line is used up.\<close>

definition step_wp :: "ssdparams \<Rightarrow> write_pointer \<Rightarrow> (write_pointer \<times> bool) result" where
  "step_wp spp w =
     (let os = pgs_per_oneshotpg spp in
      if os = 0 then Inl Div_by_zero else
      bindR (check_addr (wp_pg w) (pgs_per_blk spp)) (\<lambda>_.
      let w1 = w\<lparr>wp_pg := wp_pg w + 1\<rparr> in
      if wp_pg w1 mod os \<noteq> 0 then Inr (w1, False)
      else
       let w2 = w1\<lparr>wp_pg := wp_pg w1 - os\<rparr> in
       bindR (check_addr (wp_ch w2) (nchs spp)) (\<lambda>_.
       let w3 = w2\<lparr>wp_ch := wp_ch w2 + 1\<rparr> in
       if wp_ch w3 \<noteq> nchs spp then Inr (w3, False)
       else
        let w4 = w3\<lparr>wp_ch := 0\<rparr> in
        bindR (check_addr (wp_lun w4) (luns_per_ch spp)) (\<lambda>_.
        let w5 = w4\<lparr>wp_lun := wp_lun w4 + 1\<rparr> in
        if wp_lun w5 \<noteq> luns_per_ch spp then Inr (w5, False)
        else
         let w6 = w5\<lparr>wp_lun := 0, wp_pg := wp_pg w5 + os\<rparr> in
         if wp_pg w6 \<noteq> pgs_per_blk spp then Inr (w6, False)
         else Inr (w6\<lparr>wp_pg := 0\<rparr>, True)))))"

definition advance_write_pointer :: "demand_shard \<Rightarrow> io_type \<Rightarrow> (bool \<times> demand_shard) result" where
  "advance_write_pointer sh io =
     bindR (get_wp sh io) (\<lambda>w.
     bindR (if io = MAP_IO then lock_map (count_page io sh) else Inr (count_page io sh)) (\<lambda>sh1.
     bindR (step_wp (sh_spp sh1) w) (\<lambda>(w1, used_up).
     bindR (if used_up then next_line sh1 io w1 else Inr (set_wp io w1 sh1)) (\<lambda>sh2.
       Inr (True, if io = MAP_IO then sh2\<lparr>map_spin := False\<rparr> else sh2)))))"

subsection \<open>Grain and page state\<close>

definition mark_page_valid :: "demand_shard \<Rightarrow> ppa \<Rightarrow> demand_shard result" where
  "mark_page_valid sh p =
     bindR (get_pg (sh_ssd sh) p) (\<lambda>pg.
     bindR (assertR (np_status pg = PG_FREE) Bug_on) (\<lambda>_.
       Inr (upd_ssd (upd_pg p (\<lambda>g. g\<lparr>np_status := PG_VALID\<rparr>)) sh)))"

definition mark_page_invalid :: "demand_shard \<Rightarrow> ppa \<Rightarrow> demand_shard result" where
  "mark_page_invalid sh p =
     bindR (get_pg (sh_ssd sh) p) (\<lambda>pg.
     bindR (assertR (np_status pg = PG_VALID) Bug_on) (\<lambda>_.
       let sh1 = upd_ssd (upd_pg p (\<lambda>g. g\<lparr>np_status := PG_INVALID\<rparr>)) sh in
       case sh_build sh of
         Original \<Rightarrow> Inr sh1
       | Plus \<Rightarrow> bindR (ppa2pgidx (sh_spp sh) p) (\<lambda>i.
                 bindR (assertR (sh_pg_inv_cnt sh1 i = sh_gpp sh) Bug_on) (\<lambda>_. Inr sh1))))"

text \<open>\<open>bump_line\<close>: the line's half of \<open>mark_grain_valid\<close>, under \<^verbatim>\<open>lm_spin\<close>.  It adds to the priority of the
  line without telling the victim queue.\<close>

definition bump_line :: "demand_shard \<Rightarrow> nat \<Rightarrow> nat \<Rightarrow> demand_shard result" where
  "bump_line sh l len =
     bindR (lock_lm sh) (\<lambda>sh1.
       let cap = int (pgs_per_line (sh_spp sh1) * sh_gpp sh1); vgc = ln_vgc (line_of sh1 l) in
       bindR (assertR (vgc \<ge> 0 \<and> vgc \<le> cap) Bug_on) (\<lambda>_.
         Inr ((upd_lm (set_line l (\<lambda>x. x\<lparr>ln_vgc := ln_vgc x + int len\<rparr>)) sh1)\<lparr>lm_spin := False\<rparr>)))"

definition mark_grain_valid :: "demand_shard \<Rightarrow> nat \<Rightarrow> nat \<Rightarrow> demand_shard result" where
  "mark_grain_valid sh grain len =
     bindR (lock_v sh) (\<lambda>sh0.
     bindR (ppa_to_struct (sh_spp sh0) (G_IDX (sh_build sh0) grain)) (\<lambda>p.
     bindR (get_pg (sh_ssd sh0) p) (\<lambda>pg.
     bindR (assertR (np_status pg = PG_VALID) Bug_on) (\<lambda>_.
     bindR (get_blk (sh_ssd sh0) p) (\<lambda>blk.
     bindR (assertR (nb_vgc blk \<ge> 0 \<and> nb_vgc blk \<le> int (pgs_per_blk (sh_spp sh0) * sh_gpp sh0)) Bug_on) (\<lambda>_.
       let sh1 = upd_ssd (upd_blk p (\<lambda>b. b\<lparr>nb_vgc := nb_vgc b + int len\<rparr>)) sh0 in
     bindR (get_line sh1 p) (\<lambda>l.
     bindR (bump_line sh1 l len) (\<lambda>sh2.
     bindR (case sh_build sh2 of
              Original \<Rightarrow> bindR (assertR (\<not> sh_grain_bitmap sh2 grain) Bug_on) (\<lambda>_.
                           Inr (sh2\<lparr>sh_grain_bitmap := (sh_grain_bitmap sh2)(grain := True)\<rparr>))
            | Plus \<Rightarrow> Inr sh2) (\<lambda>sh3.
       Inr (sh3\<lparr>v_spin := False\<rparr>))))))))))"

definition page_grains_invalid :: "demand_shard \<Rightarrow> nat \<Rightarrow> bool" where
  "page_grains_invalid sh page = (\<forall>i\<in>set [0..<sh_gpp sh]. \<not> sh_grain_bitmap sh (page * sh_gpp sh + i))"

text \<open>\<open>drop_line\<close>: the line's half of \<open>mark_grain_invalid\<close>: the new priority, and the move from the full list
  to the victim queue.  The difference that becomes the new priority is computed in 32 bits.\<close>

definition lower_line :: "line_mgmt \<Rightarrow> nat \<Rightarrow> nat \<Rightarrow> line_mgmt result" where
  "lower_line lm l len =
     (let ln = lm_lines lm ! l in
      if ln_pos ln \<noteq> 0 then
        case lm_victim lm of None \<Rightarrow> Inl Null_deref
        | Some q \<Rightarrow>
            let (q1, ls) = pqueue_change_priority q (lm_lines lm)
                             (ucast (word_of_int (ln_vgc ln) - of_nat len :: u32)) l
            in Inr (lm\<lparr>lm_victim := Some q1, lm_lines := ls\<rparr>)
      else Inr (set_line l (\<lambda>x. x\<lparr>ln_vgc := ln_vgc x - int len\<rparr>) lm))"

definition full_to_victim :: "line_mgmt \<Rightarrow> nat \<Rightarrow> line_mgmt result" where
  "full_to_victim lm l =
     (let lm1 = lm\<lparr>lm_full := removeAll l (lm_full lm), lm_free := removeAll l (lm_free lm),
                   lm_full_cnt := lm_full_cnt lm - 1\<rparr>
      in bindR (pqueue_insert (lm_victim lm1) (lm_lines lm1) l) (\<lambda>(_, q, ls).
           Inr (lm1\<lparr>lm_victim := q, lm_lines := ls, lm_victim_cnt := lm_victim_cnt lm1 + 1\<rparr>)))"

definition drop_line :: "demand_shard \<Rightarrow> nat \<Rightarrow> nat \<Rightarrow> bool \<Rightarrow> demand_shard result" where
  "drop_line sh l len was_full_line =
     bindR (lock_lm sh) (\<lambda>sh1.
     bindR (lower_line (sh_lm sh1) l len) (\<lambda>lm1.
     bindR (if was_full_line then full_to_victim lm1 l else Inr lm1) (\<lambda>lm2.
       let sh2 = sh1\<lparr>sh_lm := lm2\<rparr>; vgc = ln_vgc (line_of sh2 l) in
       bindR (assertR (vgc \<ge> 0 \<and> vgc \<le> int (pgs_per_line (sh_spp sh2) * sh_gpp sh2)) Bug_on) (\<lambda>_.
         Inr (sh2\<lparr>lm_spin := False\<rparr>)))))"

text \<open>The per-grain bookkeeping of the two builds.\<close>

definition clear_grain :: "demand_shard \<Rightarrow> ppa \<Rightarrow> nat \<Rightarrow> nat \<Rightarrow> nat \<Rightarrow> demand_shard result" where
  "clear_grain sh p page grain len =
     (case sh_build sh of
        Original \<Rightarrow> bindR (assertR (sh_grain_bitmap sh grain) Bug_on) (\<lambda>_.
          Inr (sh\<lparr>sh_grain_bitmap := (sh_grain_bitmap sh)(grain := False)\<rparr>))
      | Plus \<Rightarrow>
          if sh_pg_inv_cnt sh page + len > sh_gpp sh then Inl Bug_on
          else let sh1 = sh\<lparr>sh_pg_inv_cnt := (sh_pg_inv_cnt sh)(page := sh_pg_inv_cnt sh page + len)\<rparr>
               in if sh_pg_inv_cnt sh1 page = sh_gpp sh1 then mark_page_invalid sh1 p else Inr sh1)"

text \<open>One iteration of \<open>mark_grain_invalid\<close>: the part of the range that lies in the page \<open>p\<close>, \<open>count_invalid\<close>
  the assertions and the counters of its block and line.  The flag
  \<^verbatim>\<open>was_full_line\<close> is declared outside the loop and is handed to the next iteration.  C compares the grain counts with the capacities,
  which are \<^verbatim>\<open>unsigned long\<close>, without sign; the comparisons on integers below agree with that for counts that are not
  negative, which the invariant of line management keeps.\<close>

definition count_invalid :: "demand_shard \<Rightarrow> ppa \<Rightarrow> nat \<Rightarrow> bool \<Rightarrow> (nat \<times> bool \<times> demand_shard) result" where
  "count_invalid sh p len was_full_line =
     (let spp = sh_spp sh; gpp = sh_gpp sh; bcap = int (pgs_per_blk spp * gpp); lcap = int (pgs_per_line spp * gpp) in
     bindR (get_pg (sh_ssd sh) p) (\<lambda>pg.
     bindR (assertR (np_status pg = PG_VALID) Bug_on) (\<lambda>_.
     bindR (get_blk (sh_ssd sh) p) (\<lambda>blk.
     bindR (assertR (nb_igc blk < bcap) Bug_on) (\<lambda>_.
     bindR (assertR (nb_vgc blk > 0 \<and> nb_vgc blk \<le> bcap) Bug_on) (\<lambda>_.
       let sh1 = upd_ssd (upd_blk p (\<lambda>b. b\<lparr>nb_igc := nb_igc b + int len\<rparr>)) sh in
     bindR (get_line sh1 p) (\<lambda>l.
       let ln = line_of sh1 l in
     bindR (assertR (ln_igc ln \<ge> 0 \<and> ln_igc ln < lcap) Bug_on) (\<lambda>_.
     bindR (assertR (ln_vgc ln \<ge> lcap \<longrightarrow> ln_igc ln = 0) Bug_on) (\<lambda>_.
       Inr (l, was_full_line \<or> ln_vgc ln \<ge> lcap,
            upd_lm (set_line l (\<lambda>x. x\<lparr>ln_igc := ln_igc x + int len\<rparr>)) sh1))))))))))"

definition invalidate_page ::
  "demand_shard \<Rightarrow> ppa \<Rightarrow> nat \<Rightarrow> nat \<Rightarrow> nat \<Rightarrow> bool \<Rightarrow> (bool \<times> nat \<times> demand_shard) result" where
  "invalidate_page sh p page grain rem was_full_line =
     bindR (lock_inv sh) (\<lambda>sh0.
       let len = min rem (sh_gpp sh0 - grain mod sh_gpp sh0) in
     bindR (assertR (len > 0) Bug_on) (\<lambda>_.
     bindR (count_invalid sh0 p len was_full_line) (\<lambda>(l, wfl, sh2).
     bindR (drop_line sh2 l len wfl) (\<lambda>sh3.
     bindR (clear_grain sh3 p page grain len) (\<lambda>sh4.
       Inr (wfl, rem - len, sh4\<lparr>inv_spin := False\<rparr>))))))"

lemma invalidate_page_decr:
  "invalidate_page sh p page grain rem wfl = Inr (wfl', rem', sh') \<Longrightarrow> rem' < rem"
  unfolding invalidate_page_def Let_def by (elim bindR_InrE) (auto simp: min_def split: if_splits prod.splits elim!: bindR_InrE)

function mark_invalid_loop ::
  "demand_shard \<Rightarrow> ppa \<Rightarrow> nat \<Rightarrow> nat \<Rightarrow> nat \<Rightarrow> bool \<Rightarrow> demand_shard result" where
  "mark_invalid_loop sh p page grain rem was_full_line =
     (case invalidate_page sh p page grain rem was_full_line of
        Inl f \<Rightarrow> Inl f
      | Inr (wfl, rem1, sh1) \<Rightarrow>
          if rem1 = 0 then Inr sh1
          else bindR (peek_next_page (sh_spp sh1) p) (\<lambda>p1.
               bindR (assertR (g_blk p1 = ln_id (line_of sh1 (g_blk p))) Bug_on) (\<lambda>_.
               bindR (ppa2pgidx (sh_spp sh1) p1) (\<lambda>page1.
                 mark_invalid_loop sh1 p1 page1 (PPA_TO_PGA (sh_build sh1) page1 0) rem1 wfl))))"
  by pat_completeness auto
termination
  by (relation "measure (\<lambda>(sh, p, page, grain, rem, wfl). rem)") (auto dest: invalidate_page_decr)

declare mark_invalid_loop.simps [simp del]

definition mark_grain_invalid :: "demand_shard \<Rightarrow> nat \<Rightarrow> nat \<Rightarrow> demand_shard result" where
  "mark_grain_invalid sh grain len =
     (let page = G_IDX (sh_build sh) grain in
      bindR (ppa_to_struct (sh_spp sh) page) (\<lambda>p.
      bindR (assertR (len > sh_gpp sh \<longrightarrow> \<not> last_pg_in_line (sh_spp sh) p) Bug_on) (\<lambda>_.
        mark_invalid_loop sh p page grain len False)))"

subsection \<open>Erasing\<close>

definition clear_oob :: "demand_shard \<Rightarrow> nat \<Rightarrow> demand_shard" where
  "clear_oob sh pgidx = sh\<lparr>sh_oob := (sh_oob sh)(pgidx := (\<lambda>i. if i < sh_gpp sh then 2 else sh_oob sh pgidx i))\<rparr>"

text \<open>\<^verbatim>\<open>clear_oob_block\<close> fills the same memory bytewise with 2.\<close>

definition clear_oob_block :: "demand_shard \<Rightarrow> nat \<Rightarrow> demand_shard" where
  "clear_oob_block sh start = sh\<lparr>sh_oob := (\<lambda>pg i.
     if start \<le> pg \<and> pg < start + pgs_per_blk (sh_spp sh) \<and> i < sh_gpp sh then 0x0202020202020202 else sh_oob sh pg i)\<rparr>"

fun free_pages :: "demand_shard \<Rightarrow> ppa \<Rightarrow> nat \<Rightarrow> nat list \<Rightarrow> demand_shard result" where
  "free_pages sh p page [] = Inr sh"
| "free_pages sh p page (i # is) =
     bindR (get_pg (sh_ssd sh) (p\<lparr>g_pg := i\<rparr>)) (\<lambda>pg.
     bindR (assertR (np_nsecs pg = secs_per_pg (sh_spp sh)) Bug_on) (\<lambda>_.
       let sh1 = upd_ssd (upd_pg (p\<lparr>g_pg := i\<rparr>) (\<lambda>g. g\<lparr>np_status := PG_FREE\<rparr>)) sh;
           sh2 = (case sh_build sh1 of
                    Plus \<Rightarrow> sh1\<lparr>sh_pg_inv_cnt := (sh_pg_inv_cnt sh1)(page + i := 0)\<rparr>
                  | Original \<Rightarrow> sh1\<lparr>sh_grain_bitmap := (\<lambda>g. if (page + i) * sh_gpp sh1 \<le> g \<and>
                      g < (page + i) * sh_gpp sh1 + sh_gpp sh1 then False else sh_grain_bitmap sh1 g)\<rparr>)
       in free_pages (clear_oob sh2 (page + i)) p page is))"

definition mark_block_free :: "demand_shard \<Rightarrow> ppa \<Rightarrow> demand_shard result" where
  "mark_block_free sh p =
     bindR (get_blk (sh_ssd sh) p) (\<lambda>blk.
     bindR (ppa2pgidx (sh_spp sh) (p\<lparr>g_pg := 0\<rparr>)) (\<lambda>page.
     bindR (free_pages sh (p\<lparr>g_pg := 0\<rparr>) page [0..<pgs_per_blk (sh_spp sh)]) (\<lambda>sh1.
     bindR (assertR (nb_npgs blk = pgs_per_blk (sh_spp sh1)) Bug_on) (\<lambda>_.
       Inr (upd_ssd (upd_blk p (\<lambda>b. b\<lparr>nb_ipc := 0, nb_vpc := 0, nb_igc := 0, nb_vgc := 0,
              nb_erase_cnt := nb_erase_cnt b + 1\<rparr>)) sh1)))))"

definition mark_line_free :: "demand_shard \<Rightarrow> ppa \<Rightarrow> demand_shard result" where
  "mark_line_free sh p =
     bindR (get_line sh p) (\<lambda>l.
     bindR (lock_lm sh) (\<lambda>sh1.
       let sh2 = upd_lm (set_line l (\<lambda>x. x\<lparr>ln_ipc := 0, ln_vpc := 0, ln_igc := 0, ln_vgc := 0\<rparr>)) sh1;
           sh3 = upd_lm (\<lambda>lm. lm\<lparr>lm_free := lm_free lm @ [l], lm_free_cnt := lm_free_cnt lm + 1\<rparr>) sh2
       in Inr (sh3\<lparr>lm_spin := False\<rparr>)))"

subsection \<open>Choosing a victim\<close>

text \<open>The search of \<open>select_victim_line\<close>: a victim on the line \<open>busy\<close> that stores are written to is put
  aside (\<^verbatim>\<open>dummy\<close>) and put back at the end.\<close>

definition put_back :: "line_mgmt \<Rightarrow> nat option \<Rightarrow> line_mgmt result" where
  "put_back lm dummy =
     (case dummy of None \<Rightarrow> Inr lm
      | Some d \<Rightarrow> bindR (pqueue_insert (lm_victim lm) (lm_lines lm) d) (\<lambda>(_, q, ls).
          Inr (lm\<lparr>lm_victim := q, lm_lines := ls\<rparr>)))"

definition pop_victim :: "line_mgmt \<Rightarrow> line_mgmt" where
  "pop_victim lm = (let (_, q, ls) = pqueue_pop (lm_victim lm) (lm_lines lm) in lm\<lparr>lm_victim := q, lm_lines := ls\<rparr>)"

lemma percolate_down_size: "pq_size (fst (percolate_down q s i)) = pq_size q"
proof -
  have "pq_size (fst (percolate_down_loop q s p i)) = pq_size q" for p
  proof (induction q s p i rule: percolate_down_loop.induct)
    case (1 q s p i)
    show ?case
    proof (cases "maxchild q s i \<noteq> 0 \<and> pq_cmppri q p (pq_getpri q s (pq_d q (maxchild q s i)))")
      case True
      then show ?thesis using 1 [OF refl True refl refl] by (simp add: percolate_down_loop.simps [of q s p i] Let_def)
    qed (auto simp: percolate_down_loop.simps [of q s p i] Let_def)
  qed
  from this [of "pq_getpri q s (pq_d q i)"] show ?thesis
    by (simp add: percolate_down_def Let_def split_def)
qed

lemma pop_victim_size:
  "lm_victim lm = Some q \<Longrightarrow> pq_size q \<noteq> 1 \<Longrightarrow>
   \<exists>q'. lm_victim (pop_victim lm) = Some q' \<and> pq_size q' = pq_size q - 1"
  using percolate_down_size [of "q\<lparr>pq_size := pq_size q - 1, pq_d := (pq_d q)(1 := pq_d q (pq_size q - 1))\<rparr>" "lm_lines lm" 1]
  by (auto simp: pop_victim_def pqueue_pop_def Let_def split_def)

function select_loop :: "line_mgmt \<Rightarrow> nat \<Rightarrow> nat option \<Rightarrow> (nat option \<times> line_mgmt) result" where
  "select_loop lm busy dummy =
     (case lm_victim lm of
        None \<Rightarrow> bindR (put_back lm dummy) (\<lambda>lm1. Inr (None, lm1))
      | Some q \<Rightarrow>
          if pq_size q = 0 then Inl Out_of_bounds
          else case pqueue_peek (Some q) of
            None \<Rightarrow> bindR (put_back lm dummy) (\<lambda>lm1. Inr (None, lm1))
          | Some v \<Rightarrow>
              if ln_id (lm_lines lm ! v) = busy then select_loop (pop_victim lm) busy (Some v)
              else
                let lm1 = set_line v (\<lambda>l. l\<lparr>ln_pos := 0\<rparr>) (pop_victim lm);
                    lm2 = lm1\<lparr>lm_victim_cnt := lm_victim_cnt lm1 - 1\<rparr>
                in bindR (put_back lm2 dummy) (\<lambda>lm3. Inr (Some v, lm3)))"
  by pat_completeness auto
termination
proof (relation "measure (\<lambda>(lm, busy, dummy). case lm_victim lm of None \<Rightarrow> 0 | Some q \<Rightarrow> pq_size q)", goal_cases)
  case (2 lm busy dummy q v)
  then have "pq_size q \<noteq> 1" by (auto simp: pqueue_peek_def)
  from pop_victim_size [OF 2(1) this] show ?case using 2 by auto
qed simp

declare select_loop.simps [simp del]

definition busy_line :: "demand_shard \<Rightarrow> nat result" where
  "busy_line sh = (case pqueue_peek (lm_victim (sh_lm sh)) of None \<Rightarrow> Inr 0
     | Some _ \<Rightarrow> grain2lineid sh (sh_offset sh div GRAINED_UNIT (sh_build sh)))"

definition select_victim_line :: "demand_shard \<Rightarrow> (nat option \<times> demand_shard) result" where
  "select_victim_line sh =
     bindR (lock_lm sh) (\<lambda>sh1.
     bindR (busy_line sh1) (\<lambda>busy.
     bindR (select_loop (sh_lm sh1) busy None) (\<lambda>(v, lm1).
       Inr (v, sh1\<lparr>sh_lm := lm1, lm_spin := False\<rparr>))))"

subsection \<open>Closing a stripe\<close>

text \<open>\<open>clear_rest_of_line\<close> fills the rest of the current stripe with dead grains; the first result counts them.\<close>

definition set_oob_tail :: "nat \<Rightarrow> nat \<Rightarrow> nat \<Rightarrow> demand_shard \<Rightarrow> demand_shard" where
  "set_oob_tail pgidx g_off v sh = sh\<lparr>sh_oob := (sh_oob sh)(pgidx :=
     (\<lambda>i. if g_off \<le> i \<and> i < sh_gpp sh then v else sh_oob sh pgidx i))\<rparr>"

function clear_loop ::
  "demand_shard \<Rightarrow> io_type \<Rightarrow> nat \<Rightarrow> ppa \<Rightarrow> nat \<Rightarrow> nat \<Rightarrow> nat \<Rightarrow> nat \<Rightarrow> (nat \<times> demand_shard) result" where
  "clear_loop sh io lun p pgidx g_off rem cred =
     (if g_lun p \<noteq> lun then Inr (cred, sh)
      else if rem = 0 then Inl Bug_on
      else
       let gpp = sh_gpp sh; len = min rem (gpp - g_off mod gpp); grain = pgidx * gpp + g_off in
       bindR (mark_grain_valid sh grain len) (\<lambda>sh1.
       bindR (mark_grain_invalid sh1 grain len) (\<lambda>sh2.
         let sh3 = set_oob_tail pgidx g_off (2 ^ 32 - 1) sh2 in
       bindR (peek_next_page (sh_spp sh3) p) (\<lambda>p1.
       bindR (ppa2pgidx (sh_spp sh3) p1) (\<lambda>pgidx1.
       bindR (if g_lun p1 = lun
              then bindR (advance_write_pointer sh3 io) (\<lambda>(_, sh4). mark_page_valid sh4 p1)
              else Inr sh3) (\<lambda>sh5.
         clear_loop sh5 io lun p1 pgidx1 0 (rem - len) (cred + len)))))))"
  by pat_completeness auto
termination
proof (relation "measure (\<lambda>(sh, io, lun, p, pgidx, g_off, rem, credits). rem)", goal_cases)
  case (2 sh io lun p pgidx g_off rem cred x xa)
  have "0 < x - g_off mod x" using grain_per_page_pos [of "sh_build sh"] 2(3) by simp
  then show ?case using 2 by simp
qed simp

declare clear_loop.simps [simp del]

definition clear_rest_of_line ::
  "demand_shard \<Rightarrow> ppa \<Rightarrow> nat \<Rightarrow> bool \<Rightarrow> (nat \<times> demand_shard) result" where
  "clear_rest_of_line sh p g_off gc =
     bindR (ppa2pgidx (sh_spp sh) p) (\<lambda>pgidx.
       clear_loop sh (if gc then GC_IO else USER_IO) (g_lun p) p pgidx g_off
         (pgs_per_lun (sh_spp sh) * sh_gpp sh) 0)"

subsection \<open>Building the shard\<close>

definition conv_init_params :: "build \<Rightarrow> convparams" where
  "conv_init_params b = \<lparr>gc_thres_lines = 8, gc_thres_lines_high = (case b of Original \<Rightarrow> 2 | Plus \<Rightarrow> 4),
     enable_gc_delay = True\<rparr>"

text \<open>The part of \<open>demand_init\<close> about grains: every OOB entry is 2, no grain is valid; with it the clearing of the
  pages' invalid counts at the start of that function and of \<^verbatim>\<open>offset\<close> at its end.  The allocations and the section cache
  are left out.\<close>

definition demand_init_grains :: "demand_shard \<Rightarrow> demand_shard" where
  "demand_init_grains sh = sh\<lparr>sh_oob := (\<lambda>pg i. if pg < tt_pgs (sh_spp sh) \<and> i < sh_gpp sh then 2 else sh_oob sh pg i),
     sh_grain_bitmap := (\<lambda>_. False), sh_pg_inv_cnt := (\<lambda>_. 0), sh_offset := 0\<rparr>"

text \<open>\<open>sh0\<close> is the memory the shard is built in, with the free locks of \<^verbatim>\<open>conv_init_namespace\<close>.\<close>

definition conv_init_ftl ::
  "bool \<Rightarrow> (nat \<Rightarrow> nat) option \<Rightarrow> convparams \<Rightarrow> ssd \<Rightarrow> demand_shard \<Rightarrow> demand_shard result" where
  "conv_init_ftl alloc mem cpp s sh0 =
     bindR (init_lines alloc mem (sh0\<lparr>sh_cp := cpp, sh_ssd := s\<rparr>)) (\<lambda>sh1.
     bindR (prepare_write_pointer sh1 USER_IO) (\<lambda>sh2.
     bindR (prepare_write_pointer sh2 MAP_IO) (\<lambda>sh3.
     bindR (prepare_write_pointer sh3 GC_MAP_IO) (\<lambda>sh4.
     bindR (prepare_write_pointer sh4 GC_IO) (\<lambda>sh5.
       let sh6 = demand_init_grains (init_write_flow_control sh5) in
     bindR (get_new_page sh6 USER_IO) (\<lambda>cur_page.
     bindR (ppa2pgidx (sh_spp sh6) cur_page) (\<lambda>pgidx.
     bindR (assertR (pgidx = 0) Bug_on) (\<lambda>_.
     bindR (advance_write_pointer sh6 USER_IO) (\<lambda>(_, sh7).
     bindR (mark_page_valid sh7 cur_page) (\<lambda>sh8.
     bindR (mark_grain_valid sh8 (PPA_TO_PGA (sh_build sh8) pgidx 0) (sh_gpp sh8)) (\<lambda>sh9.
       mark_grain_invalid sh9 (PPA_TO_PGA (sh_build sh9) pgidx 0) (sh_gpp sh9))))))))))))"

subsection \<open>The victim queue meets the contract of a priority queue\<close>

interpretation victim: pq_store victim_line_cmp_pri victim_line_get_pri victim_line_set_pri
  victim_line_get_pos victim_line_set_pos "\<lambda>ls a. a < length ls" "\<lambda>p. unat p < 2 ^ 31"
proof (unfold_locales, goal_cases)
  case (3 s e i e')
  then show ?case by (simp add: victim_line_get_pos_def victim_line_set_pos_def nth_list_update)
next
  case (4 e i s)
  then show ?case
    by (cases "e < length s") (auto simp: victim_line_get_pri_def victim_line_set_pos_def fun_eq_iff nth_list_update not_less list_update_beyond)
next
  case (6 s e p e')
  have "sint (ucast p :: u32) = int (unat p)"
  proof -
    have u: "unat (ucast p :: u32) = unat p" using 6(2)
      by (simp add: unsigned_ucast_eq unsigned_take_bit_eq take_bit_nat_eq_self)
    then show ?thesis using 6(2) sint_small [of "ucast p"] by simp
  qed
  then show ?case using 6
    by (simp add: victim_line_get_pri_def victim_line_set_pri_def nth_list_update)
next
  case (7 e p s)
  then show ?case
    by (cases "e < length s") (auto simp: victim_line_get_pos_def victim_line_set_pri_def fun_eq_iff nth_list_update not_less list_update_beyond)
qed (auto simp: victim_line_cmp_pri_def victim_line_set_pos_def victim_line_set_pri_def)

text \<open>
  \<^bold>\<open>C20.\<close>  The victim queue is a priority queue of lines.  On a heap-ordered queue with room, inserting a line that is
  not queued, changing the priority of a queued line to one that fits an int, and taking the front line all return
  and leave a heap-ordered queue of the expected lines; no line of the queue has fewer valid grains than the front
  line that \<open>pqueue_pop\<close> hands out.
\<close>

theorem victim_queue_ops:
  assumes "pq_bound q victim_line_cmp_pri victim_line_get_pri victim_line_set_pri victim_line_get_pos victim_line_set_pos"
    "pq_inv (\<lambda>ls a. a < length ls) q ls"
  shows "(e < length ls \<and> e \<notin> pq_elems q \<and> pq_size q < pq_avail q \<longrightarrow>
      (\<exists>q' ls'. pqueue_insert (Some q) ls e = Inr (0, Some q', ls') \<and> pq_inv (\<lambda>ls a. a < length ls) q' ls' \<and>
         pq_elems q' = insert e (pq_elems q))) \<and>
    (e \<in> pq_elems q \<and> unat p < 2 ^ 31 \<longrightarrow>
      (\<exists>q' ls'. pqueue_change_priority q ls p e = (q', ls') \<and> pq_inv (\<lambda>ls a. a < length ls) q' ls' \<and> pq_elems q' = pq_elems q)) \<and>
    (pq_size q \<noteq> 1 \<longrightarrow>
      (\<exists>q' ls'. pqueue_pop (Some q) ls = (Some (pq_d q 1), Some q', ls') \<and> pq_inv (\<lambda>ls a. a < length ls) q' ls' \<and>
         pq_elems q' = pq_elems q - {pq_d q 1} \<and>
         (\<forall>x\<in>pq_elems q. victim_line_get_pri ls (pq_d q 1) \<le> victim_line_get_pri ls x)))"
proof (intro conjI impI)
  have h: "victim.handle q" using assms(1) by (simp add: victim.handle_def)
  show "\<exists>q' ls'. pqueue_insert (Some q) ls e = Inr (0, Some q', ls') \<and> pq_inv (\<lambda>ls a. a < length ls) q' ls' \<and>
      pq_elems q' = insert e (pq_elems q)" if "e < length ls \<and> e \<notin> pq_elems q \<and> pq_size q < pq_avail q"
    using victim.insert_next [OF h assms(2), of e] that unfolding victim.pq_next_def by blast
  show "\<exists>q' ls'. pqueue_change_priority q ls p e = (q', ls') \<and> pq_inv (\<lambda>ls a. a < length ls) q' ls' \<and> pq_elems q' = pq_elems q"
    if "e \<in> pq_elems q \<and> unat p < 2 ^ 31"
    using victim.change_priority_next [OF h assms(2), of e p] that unfolding victim.pq_next_def by blast
  assume n: "pq_size q \<noteq> 1"
  then have "\<forall>x\<in>pq_elems q. \<not> victim_line_cmp_pri (victim_line_get_pri ls (pq_d q 1)) (victim_line_get_pri ls x)"
    using victim.peek_least [OF h assms(2), of "pq_d q 1"] by (simp add: pqueue_peek_def)
  then show "\<exists>q' ls'. pqueue_pop (Some q) ls = (Some (pq_d q 1), Some q', ls') \<and> pq_inv (\<lambda>ls a. a < length ls) q' ls' \<and>
      pq_elems q' = pq_elems q - {pq_d q 1} \<and> (\<forall>x\<in>pq_elems q. victim_line_get_pri ls (pq_d q 1) \<le> victim_line_get_pri ls x)"
    using victim.pop_next [OF h assms(2) n] unfolding victim.pq_next_def victim_line_cmp_pri_def not_less by blast
qed

theorem victim_queue_ops_witness:
  "\<exists>q q' ls ls'. pqueue_init True (Some (\<lambda>_. 0 :: nat)) 4 victim_line_cmp_pri victim_line_get_pri victim_line_set_pri
       victim_line_get_pos victim_line_set_pos = Some q \<and>
     pqueue_insert (Some q) ls 1 = Inr (0, Some q', ls') \<and> pq_elems q' = {1}"
proof -
  let ?ls = "replicate 4 \<lparr>ln_id = 0, ln_ipc = 0, ln_vpc = 0, ln_vgc = 9, ln_igc = 0, ln_pos = 0, ln_map = False\<rparr>"
  obtain q where q: "pqueue_init True (Some (\<lambda>_. 0 :: nat)) 4 victim_line_cmp_pri victim_line_get_pri victim_line_set_pri
       victim_line_get_pos victim_line_set_pos = Some q" by (simp add: pqueue_init_def)
  then have "pq_bound q victim_line_cmp_pri victim_line_get_pri victim_line_set_pri victim_line_get_pos victim_line_set_pos"
    "pq_inv (\<lambda>ls a. a < length ls) q ?ls" "pq_elems q = {}" "pq_size q < pq_avail q"
    by (auto simp: pqueue_init_def pq_bound_def pq_inv_def pq_shape_def pq_elems_def pq_placed_def heap_upto_def)
  then have "\<exists>q' ls'. pqueue_insert (Some q) ?ls 1 = Inr (0, Some q', ls') \<and> pq_elems q' = {1}"
    using victim_queue_ops [of q ?ls 1] by auto
  then show ?thesis using q by blast
qed

end
