(* ===== verification/FtlInv.thy ===== *)
theory FtlInv
  imports FtlLines
begin

text \<open>
  The invariant of line management and its consequences.  Every line is in exactly one place: on the
  free list, on the full list, in the victim queue, under a write pointer, or held by the garbage
  collector.  The three counters agree with the places, every queued line knows its index in the victim
  queue, and the grain counts of a line never exceed the pages handed out from it.
\<close>

subsection \<open>Lines apart from their queue position\<close>

definition strip :: "line list \<Rightarrow> line list" where
  "strip ls = map (\<lambda>l. l\<lparr>ln_pos := 0\<rparr>) ls"

lemma strip_set_pos [simp]: "strip (victim_line_set_pos e i ls) = strip ls"
  by (cases "e < length ls") (auto simp: strip_def victim_line_set_pos_def map_update list_update_beyond
      intro!: nth_equalityI simp: nth_list_update)

lemma strip_length: "strip ls = strip ls' \<Longrightarrow> length ls = length ls'"
  by (metis strip_def length_map)

lemma strip_nth:
  assumes "strip ls = strip ls'" "i < length ls"
  shows "ln_id (ls ! i) = ln_id (ls' ! i)" "ln_ipc (ls ! i) = ln_ipc (ls' ! i)" "ln_vgc (ls ! i) = ln_vgc (ls' ! i)"
    "ln_igc (ls ! i) = ln_igc (ls' ! i)"
proof -
  have "(ls ! i)\<lparr>ln_pos := 0\<rparr> = (ls' ! i)\<lparr>ln_pos := 0\<rparr>"
    using assms strip_length [OF assms(1)] by (metis strip_def nth_map)
  then show "ln_id (ls ! i) = ln_id (ls' ! i)" "ln_ipc (ls ! i) = ln_ipc (ls' ! i)" "ln_vgc (ls ! i) = ln_vgc (ls' ! i)"
    "ln_igc (ls ! i) = ln_igc (ls' ! i)"
    by (metis line.select_convs line.surjective line.update_convs(6))+
qed

subsection \<open>Where the lines are\<close>

abbreviation (input) live :: "line list \<Rightarrow> nat \<Rightarrow> bool" where
  "live \<equiv> (\<lambda>ls a. a < length ls)"

abbreviation n_lines :: "line_mgmt \<Rightarrow> nat" where
  "n_lines lm \<equiv> length (lm_lines lm)"

text \<open>\<open>queue_ok\<close>: the victim queue holds distinct lines that know their index.  \<open>marks_ok\<close>: a line's
  \<open>pos\<close> is non-zero exactly when it is queued; nothing is said of the lines \<open>D\<close> that victim selection has
  set aside.\<close>

definition queue_ok :: "line_mgmt \<Rightarrow> victim_queue \<Rightarrow> bool" where
  "queue_ok lm q \<longleftrightarrow> lm_victim lm = Some q \<and> victim.handle q \<and> pq_part live q (lm_lines lm) \<and>
     pq_avail q = n_lines lm + 1"

definition marks_ok :: "line list \<Rightarrow> nat set \<Rightarrow> nat set \<Rightarrow> bool" where
  "marks_ok ls E D \<longleftrightarrow> (\<forall>i<length ls. ln_id (ls ! i) = i \<and> (i \<notin> D \<longrightarrow> (ln_pos (ls ! i) \<noteq> 0 \<longleftrightarrow> i \<in> E)))"

lemma marks_ok_update:
  "ln_id y = ln_id (ls ! x) \<Longrightarrow> ln_pos y = ln_pos (ls ! x) \<Longrightarrow> marks_ok (ls[x := y]) E D = marks_ok ls E D"
  by (simp add: marks_ok_def nth_update_field [of ln_id] nth_update_field [of ln_pos])

text \<open>\<open>places_ok\<close>: every line is in exactly one place; \<open>out\<close> are the lines under a write pointer, in the
  hands of the collector, or set aside.\<close>

definition places_ok :: "nat \<Rightarrow> nat list \<Rightarrow> nat set \<Rightarrow> nat set \<Rightarrow> bool" where
  "places_ok n xs E out \<longleftrightarrow> distinct xs \<and> E \<inter> set xs = {} \<and> out \<inter> (set xs \<union> E) = {} \<and> set xs \<union> E \<union> out = {..<n}"

lemma places_finite: "places_ok n xs E out \<Longrightarrow> finite out"
  using finite_subset [of out "{..<n}"] by (auto simp: places_ok_def)

definition lines_ok :: "line_mgmt \<Rightarrow> victim_queue \<Rightarrow> nat set \<Rightarrow> nat set \<Rightarrow> bool" where
  "lines_ok lm q out D \<longleftrightarrow> queue_ok lm q \<and> marks_ok (lm_lines lm) (pq_elems q) D \<and> D \<subseteq> out \<and>
     places_ok (n_lines lm) (lm_free lm @ lm_full lm) (pq_elems q) out \<and>
     lm_free_cnt lm = of_nat (length (lm_free lm)) \<and> lm_full_cnt lm = of_nat (length (lm_full lm)) \<and>
     lm_victim_cnt lm = of_nat (pq_size q - 1 + card D)"

lemma pq_card: "pq_part live q ls \<Longrightarrow> card (pq_elems q) = pq_size q - 1"
  by (simp add: pq_part_def pq_shape_def pq_elems_def card_image)

lemma pq_size_pos: "queue_ok lm q \<Longrightarrow> 1 \<le> pq_size q"
  by (simp add: queue_ok_def pq_part_def pq_shape_def)

lemma elems_live: "queue_ok lm q \<Longrightarrow> pq_elems q \<subseteq> {..<n_lines lm}"
  by (auto simp: queue_ok_def pq_part_def pq_shape_def)

text \<open>A line outside the queue leaves room for itself.\<close>

lemma queue_room:
  assumes "queue_ok lm q" "x < n_lines lm" "x \<notin> pq_elems q"
  shows "pq_size q < pq_avail q"
proof -
  have part: "pq_part live q (lm_lines lm)" "pq_avail q = n_lines lm + 1"
    using assms(1) by (simp_all add: queue_ok_def)
  have "pq_elems q \<subseteq> {..<n_lines lm} - {x}" using elems_live [OF assms(1)] assms by auto
  then have "card (pq_elems q) \<le> n_lines lm - 1"
    using card_mono [of "{..<n_lines lm} - {x}" "pq_elems q"] assms(2) by simp
  then show ?thesis using part pq_card [OF part(1)] assms(2) by linarith
qed

text \<open>What a queue operation does to the lines.\<close>

lemma part_next_marks:
  assumes n: "victim.part_next q ls E E' n q' ls'" and s: "strip ls' = strip ls"
    and m: "marks_ok ls S D" and D: "E - E' \<subseteq> D'" "D - E' \<subseteq> D'" "S \<inter> - E = {}"
  shows "marks_ok ls' E' D'"
  unfolding marks_ok_def
proof (intro allI impI conjI)
  fix i assume i: "i < length ls'"
  have len: "length ls' = length ls" using strip_length [OF s] .
  show "ln_id (ls' ! i) = i" using strip_nth(1) [OF s i] m i len by (simp add: marks_ok_def)
  assume iD: "i \<notin> D'"
  note nd = victim.part_nextD [OF n, unfolded victim_line_get_pos_def]
  show "(ln_pos (ls' ! i) \<noteq> 0) = (i \<in> E')"
  proof (cases "i \<in> E'")
    case True
    then show ?thesis using nd(8) by blast
  next
    case False
    then have "i \<notin> E" using D(1) iD by blast
    moreover have "i \<notin> D" using D(2) iD False by blast
    moreover have "i \<notin> S" using D(3) \<open>i \<notin> E\<close> by blast
    ultimately show ?thesis using nd(6) [of i] m False i len unfolding marks_ok_def by metis
  qed
qed

lemma victim_views:
  assumes "victim.handle q"
  shows "pqueue_insert (Some q) ls e = Inr (r, q', ls') \<Longrightarrow> strip ls' = strip ls"
    "pqueue_pop (Some q) ls = (x, q', ls') \<Longrightarrow> strip ls' = strip ls"
    "pqueue_change_priority q ls p e = (q'', ls') \<Longrightarrow> strip ls' = strip (victim_line_set_pri e p ls)"
proof -
  have *: "strip (pq_setpos q e i s) = strip s" for e i s using assms by simp
  have "pq_setpri q = victim_line_set_pri" using assms by simp
  then show "pqueue_insert (Some q) ls e = Inr (r, q', ls') \<Longrightarrow> strip ls' = strip ls"
    "pqueue_pop (Some q) ls = (x, q', ls') \<Longrightarrow> strip ls' = strip ls"
    "pqueue_change_priority q ls p e = (q'', ls') \<Longrightarrow> strip ls' = strip (victim_line_set_pri e p ls)"
    using pqueue_views [of strip q, OF *] by metis+
qed


lemma queue_insert:
  assumes "queue_ok lm q" "marks_ok (lm_lines lm) (pq_elems q) D" "x < n_lines lm" "x \<notin> pq_elems q"
  obtains q' ls' where "pqueue_insert (lm_victim lm) (lm_lines lm) x = Inr (0, Some q', ls')"
    "queue_ok (lm\<lparr>lm_victim := Some q', lm_lines := ls'\<rparr>) q'" "marks_ok ls' (insert x (pq_elems q)) (D - {x})"
    "pq_elems q' = insert x (pq_elems q)" "pq_size q' = Suc (pq_size q)" "strip ls' = strip (lm_lines lm)"
proof -
  have q: "lm_victim lm = Some q" "victim.handle q" "pq_part live q (lm_lines lm)" "pq_avail q = n_lines lm + 1"
    using assms(1) by (simp_all add: queue_ok_def)
  obtain q' ls' where i: "pqueue_insert (Some q) (lm_lines lm) x = Inr (0, Some q', ls')"
    "victim.part_next q (lm_lines lm) (insert x (pq_elems q)) (insert x (pq_elems q)) (Suc (pq_size q)) q' ls'"
    using victim.insert_part [OF q(2,3) assms(3,4) queue_room [OF assms(1,3,4)]] by blast
  note s = victim_views(1) [OF q(2) i(1)]
  note d = victim.part_nextD [OF i(2)]
  have "marks_ok ls' (insert x (pq_elems q)) (D - {x})"
    by (rule part_next_marks [OF i(2) s assms(2)]) auto
  moreover have "queue_ok (lm\<lparr>lm_victim := Some q', lm_lines := ls'\<rparr>) q'"
    using d(1,2,4) q(4) strip_length [OF s] by (simp add: queue_ok_def)
  ultimately show thesis using that [of q' ls'] i(1) d(3,5) s q(1) by simp
qed

lemma queue_pop:
  assumes "queue_ok lm q" "marks_ok (lm_lines lm) (pq_elems q) D" "pq_size q \<noteq> 1"
  obtains q' ls' where "pqueue_pop (lm_victim lm) (lm_lines lm) = (Some (pq_d q 1), Some q', ls')"
    "queue_ok (lm\<lparr>lm_victim := Some q', lm_lines := ls'\<rparr>) q'"
    "marks_ok ls' (pq_elems q - {pq_d q 1}) (insert (pq_d q 1) D)"
    "pq_elems q' = pq_elems q - {pq_d q 1}" "pq_size q' = pq_size q - 1" "strip ls' = strip (lm_lines lm)"
    "pq_d q 1 \<in> pq_elems q"
proof -
  have q: "lm_victim lm = Some q" "victim.handle q" "pq_part live q (lm_lines lm)" "pq_avail q = n_lines lm + 1"
    using assms(1) by (simp_all add: queue_ok_def)
  obtain q' ls' where i: "pqueue_pop (Some q) (lm_lines lm) = (Some (pq_d q 1), Some q', ls')"
    "victim.part_next q (lm_lines lm) (pq_elems q) (pq_elems q - {pq_d q 1}) (pq_size q - 1) q' ls'"
    using victim.pop_part [OF q(2,3) assms(3)] by blast
  note s = victim_views(2) [OF q(2) i(1)]
  note d = victim.part_nextD [OF i(2)]
  have "marks_ok ls' (pq_elems q - {pq_d q 1}) (insert (pq_d q 1) D)"
    by (rule part_next_marks [OF i(2) s assms(2)]) auto
  moreover have "queue_ok (lm\<lparr>lm_victim := Some q', lm_lines := ls'\<rparr>) q'"
    using d(1,2,4) q(4) strip_length [OF s] by (simp add: queue_ok_def)
  moreover have "pq_d q 1 \<in> pq_elems q" using pq_size_pos [OF assms(1)] assms(3) by (simp add: pq_elems_def)
  ultimately show thesis using that [of q' ls'] i(1) d(3,5) s q(1) by simp
qed

lemma queue_change:
  assumes "queue_ok lm q" "marks_ok (lm_lines lm) (pq_elems q) D" "x \<in> pq_elems q"
  obtains q' ls' where "pqueue_change_priority q (lm_lines lm) p x = (q', ls')"
    "queue_ok (lm\<lparr>lm_victim := Some q', lm_lines := ls'\<rparr>) q'" "marks_ok ls' (pq_elems q) (D - pq_elems q)"
    "pq_elems q' = pq_elems q" "pq_size q' = pq_size q" "strip ls' = strip (victim_line_set_pri x p (lm_lines lm))"
proof -
  have q: "lm_victim lm = Some q" "victim.handle q" "pq_part live q (lm_lines lm)" "pq_avail q = n_lines lm + 1"
    using assms(1) by (simp_all add: queue_ok_def)
  obtain q' ls' where i: "pqueue_change_priority q (lm_lines lm) p x = (q', ls')"
    "victim.part_next q (victim_line_set_pri x p (lm_lines lm)) (pq_elems q) (pq_elems q) (pq_size q) q' ls'"
    using victim.change_priority_part [OF q(2,3) assms(3)] by blast
  note s = victim_views(3) [OF q(2) i(1)]
  note d = victim.part_nextD [OF i(2)]
  have "marks_ok (victim_line_set_pri x p (lm_lines lm)) (pq_elems q) D"
    using assms(2) by (simp add: marks_ok_update victim_line_set_pri_def)
  then have "marks_ok ls' (pq_elems q) (D - pq_elems q)"
    by (rule part_next_marks [OF i(2) s]) auto
  moreover have "queue_ok (lm\<lparr>lm_victim := Some q', lm_lines := ls'\<rparr>) q'"
    using d(1,2,4) q(4) strip_length [OF s] by (simp add: queue_ok_def victim_line_set_pri_def)
  ultimately show thesis using that [of q' ls'] i(1) d(3,5) s q(1) by simp
qed

subsection \<open>The grain counts\<close>

text \<open>\<open>room i\<close> bounds the grains of line \<open>i\<close>; a line of \<open>dirty\<close> has an invalid grain, a line of \<open>clean\<close>
  has no grain at all.\<close>

definition counts_ok :: "line list \<Rightarrow> (nat \<Rightarrow> int) \<Rightarrow> nat set \<Rightarrow> nat set \<Rightarrow> bool" where
  "counts_ok ls room dirty clean \<longleftrightarrow> (\<forall>i<length ls. ln_ipc (ls ! i) = 0 \<and> 0 \<le> ln_vgc (ls ! i) \<and> 0 \<le> ln_igc (ls ! i) \<and>
     ln_vgc (ls ! i) + ln_igc (ls ! i) \<le> room i \<and> (i \<in> dirty \<longrightarrow> 0 < ln_igc (ls ! i)) \<and>
     (i \<in> clean \<longrightarrow> ln_vgc (ls ! i) = 0 \<and> ln_igc (ls ! i) = 0))"

lemma counts_ok_strip:
  assumes "strip ls' = strip ls"
  shows "counts_ok ls' room dirty clean = counts_ok ls room dirty clean"
  using strip_nth [OF assms] strip_length [OF assms] by (simp add: counts_ok_def)

lemma counts_ok_mono:
  assumes "counts_ok ls room dirty clean" "dirty' \<subseteq> dirty" "clean' \<subseteq> clean" "\<And>i. i < length ls \<Longrightarrow> room i \<le> room' i"
  shows "counts_ok ls room' dirty' clean'"
  unfolding counts_ok_def
proof (intro allI impI)
  fix i assume i: "i < length ls"
  show "ln_ipc (ls ! i) = 0 \<and> 0 \<le> ln_vgc (ls ! i) \<and> 0 \<le> ln_igc (ls ! i) \<and>
     ln_vgc (ls ! i) + ln_igc (ls ! i) \<le> room' i \<and> (i \<in> dirty' \<longrightarrow> 0 < ln_igc (ls ! i)) \<and>
     (i \<in> clean' \<longrightarrow> ln_vgc (ls ! i) = 0 \<and> ln_igc (ls ! i) = 0)"
    using assms(1) [unfolded counts_ok_def, rule_format, OF i] assms(2,3) assms(4) [OF i] by auto
qed

lemma counts_ok_dirty: "counts_ok ls room dirty clean \<Longrightarrow> 0 < ln_igc (ls ! x) \<Longrightarrow> counts_ok ls room (insert x dirty) clean"
  by (simp add: counts_ok_def)

text \<open>\<open>lm_ok\<close>: the whole invariant of line management; the lines \<open>held\<close> belong to the collector.\<close>

definition lm_ok :: "(nat \<Rightarrow> int) \<Rightarrow> nat set \<Rightarrow> nat set \<Rightarrow> nat set \<Rightarrow> line_mgmt \<Rightarrow> bool" where
  "lm_ok room held out D lm \<longleftrightarrow> held \<subseteq> out \<and> (\<exists>q. lines_ok lm q out D \<and>
     counts_ok (lm_lines lm) room (pq_elems q \<union> D \<union> held) (set (lm_free lm)))"

lemma lm_okE:
  assumes "lm_ok room held out D lm"
  obtains q where "queue_ok lm q" "marks_ok (lm_lines lm) (pq_elems q) D" "D \<subseteq> out" "held \<subseteq> out"
    "places_ok (n_lines lm) (lm_free lm @ lm_full lm) (pq_elems q) out"
    "lm_free_cnt lm = of_nat (length (lm_free lm))" "lm_full_cnt lm = of_nat (length (lm_full lm))"
    "lm_victim_cnt lm = of_nat (pq_size q - 1 + card D)"
    "counts_ok (lm_lines lm) room (pq_elems q \<union> D \<union> held) (set (lm_free lm))"
  using assms by (auto simp: lm_ok_def lines_ok_def)

lemma lm_ok_insert:
  assumes ok: "lm_ok room held out D lm" and x: "x \<in> out" "x \<notin> held" and igc: "0 < ln_igc (lm_lines lm ! x)"
  obtains q' ls' where "pqueue_insert (lm_victim lm) (lm_lines lm) x = Inr (0, Some q', ls')"
    "lm_ok room held (out - {x}) (D - {x})
       (lm\<lparr>lm_victim := Some q', lm_lines := ls', lm_victim_cnt := lm_victim_cnt lm + (if x \<in> D then 0 else 1)\<rparr>)"
    "strip ls' = strip (lm_lines lm)"
proof -
  obtain q where q: "queue_ok lm q" "marks_ok (lm_lines lm) (pq_elems q) D" "D \<subseteq> out" "held \<subseteq> out"
    "places_ok (n_lines lm) (lm_free lm @ lm_full lm) (pq_elems q) out"
    "lm_free_cnt lm = of_nat (length (lm_free lm))" "lm_full_cnt lm = of_nat (length (lm_full lm))"
    "lm_victim_cnt lm = of_nat (pq_size q - 1 + card D)"
    "counts_ok (lm_lines lm) room (pq_elems q \<union> D \<union> held) (set (lm_free lm))"
    using ok by (rule lm_okE)
  have xl: "x < n_lines lm" "x \<notin> pq_elems q" using q(5) x(1) by (auto simp: places_ok_def)
  obtain q' ls' where i: "pqueue_insert (lm_victim lm) (lm_lines lm) x = Inr (0, Some q', ls')"
    "queue_ok (lm\<lparr>lm_victim := Some q', lm_lines := ls'\<rparr>) q'" "marks_ok ls' (insert x (pq_elems q)) (D - {x})"
    "pq_elems q' = insert x (pq_elems q)" "pq_size q' = Suc (pq_size q)" "strip ls' = strip (lm_lines lm)"
    using q(1,2) xl by (rule queue_insert)
  let ?lm = "lm\<lparr>lm_victim := Some q', lm_lines := ls', lm_victim_cnt := lm_victim_cnt lm + (if x \<in> D then 0 else 1)\<rparr>"
  have fin: "finite D" using q(3) places_finite [OF q(5)] by (rule finite_subset)
  have cnt: "pq_size q' - 1 + card (D - {x}) = pq_size q - 1 + card D + (if x \<in> D then 0 else 1)"
    using i(5) pq_size_pos [OF q(1)] card_Suc_Diff1 [OF fin, of x] by (cases "x \<in> D") auto
  have "places_ok (n_lines ?lm) (lm_free lm @ lm_full lm) (pq_elems q') (out - {x})"
    using q(5) x(1) i(4) strip_length [OF i(6)] by (auto simp: places_ok_def)
  moreover have "queue_ok ?lm q'" using i(2) by (simp add: queue_ok_def)
  moreover have "counts_ok (lm_lines ?lm) room (pq_elems q' \<union> (D - {x}) \<union> held) (set (lm_free ?lm))"
    using counts_ok_dirty [OF q(9) igc] i(4) counts_ok_strip [OF i(6)]
    by (auto intro: counts_ok_mono)
  moreover have "lm_victim_cnt ?lm = of_nat (pq_size q' - 1 + card (D - {x}))"
    unfolding cnt using q(8) by simp
  ultimately have "lm_ok room held (out - {x}) (D - {x}) ?lm"
    using q(3,4,6,7) i(3,4) x(2) unfolding lm_ok_def lines_ok_def by (intro conjI exI [of _ q']) auto
  then show thesis using that i(1,6) by blast
qed

lemma lm_ok_pop:
  assumes ok: "lm_ok room held out D lm" and q: "lm_victim lm = Some q" "pq_size q \<noteq> 1"
  shows "lm_ok room held (insert (pq_d q 1) out) (insert (pq_d q 1) D) (pop_victim lm)"
    "strip (lm_lines (pop_victim lm)) = strip (lm_lines lm)" "pq_d q 1 \<notin> out" "pq_d q 1 < n_lines lm"
proof -
  obtain q2 where "queue_ok lm q2" "marks_ok (lm_lines lm) (pq_elems q2) D" "D \<subseteq> out" "held \<subseteq> out"
    "places_ok (n_lines lm) (lm_free lm @ lm_full lm) (pq_elems q2) out"
    "lm_free_cnt lm = of_nat (length (lm_free lm))" "lm_full_cnt lm = of_nat (length (lm_full lm))"
    "lm_victim_cnt lm = of_nat (pq_size q2 - 1 + card D)"
    "counts_ok (lm_lines lm) room (pq_elems q2 \<union> D \<union> held) (set (lm_free lm))"
    using ok by (rule lm_okE)
  moreover from this(1) have "q2 = q" using q(1) by (simp add: queue_ok_def)
  ultimately have o: "queue_ok lm q" "marks_ok (lm_lines lm) (pq_elems q) D" "D \<subseteq> out" "held \<subseteq> out"
    "places_ok (n_lines lm) (lm_free lm @ lm_full lm) (pq_elems q) out"
    "lm_free_cnt lm = of_nat (length (lm_free lm))" "lm_full_cnt lm = of_nat (length (lm_full lm))"
    "lm_victim_cnt lm = of_nat (pq_size q - 1 + card D)"
    "counts_ok (lm_lines lm) room (pq_elems q \<union> D \<union> held) (set (lm_free lm))" by simp_all
  obtain q' ls' where i: "pqueue_pop (lm_victim lm) (lm_lines lm) = (Some (pq_d q 1), Some q', ls')"
    "queue_ok (lm\<lparr>lm_victim := Some q', lm_lines := ls'\<rparr>) q'"
    "marks_ok ls' (pq_elems q - {pq_d q 1}) (insert (pq_d q 1) D)"
    "pq_elems q' = pq_elems q - {pq_d q 1}" "pq_size q' = pq_size q - 1" "strip ls' = strip (lm_lines lm)"
    "pq_d q 1 \<in> pq_elems q"
    using o(1,2) q(2) by (rule queue_pop)
  have pop: "pop_victim lm = lm\<lparr>lm_victim := Some q', lm_lines := ls'\<rparr>" using i(1) by (simp add: pop_victim_def)
  show "strip (lm_lines (pop_victim lm)) = strip (lm_lines lm)" using i(6) pop by simp
  show out: "pq_d q 1 \<notin> out" "pq_d q 1 < n_lines lm" using i(7) o(5) by (auto simp: places_ok_def)
  have fin: "finite D" "pq_d q 1 \<notin> D" using o(3) out finite_subset [OF o(3) places_finite [OF o(5)]] by auto
  have cnt: "pq_size q' - 1 + card (insert (pq_d q 1) D) = pq_size q - 1 + card D"
    using i(5) pq_size_pos [OF o(1)] q(2) fin by simp
  have "places_ok (length ls') (lm_free lm @ lm_full lm) (pq_elems q') (insert (pq_d q 1) out)"
    using o(5) i(4,7) strip_length [OF i(6)] by (auto simp: places_ok_def)
  moreover have "counts_ok ls' room (pq_elems q' \<union> insert (pq_d q 1) D \<union> held) (set (lm_free lm))"
    unfolding counts_ok_strip [OF i(6)] by (rule counts_ok_mono [OF o(9)]) (use i(4,7) in auto)
  ultimately show "lm_ok room held (insert (pq_d q 1) out) (insert (pq_d q 1) D) (pop_victim lm)"
    using o(3,4,6,7,8) i(2,3,4) cnt unfolding lm_ok_def lines_ok_def pop
    by (intro conjI exI [of _ q']) auto
qed

text \<open>Changing one line's counts.\<close>

lemma lm_ok_places: "lm_ok room held out D lm \<Longrightarrow> out \<inter> set (lm_free lm @ lm_full lm) = {} \<and> out \<subseteq> {..<n_lines lm} \<and>
    distinct (lm_free lm @ lm_full lm) \<and> set (lm_free lm @ lm_full lm) \<subseteq> {..<n_lines lm}"
  by (auto simp: lm_ok_def lines_ok_def places_ok_def)

lemma lm_ok_counts:
  assumes "lm_ok room held out D lm" "i < n_lines lm"
  shows "ln_ipc (lm_lines lm ! i) = 0" "0 \<le> ln_vgc (lm_lines lm ! i)" "0 \<le> ln_igc (lm_lines lm ! i)"
    "ln_vgc (lm_lines lm ! i) + ln_igc (lm_lines lm ! i) \<le> room i" "ln_id (lm_lines lm ! i) = i"
    "i \<in> D \<union> held \<Longrightarrow> 0 < ln_igc (lm_lines lm ! i)"
    "i \<in> set (lm_free lm) \<Longrightarrow> ln_vgc (lm_lines lm ! i) = 0 \<and> ln_igc (lm_lines lm ! i) = 0"
    "ln_pos (lm_lines lm ! i) \<noteq> 0 \<Longrightarrow> i \<notin> D \<Longrightarrow> 0 < ln_igc (lm_lines lm ! i)"
  using assms by (auto simp: lm_ok_def lines_ok_def counts_ok_def marks_ok_def)

lemma lm_ok_room: "lm_ok room held out D lm \<Longrightarrow> (\<And>i. i < n_lines lm \<Longrightarrow> room i \<le> room' i) \<Longrightarrow> lm_ok room' held out D lm"
  unfolding lm_ok_def by (blast intro: counts_ok_mono)

lemma counts_ok_update:
  assumes "counts_ok ls room dirty clean" "ln_ipc y = 0" "0 \<le> ln_vgc y" "0 \<le> ln_igc y" "ln_vgc y + ln_igc y \<le> room' x"
    "ln_igc (ls ! x) \<le> ln_igc y" "x \<notin> clean" "\<And>i. i \<noteq> x \<Longrightarrow> room' i = room i"
  shows "counts_ok (ls[x := y]) room' dirty clean"
  unfolding counts_ok_def length_list_update
proof (intro allI impI)
  fix i assume i: "i < length ls"
  show "ln_ipc (ls[x := y] ! i) = 0 \<and> 0 \<le> ln_vgc (ls[x := y] ! i) \<and> 0 \<le> ln_igc (ls[x := y] ! i) \<and>
     ln_vgc (ls[x := y] ! i) + ln_igc (ls[x := y] ! i) \<le> room' i \<and> (i \<in> dirty \<longrightarrow> 0 < ln_igc (ls[x := y] ! i)) \<and>
     (i \<in> clean \<longrightarrow> ln_vgc (ls[x := y] ! i) = 0 \<and> ln_igc (ls[x := y] ! i) = 0)"
    using assms(1) [unfolded counts_ok_def, rule_format, OF i] assms(2-) i by (cases "i = x") auto
qed

lemma queue_ok_update:
  assumes "queue_ok lm q" "ln_pos y = ln_pos (lm_lines lm ! x)"
  shows "queue_ok (lm\<lparr>lm_lines := (lm_lines lm)[x := y]\<rparr>) q"
proof -
  have "pq_placed q ((lm_lines lm)[x := y]) {1..<pq_size q} = pq_placed q (lm_lines lm) {1..<pq_size q}"
    using assms by (simp add: queue_ok_def pq_placed_def victim_line_get_pos_def nth_update_field [of ln_pos])
  then show ?thesis using assms by (simp add: queue_ok_def pq_part_def pq_shape_def)
qed

lemma lm_ok_set_line:
  assumes ok: "lm_ok room held out D lm" and l: "l < n_lines lm" "l \<notin> set (lm_free lm)"
    and f: "ln_id (f (lm_lines lm ! l)) = l" "ln_pos (f (lm_lines lm ! l)) = ln_pos (lm_lines lm ! l)"
      "ln_ipc (f (lm_lines lm ! l)) = 0" "0 \<le> ln_vgc (f (lm_lines lm ! l))" "ln_igc (lm_lines lm ! l) \<le> ln_igc (f (lm_lines lm ! l))"
      "ln_vgc (f (lm_lines lm ! l)) + ln_igc (f (lm_lines lm ! l)) \<le> room' l" "\<And>i. i \<noteq> l \<Longrightarrow> room' i = room i"
  shows "lm_ok room' held out D (set_line l f lm)"
proof -
  obtain q where q: "lines_ok lm q out D" "counts_ok (lm_lines lm) room (pq_elems q \<union> D \<union> held) (set (lm_free lm))"
    "held \<subseteq> out" using ok by (auto simp: lm_ok_def)
  have "counts_ok (lm_lines (set_line l f lm)) room' (pq_elems q \<union> D \<union> held) (set (lm_free lm))"
    unfolding set_line_def using lm_ok_counts(3) [OF ok l(1)] f l
    by (simp, intro counts_ok_update [OF q(2)]) auto
  moreover have "queue_ok (set_line l f lm) q" "marks_ok (lm_lines (set_line l f lm)) (pq_elems q) D"
    using q(1) f(1,2) lm_ok_counts(5) [OF ok l(1)]
    by (simp_all add: set_line_def lines_ok_def queue_ok_update marks_ok_update)
  ultimately show ?thesis using q(1,3) unfolding lm_ok_def lines_ok_def set_line_def
    by (intro conjI exI [of _ q]) auto
qed

subsection \<open>Lines change their place\<close>

abbreviation line_cap :: "demand_shard \<Rightarrow> int" where
  "line_cap sh \<equiv> int (pgs_per_line (sh_spp sh) * sh_gpp sh)"

lemma retire_ok:
  assumes ok: "lm_ok room held out {} (sh_lm sh)" and x: "x \<in> out" "x \<notin> held" and r: "room x < line_cap sh"
  obtains lm' where "retire_line sh x = Inr (sh\<lparr>sh_lm := lm'\<rparr>)"
    "lm_ok (room(x := line_cap sh)) held (out - {x}) {} lm'" "strip (lm_lines lm') = strip (lm_lines (sh_lm sh))"
    "lm_free lm' = lm_free (sh_lm sh)"
proof -
  let ?lm = "sh_lm sh"
  have xl: "x < n_lines ?lm" using lm_ok_places [OF ok] x(1) by auto
  note c = lm_ok_counts [OF ok xl]
  have ok': "lm_ok (room(x := line_cap sh)) held out {} ?lm" using r by (intro lm_ok_room [OF ok]) simp
  show thesis
  proof (cases "ln_igc (lm_lines ?lm ! x) = 0")
    case True
    let ?lm' = "?lm\<lparr>lm_full := lm_full ?lm @ [x], lm_full_cnt := lm_full_cnt ?lm + 1\<rparr>"
    obtain q where q: "lines_ok ?lm q out {}" "held \<subseteq> out"
      "counts_ok (lm_lines ?lm) (room(x := line_cap sh)) (pq_elems q \<union> {} \<union> held) (set (lm_free ?lm))"
      using ok' by (auto simp: lm_ok_def)
    have "places_ok (n_lines ?lm') (lm_free ?lm' @ lm_full ?lm') (pq_elems q) (out - {x})"
      using q(1) x(1) by (auto simp: lines_ok_def places_ok_def)
    then have "lm_ok (room(x := line_cap sh)) held (out - {x}) {} ?lm'"
      using q x(2) unfolding lm_ok_def lines_ok_def by (intro conjI exI [of _ q]) (auto simp: queue_ok_def)
    moreover have "retire_line sh x = Inr (sh\<lparr>sh_lm := ?lm'\<rparr>)"
      using True c(1) by (simp add: retire_line_def line_of_def Let_def)
    ultimately show thesis by (intro that [of ?lm']) simp_all
  next
    case False
    then have igc: "0 < ln_igc (lm_lines ?lm ! x)" using c(3) by simp
    obtain q' ls' where i: "pqueue_insert (lm_victim ?lm) (lm_lines ?lm) x = Inr (0, Some q', ls')"
      "lm_ok (room(x := line_cap sh)) held (out - {x}) ({} - {x})
         (?lm\<lparr>lm_victim := Some q', lm_lines := ls', lm_victim_cnt := lm_victim_cnt ?lm + (if x \<in> {} then 0 else 1)\<rparr>)"
      "strip ls' = strip (lm_lines ?lm)"
      using ok' x igc by (rule lm_ok_insert)
    let ?lm' = "?lm\<lparr>lm_victim := Some q', lm_lines := ls', lm_victim_cnt := lm_victim_cnt ?lm + 1\<rparr>"
    have "retire_line sh x = Inr (sh\<lparr>sh_lm := ?lm'\<rparr>)"
      using False igc c(2,4) r i(1) by (simp add: retire_line_def line_of_def Let_def)
    then show thesis using i(2,3) by (intro that [of ?lm']) simp_all
  qed
qed

lemma alloc_ok:
  assumes ok: "lm_ok room held out {} (sh_lm sh)" and f: "lm_free (sh_lm sh) = c # rest"
  obtains lm' where "get_next_free_line sh = Inr (c, sh\<lparr>sh_lm := lm'\<rparr>)" "lm_ok (room(c := 0)) held (insert c out) {} lm'"
    "lm_lines lm' = lm_lines (sh_lm sh)" "lm_free lm' = rest" "c \<notin> out" "c < n_lines (sh_lm sh)"
proof -
  let ?lm = "sh_lm sh"
  let ?lm' = "?lm\<lparr>lm_free := rest, lm_free_cnt := lm_free_cnt ?lm - 1\<rparr>"
  obtain q where q: "lines_ok ?lm q out {}" "held \<subseteq> out"
    "counts_ok (lm_lines ?lm) room (pq_elems q \<union> {} \<union> held) (set (lm_free ?lm))" using ok by (auto simp: lm_ok_def)
  have pl: "c \<notin> out" "c < n_lines ?lm" "places_ok (n_lines ?lm') (lm_free ?lm' @ lm_full ?lm') (pq_elems q) (insert c out)"
    using q(1) f by (auto simp: lines_ok_def places_ok_def)
  have c0: "ln_vgc (lm_lines ?lm ! c) = 0 \<and> ln_igc (lm_lines ?lm ! c) = 0"
    using lm_ok_counts(7) [OF ok pl(2)] f by simp
  have "counts_ok (lm_lines ?lm) room (pq_elems q \<union> {} \<union> held) (set rest)"
    by (rule counts_ok_mono [OF q(3)]) (use f in auto)
  then have "counts_ok (lm_lines ?lm) (room(c := 0)) (pq_elems q \<union> {} \<union> held) (set rest)"
    using c0 by (simp add: counts_ok_def)
  then have "lm_ok (room(c := 0)) held (insert c out) {} ?lm'"
    using q pl(3) f unfolding lm_ok_def lines_ok_def by (intro conjI exI [of _ q]) (auto simp: queue_ok_def)
  then show thesis using pl(1,2) f by (intro that [of ?lm']) (simp_all add: get_next_free_line_def)
qed

lemma lm_ok_take_full:
  assumes ok: "lm_ok room held out {} lm" and l: "l \<in> set (lm_full lm)"
  shows "lm_ok room held (insert l out) {} (lm\<lparr>lm_full := removeAll l (lm_full lm), lm_free := removeAll l (lm_free lm),
           lm_full_cnt := lm_full_cnt lm - 1\<rparr>)"
proof -
  let ?lm' = "lm\<lparr>lm_full := removeAll l (lm_full lm), lm_free := removeAll l (lm_free lm), lm_full_cnt := lm_full_cnt lm - 1\<rparr>"
  obtain q where q: "lines_ok lm q out {}" "held \<subseteq> out"
    "counts_ok (lm_lines lm) room (pq_elems q \<union> {} \<union> held) (set (lm_free lm))" using ok by (auto simp: lm_ok_def)
  have d: "distinct (lm_full lm)" "l \<notin> set (lm_free lm)" using q(1) l by (auto simp: lines_ok_def places_ok_def)
  have "distinct (removeAll l (lm_free lm) @ removeAll l (lm_full lm))"
    using q(1) by (auto simp: lines_ok_def places_ok_def distinct_removeAll)
  then have pl: "places_ok (n_lines ?lm') (lm_free ?lm' @ lm_full ?lm') (pq_elems q) (insert l out)"
    using q(1) l d(2) by (auto simp: lines_ok_def places_ok_def)
  have "Suc (length (removeAll l (lm_full lm))) = length (lm_full lm)"
    using d(1) l length_pos_if_in_set [OF l] by (simp add: distinct_remove1_removeAll [symmetric] length_remove1)
  then have "lm_full_cnt ?lm' = of_nat (length (lm_full ?lm'))"
    using q(1) by (simp add: lines_ok_def flip: \<open>Suc _ = _\<close>)
  then show ?thesis
    using q pl d(2) unfolding lm_ok_def lines_ok_def by (intro conjI exI [of _ q]) (auto simp: queue_ok_def)
qed

lemma lm_ok_hold:
  assumes ok: "lm_ok room held out D lm" and v: "v \<in> D" "v \<notin> held"
  defines "lm1 \<equiv> set_line v (\<lambda>l. l\<lparr>ln_pos := 0\<rparr>) lm"
  shows "lm_ok room (insert v held) out (D - {v}) (lm1\<lparr>lm_victim_cnt := lm_victim_cnt lm1 - 1\<rparr>)"
proof -
  obtain q where q: "queue_ok lm q" "marks_ok (lm_lines lm) (pq_elems q) D" "D \<subseteq> out" "held \<subseteq> out"
    "places_ok (n_lines lm) (lm_free lm @ lm_full lm) (pq_elems q) out"
    "lm_free_cnt lm = of_nat (length (lm_free lm))" "lm_full_cnt lm = of_nat (length (lm_full lm))"
    "lm_victim_cnt lm = of_nat (pq_size q - 1 + card D)"
    "counts_ok (lm_lines lm) room (pq_elems q \<union> D \<union> held) (set (lm_free lm))"
    using ok by (rule lm_okE)
  let ?ls = "(lm_lines lm)[v := (lm_lines lm ! v)\<lparr>ln_pos := 0\<rparr>]"
  have vq: "v \<notin> pq_elems q" "v < n_lines lm" using q(3,5) v(1) by (auto simp: places_ok_def)
  have fin: "finite D" using q(3) places_finite [OF q(5)] by (rule finite_subset)
  have s: "strip ?ls = strip (lm_lines lm)" using strip_set_pos [of v 0 "lm_lines lm"] by (simp add: victim_line_set_pos_def)
  have cnt: "counts_ok ?ls room (pq_elems q \<union> (D - {v}) \<union> insert v held) (set (lm_free lm))"
    unfolding counts_ok_strip [OF s] by (rule counts_ok_mono [OF q(9)]) (use v(1) in auto)
  have "?ls ! pq_d q k = lm_lines lm ! pq_d q k" if "k \<in> {1..<pq_size q}" for k
    using vq(1) that by (cases "pq_d q k = v") (auto simp: pq_elems_def)
  then have "pq_placed q ?ls {1..<pq_size q}"
    using q(1) by (auto simp: queue_ok_def pq_part_def pq_placed_def victim_line_get_pos_def)
  then have qo: "queue_ok (lm1\<lparr>lm_victim_cnt := n\<rparr>) q" for n
    using q(1) by (auto simp: queue_ok_def pq_part_def pq_shape_def lm1_def set_line_def)
  have "marks_ok ?ls (pq_elems q) (D - {v})"
    unfolding marks_ok_def length_list_update
  proof (intro allI impI)
    fix i assume "i < n_lines lm"
    then show "ln_id (?ls ! i) = i \<and> (i \<notin> D - {v} \<longrightarrow> (ln_pos (?ls ! i) \<noteq> 0) = (i \<in> pq_elems q))"
      using q(2) vq by (cases "i = v") (auto simp: marks_ok_def)
  qed
  moreover have "card D = Suc (card (D - {v}))" using card_Suc_Diff1 [OF fin v(1)] by simp
  ultimately show ?thesis
    using q(3-8) qo cnt v(1) unfolding lm_ok_def lines_ok_def lm1_def set_line_def
    by (intro conjI exI [of _ q]) auto
qed

lemma lm_ok_free:
  assumes ok: "lm_ok room held out {} lm" and v: "v \<in> held"
  defines "lm1 \<equiv> set_line v (\<lambda>x. x\<lparr>ln_ipc := 0, ln_vpc := 0, ln_igc := 0, ln_vgc := 0\<rparr>) lm"
  shows "lm_ok (room(v := 0)) (held - {v}) (out - {v}) {}
     (lm1\<lparr>lm_free := lm_free lm1 @ [v], lm_free_cnt := lm_free_cnt lm1 + 1\<rparr>)"
proof -
  obtain q where q: "queue_ok lm q" "marks_ok (lm_lines lm) (pq_elems q) {}" "{} \<subseteq> out" "held \<subseteq> out"
    "places_ok (n_lines lm) (lm_free lm @ lm_full lm) (pq_elems q) out"
    "lm_free_cnt lm = of_nat (length (lm_free lm))" "lm_full_cnt lm = of_nat (length (lm_full lm))"
    "lm_victim_cnt lm = of_nat (pq_size q - 1 + card ({} :: nat set))"
    "counts_ok (lm_lines lm) room (pq_elems q \<union> {} \<union> held) (set (lm_free lm))"
    using ok by (rule lm_okE)
  let ?y = "(lm_lines lm ! v)\<lparr>ln_ipc := 0, ln_vpc := 0, ln_igc := 0, ln_vgc := 0\<rparr>"
  have vq: "v \<notin> pq_elems q" "v < n_lines lm" "v \<in> out" using q(4,5) v by (auto simp: places_ok_def)
  have "counts_ok ((lm_lines lm)[v := ?y]) (room(v := 0)) (pq_elems q \<union> {} \<union> (held - {v})) (set (lm_free lm @ [v]))"
    unfolding counts_ok_def length_list_update
  proof (intro allI impI)
    fix i assume i: "i < n_lines lm"
    let ?l = "(lm_lines lm)[v := ?y] ! i"
    show "ln_ipc ?l = 0 \<and> 0 \<le> ln_vgc ?l \<and> 0 \<le> ln_igc ?l \<and> ln_vgc ?l + ln_igc ?l \<le> (room(v := 0)) i \<and>
        (i \<in> pq_elems q \<union> {} \<union> (held - {v}) \<longrightarrow> 0 < ln_igc ?l) \<and> (i \<in> set (lm_free lm @ [v]) \<longrightarrow> ln_vgc ?l = 0 \<and> ln_igc ?l = 0)"
      using q(9) [unfolded counts_ok_def, rule_format, OF i] vq by (cases "i = v") auto
  qed
  moreover have "queue_ok lm1 q" "marks_ok (lm_lines lm1) (pq_elems q) {}"
    using q(1,2) by (simp_all add: lm1_def set_line_def queue_ok_update marks_ok_update)
  moreover have "places_ok (n_lines lm) ((lm_free lm @ [v]) @ lm_full lm) (pq_elems q) (out - {v})"
    using q(5) vq by (auto simp: places_ok_def)
  ultimately show ?thesis
    using q(4,6-8) unfolding lm_ok_def lines_ok_def lm1_def set_line_def
    by (intro conjI exI [of _ q]) (auto simp: queue_ok_def)
qed

subsection \<open>Grains are invalidated\<close>

lemma set_line_twice: "l < n_lines lm \<Longrightarrow> set_line l f (set_line l g lm) = set_line l (\<lambda>x. f (g x)) lm"
  by (simp add: set_line_def)

lemma set_line_simps [simp]:
  "n_lines (set_line l f lm) = n_lines lm" "lm_free (set_line l f lm) = lm_free lm" "lm_full (set_line l f lm) = lm_full lm"
  "lm_victim (set_line l f lm) = lm_victim lm" "l < n_lines lm \<Longrightarrow> lm_lines (set_line l f lm) ! l = f (lm_lines lm ! l)"
  by (simp_all add: set_line_def)

text \<open>The new priority of a queued line, computed in 32 bits and stored as an int.\<close>

lemma lowered_priority:
  assumes "0 \<le> v" "v < 2 ^ 31" "len \<le> 64"
  shows "sint (ucast (ucast (word_of_int v - of_nat len :: u32) :: u64) :: u32) = v - int len"
proof -
  have "ucast (ucast w :: u64) = w" for w :: u32
    by (rule bit_word_eqI) (auto simp: bit_simps)
  moreover have "word_of_int v - of_nat len = (word_of_int (v - int len) :: u32)" by simp
  moreover have "sint (word_of_int (v - int len) :: u32) = v - int len"
    using assms by (intro sint_of_int_small) auto
  ultimately show ?thesis by metis
qed

text \<open>The raised priority of an emptied part: \<open>igc\<close> grows by \<open>len\<close>, \<open>vgc\<close> shrinks by it.\<close>

abbreviation shift_grains :: "nat \<Rightarrow> line \<Rightarrow> line" where
  "shift_grains len \<equiv> (\<lambda>x. x\<lparr>ln_igc := ln_igc x + int len, ln_vgc := ln_vgc x - int len\<rparr>)"

lemma lm_ok_shift:
  assumes ok: "lm_ok room held out {} lm" and l: "l < n_lines lm" "l \<notin> set (lm_free lm)" "int len \<le> ln_vgc (lm_lines lm ! l)"
  shows "lm_ok room held out {} (set_line l (shift_grains len) lm)"
  using lm_ok_counts [OF ok l(1)] l by (intro lm_ok_set_line [OF ok]) auto

lemma lower_queued:
  assumes ok: "lm_ok room held out {} lm" and l: "l < n_lines lm" "ln_pos (lm_lines lm ! l) \<noteq> 0"
    and v: "ln_vgc (lm_lines lm ! l) < 2 ^ 31" "len \<le> 64"
  obtains lm' where "lower_line (set_line l (\<lambda>x. x\<lparr>ln_igc := ln_igc x + int len\<rparr>) lm) l len = Inr lm'"
    "int len \<le> ln_vgc (lm_lines lm ! l) \<longrightarrow> lm_ok room held out {} lm'"
    "strip (lm_lines lm') = strip (lm_lines (set_line l (shift_grains len) lm))"
proof -
  let ?lm0 = "set_line l (\<lambda>x. x\<lparr>ln_igc := ln_igc x + int len\<rparr>) lm"
  let ?lm1 = "set_line l (shift_grains len) lm"
  let ?p = "ucast (word_of_int (ln_vgc (lm_lines lm ! l)) - of_nat len :: u32) :: u64"
  obtain q where q: "queue_ok lm q" "marks_ok (lm_lines lm) (pq_elems q) {}" "{} \<subseteq> out" "held \<subseteq> out"
    "places_ok (n_lines lm) (lm_free lm @ lm_full lm) (pq_elems q) out"
    "lm_free_cnt lm = of_nat (length (lm_free lm))" "lm_full_cnt lm = of_nat (length (lm_full lm))"
    "lm_victim_cnt lm = of_nat (pq_size q - 1 + card ({} :: nat set))"
    "counts_ok (lm_lines lm) room (pq_elems q \<union> {} \<union> held) (set (lm_free lm))"
    using ok by (rule lm_okE)
  have lq: "l \<in> pq_elems q" using q(2) l by (simp add: marks_ok_def)
  then have lf: "l \<notin> set (lm_free lm)" using q(5) by (auto simp: places_ok_def)
  have q1: "lm_victim ?lm1 = Some q" using q(1) by (simp add: queue_ok_def)
  have "queue_ok ?lm0 q" "marks_ok (lm_lines ?lm0) (pq_elems q) {}"
    using q(1,2) by (simp_all add: set_line_def queue_ok_update marks_ok_update)
  then obtain q' ls' where i: "pqueue_change_priority q (lm_lines ?lm0) ?p l = (q', ls')"
    "queue_ok (?lm0\<lparr>lm_victim := Some q', lm_lines := ls'\<rparr>) q'" "marks_ok ls' (pq_elems q) ({} - pq_elems q)"
    "pq_elems q' = pq_elems q" "pq_size q' = pq_size q" "strip ls' = strip (victim_line_set_pri l ?p (lm_lines ?lm0))"
    using lq by (rule queue_change)
  have sp: "victim_line_set_pri l ?p (lm_lines ?lm0) = lm_lines ?lm1"
    using lowered_priority [of "ln_vgc (lm_lines lm ! l)" len] v l(1) lm_ok_counts(2) [OF ok l(1)]
    by (simp add: victim_line_set_pri_def set_line_def)
  let ?lm' = "?lm0\<lparr>lm_victim := Some q', lm_lines := ls'\<rparr>"
  have "lower_line ?lm0 l len = Inr ?lm'"
    using i(1) l q(1) by (simp add: lower_line_def Let_def queue_ok_def)
  moreover have "lm_ok room held out {} ?lm'" if "int len \<le> ln_vgc (lm_lines lm ! l)"
  proof -
    have "lm_ok room held out {} ?lm1" using ok l(1) lf that by (rule lm_ok_shift)
    then obtain q3 where q3: "lines_ok ?lm1 q3 out {}"
      "counts_ok (lm_lines ?lm1) room (pq_elems q3 \<union> {} \<union> held) (set (lm_free ?lm1))" by (auto simp: lm_ok_def)
    then have "q3 = q" using q1 by (simp add: lines_ok_def queue_ok_def)
    then have "counts_ok ls' room (pq_elems q' \<union> {} \<union> held) (set (lm_free lm))"
      using q3(2) i(4,6) counts_ok_strip [of ls' "lm_lines ?lm1"] sp by simp
    moreover have "length ls' = n_lines lm" using strip_length [OF i(6)] by (simp add: victim_line_set_pri_def)
    ultimately show ?thesis
      using q(4-8) i(2-5) unfolding lm_ok_def lines_ok_def by (intro conjI exI [of _ q']) (auto simp: set_line_def)
  qed
  ultimately show thesis using that [of ?lm'] i(6) sp by simp
qed

text \<open>The hypotheses of the next lemmas say how \<open>room\<close> is used: no line holds more than \<open>cap\<close> grains, and a
  line under a write pointer holds fewer.\<close>

definition room_ok :: "(nat \<Rightarrow> int) \<Rightarrow> nat set \<Rightarrow> int \<Rightarrow> bool" where
  "room_ok room cur cap \<longleftrightarrow> 0 < cap \<and> cap < 2 ^ 31 \<and> (\<forall>i. room i \<le> cap) \<and> (\<forall>i\<in>cur. room i < cap)"

lemma full_line_listed:
  assumes ok: "lm_ok room held out {} lm" and r: "room_ok room (out - held) cap" and l: "l < n_lines lm"
    and v: "cap \<le> ln_vgc (lm_lines lm ! l)"
  shows "l \<in> set (lm_full lm)"
proof -
  obtain q where q: "lines_ok lm q out {}" "counts_ok (lm_lines lm) room (pq_elems q \<union> {} \<union> held) (set (lm_free lm))"
    using ok by (auto simp: lm_ok_def)
  note c = lm_ok_counts [OF ok l]
  have b: "0 < cap" "room l \<le> cap" "l \<in> out - held \<Longrightarrow> room l < cap" using r by (auto simp: room_ok_def)
  have igc: "ln_igc (lm_lines lm ! l) = 0" "\<not> room l < cap" using c v b by auto
  have "l \<notin> pq_elems q \<union> held" using q(2) l igc(1) by (auto simp: counts_ok_def)
  moreover have "l \<notin> out - held" using b igc by auto
  moreover have "l \<notin> set (lm_free lm)" using c(7) v b(1) by auto
  moreover have "l \<in> set (lm_free lm @ lm_full lm) \<union> pq_elems q \<union> out" using q(1) l by (simp add: lines_ok_def places_ok_def)
  ultimately show ?thesis by auto
qed

lemma drop_ok:
  assumes ok: "lm_ok room held out {} lm" and r: "room_ok room (out - held) cap" and l: "l < n_lines lm" "0 < len" "len \<le> 64" "int len \<le> cap"
    and low: "lower_line (set_line l (\<lambda>x. x\<lparr>ln_igc := ln_igc x + int len\<rparr>) lm) l len = Inr lm1"
    and mv: "(if cap \<le> ln_vgc (lm_lines lm ! l) then full_to_victim lm1 l else Inr lm1) = Inr lm2"
    and v: "0 \<le> ln_vgc (lm_lines lm2 ! l)"
  shows "lm_ok room held out {} lm2 \<and> strip (lm_lines lm2) = strip (lm_lines (set_line l (shift_grains len) lm))"
proof -
  let ?l = "lm_lines lm ! l"
  note c = lm_ok_counts [OF ok l(1)]
  have cap: "0 < cap" "cap < 2 ^ 31" "room l \<le> cap" using r by (simp_all add: room_ok_def)
  then have vl: "ln_vgc ?l < 2 ^ 31" using c(3,4) by linarith
  have shifted: "ln_vgc (lm_lines (set_line l (shift_grains len) lm) ! l) = ln_vgc ?l - int len" using l(1) by simp
  show ?thesis
  proof (cases "ln_pos ?l = 0")
    case False
    obtain lm' where lm': "lower_line (set_line l (\<lambda>x. x\<lparr>ln_igc := ln_igc x + int len\<rparr>) lm) l len = Inr lm'"
      "int len \<le> ln_vgc ?l \<longrightarrow> lm_ok room held out {} lm'"
      "strip (lm_lines lm') = strip (lm_lines (set_line l (shift_grains len) lm))"
      using ok l(1) False vl l(3) by (rule lower_queued)
    have "\<not> cap \<le> ln_vgc ?l" using c(4,8) False cap(3) by auto
    then have "lm2 = lm'" using low mv lm'(1) by simp
    then have "ln_vgc (lm_lines lm2 ! l) = ln_vgc ?l - int len"
      using strip_nth(3) [OF lm'(3)] strip_length [OF lm'(3)] l(1) shifted by simp
    then show ?thesis using v lm'(2,3) \<open>lm2 = lm'\<close> by simp
  next
    case True
    have lm1: "lm1 = set_line l (shift_grains len) lm"
      using low True l(1) by (simp add: lower_line_def Let_def set_line_twice)
    have okl: "lm_ok room held out {} lm1" if "int len \<le> ln_vgc ?l"
      unfolding lm1 using ok l(1) _ that by (rule lm_ok_shift) (use c(7) that l(2) in auto)
    show ?thesis
    proof (cases "cap \<le> ln_vgc ?l")
      case full: True
      then have lf: "l \<in> set (lm_full lm1)" using full_line_listed [OF ok r l(1)] lm1 by simp
      have vlen: "int len \<le> ln_vgc ?l" using full l(4) by simp
      let ?lm = "lm1\<lparr>lm_full := removeAll l (lm_full lm1), lm_free := removeAll l (lm_free lm1),
          lm_full_cnt := lm_full_cnt lm1 - 1\<rparr>"
      have okt: "lm_ok room held (insert l out) {} ?lm" using okl [OF vlen] lf by (rule lm_ok_take_full)
      have lo: "l \<notin> out" "held \<subseteq> out" using lm_ok_places [OF okl [OF vlen]] lf okl [OF vlen] by (auto simp: lm_ok_def)
      have igc: "0 < ln_igc (lm_lines ?lm ! l)" using c(3) l(1,2) by (simp add: lm1)
      obtain q' ls' where i: "pqueue_insert (lm_victim ?lm) (lm_lines ?lm) l = Inr (0, Some q', ls')"
        "lm_ok room held (insert l out - {l}) ({} - {l})
           (?lm\<lparr>lm_victim := Some q', lm_lines := ls', lm_victim_cnt := lm_victim_cnt ?lm + (if l \<in> {} then 0 else 1)\<rparr>)"
        "strip ls' = strip (lm_lines ?lm)"
        using okt _ _ igc by (rule lm_ok_insert) (use lo in auto)
      have "lm2 = ?lm\<lparr>lm_victim := Some q', lm_lines := ls', lm_victim_cnt := lm_victim_cnt ?lm + 1\<rparr>"
        using mv full i(1) by (simp add: full_to_victim_def Let_def)
      moreover have "insert l out - {l} = out" using lo by auto
      moreover have "strip ls' = strip (lm_lines (set_line l (shift_grains len) lm))" using i(3) unfolding lm1 by simp
      ultimately show ?thesis using i(2) by simp
    next
      case False
      then have "lm2 = lm1" using mv by simp
      then show ?thesis using okl v shifted lm1 by simp
    qed
  qed
qed

subsection \<open>A victim is chosen\<close>

lemma put_back_ok:
  assumes ok: "lm_ok room held (out \<union> set_option d) (set_option d) lm" and d: "set_option d \<inter> out = {}" "held \<subseteq> out"
  obtains lm' where "put_back lm d = Inr lm'" "lm_ok room held out {} lm'" "strip (lm_lines lm') = strip (lm_lines lm)"
proof (cases d)
  case None
  then show thesis using ok that by (simp add: put_back_def)
next
  case (Some x)
  have "x < n_lines lm" using lm_ok_places [OF ok] Some by auto
  then have igc: "0 < ln_igc (lm_lines lm ! x)" using lm_ok_counts(6) [OF ok] Some by simp
  obtain q' ls' where i: "pqueue_insert (lm_victim lm) (lm_lines lm) x = Inr (0, Some q', ls')"
    "lm_ok room held (out \<union> set_option d - {x}) (set_option d - {x})
       (lm\<lparr>lm_victim := Some q', lm_lines := ls', lm_victim_cnt := lm_victim_cnt lm + (if x \<in> set_option d then 0 else 1)\<rparr>)"
    "strip ls' = strip (lm_lines lm)"
    using ok _ _ igc by (rule lm_ok_insert) (use d Some in auto)
  have "out \<union> set_option d - {x} = out" using d Some by auto
  then show thesis using that [of "lm\<lparr>lm_victim := Some q', lm_lines := ls'\<rparr>"] i Some by (simp add: put_back_def)
qed

lemma select_loop_ok:
  assumes "lm_ok room held (out \<union> set_option d) (set_option d) lm" "set_option d \<inter> out = {}" "held \<subseteq> out" "set_option d \<subseteq> {busy}"
  shows "\<exists>v lm'. select_loop lm busy d = Inr (v, lm') \<and>
    lm_ok room (held \<union> set_option v) (out \<union> set_option v) {} lm' \<and> set_option v \<inter> (insert busy out) = {} \<and>
    n_lines lm' = n_lines lm"
  using assms
proof (induction lm busy d rule: select_loop.induct)
  case (1 lm busy d)
  obtain q where q: "queue_ok lm q" "lines_ok lm q (out \<union> set_option d) (set_option d)"
    using "1.prems"(1) by (auto simp: lm_ok_def lines_ok_def)
  then have v: "lm_victim lm = Some q" "pq_size q \<noteq> 0" using pq_size_pos [OF q(1)] by (auto simp: queue_ok_def)
  show ?case
  proof (cases "pq_size q = 1")
    case True
    obtain lm' where lm': "put_back lm d = Inr lm'" "lm_ok room held out {} lm'" "strip (lm_lines lm') = strip (lm_lines lm)"
      using "1.prems"(1-3) by (rule put_back_ok)
    then show ?thesis using True v strip_length [OF lm'(3)] by (simp add: select_loop.simps [of lm] pqueue_peek_def)
  next
    case False
    let ?v = "pq_d q 1"
    note pop = lm_ok_pop [OF "1.prems"(1) v(1) False]
    have id: "ln_id (lm_lines lm ! ?v) = ?v" using lm_ok_counts(5) [OF "1.prems"(1) pop(4)] .
    show ?thesis
    proof (cases "?v = busy")
      case True
      have d: "d = None" using pop(3) True "1.prems"(4) by (cases d) auto
      have "\<exists>v lm'. select_loop (pop_victim lm) busy (Some ?v) = Inr (v, lm') \<and>
          lm_ok room (held \<union> set_option v) (out \<union> set_option v) {} lm' \<and> set_option v \<inter> (insert busy out) = {} \<and>
          n_lines lm' = n_lines (pop_victim lm)"
        using v False id True pop(1,3) d "1.prems"(3)
        by (intro "1.IH") (auto simp: pqueue_peek_def)
      then show ?thesis
        using v False id True d strip_length [OF pop(2)] by (simp add: select_loop.simps [of lm] pqueue_peek_def)
    next
      case nb: False
      have vh: "?v \<notin> held" using pop(3) "1.prems"(3) by auto
      let ?lm1 = "set_line ?v (\<lambda>l. l\<lparr>ln_pos := 0\<rparr>) (pop_victim lm)"
      let ?lm2 = "?lm1\<lparr>lm_victim_cnt := lm_victim_cnt ?lm1 - 1\<rparr>"
      have "lm_ok room (insert ?v held) (insert ?v (out \<union> set_option d)) (insert ?v (set_option d) - {?v}) ?lm2"
        using pop(1) _ vh by (rule lm_ok_hold) simp
      moreover have "insert ?v (set_option d) - {?v} = set_option d" using pop(3) by auto
      ultimately have ok2: "lm_ok room (insert ?v held) (insert ?v out \<union> set_option d) (set_option d) ?lm2" by simp
      obtain lm' where "put_back ?lm2 d = Inr lm'" "lm_ok room (insert ?v held) (insert ?v out) {} lm'"
        "strip (lm_lines lm') = strip (lm_lines ?lm2)"
        using ok2 by (rule put_back_ok) (use "1.prems"(2,3) pop(3) in auto)
      then show ?thesis
        using v False id nb pop(3) strip_length [of "lm_lines lm'"] strip_length [OF pop(2)]
        by (simp add: select_loop.simps [of lm] pqueue_peek_def Let_def)
    qed
  qed
qed

end
