(* ===== verification/FtlShard.thy ===== *)
theory FtlShard
  imports FtlInv
begin

text \<open>
  The invariant of a shard: the four write pointers and the collector hold distinct lines, every write
  pointer stands at a page of its line, and line management is consistent.
\<close>

subsection \<open>The write pointer is an odometer\<close>

definition wp_digits :: "ssdparams \<Rightarrow> write_pointer \<Rightarrow> nat \<times> nat \<times> nat \<times> nat" where
  "wp_digits spp w = (wp_pg w div pgs_per_oneshotpg spp, wp_lun w, wp_ch w, wp_pg w mod pgs_per_oneshotpg spp)"

definition wp_ok :: "ssdparams \<Rightarrow> write_pointer \<Rightarrow> bool" where
  "wp_ok spp w \<longleftrightarrow> digits_ok spp (wp_digits spp w) \<and> wp_pl w = 0 \<and> wp_blk w = wp_curline w"

lemma step_wp_odometer:
  assumes "geom_ok spp" "wp_ok spp w"
  shows "odometer spp (wp_digits spp w) = Some e \<Longrightarrow> \<exists>w'. step_wp spp w = Inr (w', False) \<and> wp_digits spp w' = e \<and>
      wp_curline w' = wp_curline w \<and> wp_blk w' = wp_blk w \<and> wp_pl w' = wp_pl w"
    "odometer spp (wp_digits spp w) = None \<Longrightarrow> step_wp spp w = Inr (w\<lparr>wp_pg := 0, wp_ch := 0, wp_lun := 0\<rparr>, True)"
proof -
  let ?os = "pgs_per_oneshotpg spp"
  define a r where "a = wp_pg w div ?os" and "r = wp_pg w mod ?os"
  have pg: "wp_pg w = a * ?os + r" by (simp add: a_def r_def)
  have b: "a < oneshotpgs_per_blk spp" "wp_lun w < luns_per_ch spp" "wp_ch w < nchs spp" "r < ?os"
    using assms(2) by (simp_all add: wp_ok_def digits_ok_def wp_digits_def a_def r_def)
  have d: "wp_digits spp w = (a, wp_lun w, wp_ch w, r)" by (simp add: wp_digits_def a_def r_def)
  note g = geom_bounds [OF assms(1)]
  have lt: "wp_pg w < pgs_per_blk spp" using radix_bound [OF b(1,4)] g(11) pg by (simp add: mult.commute)
  have dm: "(a * ?os + Suc r) div ?os = a" "(a * ?os + Suc r) mod ?os = Suc r" if "Suc r < ?os"
    using radix_div [OF that, of a] by simp_all
  have top: "Suc a * ?os = pgs_per_blk spp \<longleftrightarrow> Suc a = oneshotpgs_per_blk spp"
    using g(1,11) by (metis mult.commute mult_cancel2 less_numeral_extra(3))
  define n where "n = Suc a * ?os"
  have n: "n mod ?os = 0" "n div ?os = Suc a" "n - ?os = a * ?os" "a * ?os + ?os = n"
    "n = pgs_per_blk spp \<longleftrightarrow> Suc a = oneshotpgs_per_blk spp" "a * ?os div ?os = a" "a * ?os mod ?os = 0"
    using g(1) top by (simp_all add: n_def)
  have step: "step_wp spp w =
      (if Suc (wp_ch w) \<noteq> nchs spp then Inr (w\<lparr>wp_pg := a * ?os, wp_ch := Suc (wp_ch w)\<rparr>, False)
       else if Suc (wp_lun w) \<noteq> luns_per_ch spp then Inr (w\<lparr>wp_pg := a * ?os, wp_ch := 0, wp_lun := Suc (wp_lun w)\<rparr>, False)
       else if Suc a \<noteq> oneshotpgs_per_blk spp then Inr (w\<lparr>wp_pg := n, wp_ch := 0, wp_lun := 0\<rparr>, False)
       else Inr (w\<lparr>wp_pg := 0, wp_ch := 0, wp_lun := 0\<rparr>, True))" if "\<not> Suc r < ?os"
  proof -
    have "Suc (wp_pg w) = n" using that b(4) pg by (simp add: n_def)
    then show ?thesis using n(1,3,4,5) lt b(2,3) g(1) by (simp add: step_wp_def Let_def check_addr_def)
  qed
  show "\<exists>w'. step_wp spp w = Inr (w', False) \<and> wp_digits spp w' = e \<and>
      wp_curline w' = wp_curline w \<and> wp_blk w' = wp_blk w \<and> wp_pl w' = wp_pl w"
    if e: "odometer spp (wp_digits spp w) = Some e"
  proof (cases "Suc r < ?os")
    case True
    then show ?thesis using e b g(1) lt dm pg
      by (simp add: step_wp_def odometer_def d Let_def check_addr_def) (simp add: wp_digits_def)
  next
    case False
    note e1 = e [unfolded d odometer_def prod.case]
    consider "Suc (wp_ch w) \<noteq> nchs spp" | "Suc (wp_ch w) = nchs spp" "Suc (wp_lun w) \<noteq> luns_per_ch spp"
      | "Suc (wp_ch w) = nchs spp" "Suc (wp_lun w) = luns_per_ch spp" by blast
    then show ?thesis
      by cases (use e1 False b step [OF False] n in \<open>simp_all add: wp_digits_def split: if_splits\<close>)
  qed
  show "step_wp spp w = Inr (w\<lparr>wp_pg := 0, wp_ch := 0, wp_lun := 0\<rparr>, True)"
    if e: "odometer spp (wp_digits spp w) = None"
  proof -
    have "\<not> Suc r < ?os" "Suc (wp_ch w) = nchs spp" "Suc (wp_lun w) = luns_per_ch spp" "Suc a = oneshotpgs_per_blk spp"
      using e b by (auto simp: odometer_def d split: if_splits)
    then show ?thesis using step by simp
  qed
qed

text \<open>The page a write pointer hands out is the one its digits name.\<close>

lemma get_new_page_at:
  assumes "addr_ok (sh_spp sh)" "get_wp sh io = Inr w" "wp_ok (sh_spp sh) w" "wp_curline w < blks_per_pl (sh_spp sh)"
  shows "get_new_page sh io = Inr (page_at (sh_spp sh) (wp_curline w) (wp_digits (sh_spp sh) w))"
proof -
  note g = geom_bounds [OF addr_okD(1) [OF assms(1)]]
  let ?os = "pgs_per_oneshotpg (sh_spp sh)"
  have w: "wp_pg w div ?os < oneshotpgs_per_blk (sh_spp sh)" "wp_lun w < luns_per_ch (sh_spp sh)"
    "wp_ch w < nchs (sh_spp sh)" "wp_pg w mod ?os < ?os" "wp_pl w = 0" "wp_blk w = wp_curline w"
    using assms(3) by (auto simp: wp_ok_def digits_ok_def wp_digits_def)
  have "wp_pg w = (wp_pg w div ?os) * ?os + wp_pg w mod ?os" by simp
  then have "wp_pg w < pgs_per_blk (sh_spp sh)" using radix_bound [OF w(1,4)] g(11) by (simp add: mult.commute)
  then have "wp_pg w < 65536" "wp_curline w < 65536" "wp_ch w < 256" "wp_lun w < 256"
    using w g addr_okD(2) [OF assms(1)] assms(4) by linarith+
  then show ?thesis using assms(2) w by (simp add: get_new_page_def mk_ppa_def Let_def page_at_def wp_digits_def)
qed

subsection \<open>The invariant\<close>

definition wps :: "demand_shard \<Rightarrow> write_pointer list" where
  "wps sh = [sh_wp sh, sh_map_wp sh, sh_gc_wp sh, sh_map_gc_wp sh]"

definition wp_index :: "io_type \<Rightarrow> nat" where
  "wp_index io = (case io of USER_IO \<Rightarrow> 0 | MAP_IO \<Rightarrow> 1 | GC_IO \<Rightarrow> 2 | GC_MAP_IO \<Rightarrow> 3 | IO_other _ \<Rightarrow> 4)"

abbreviation cur_lines :: "demand_shard \<Rightarrow> nat list" where
  "cur_lines sh \<equiv> map wp_curline (wps sh)"

text \<open>\<open>room_of sh i\<close>: the grains of the pages handed out from line \<open>i\<close>.\<close>

definition room_of :: "demand_shard \<Rightarrow> nat \<Rightarrow> int" where
  "room_of sh i = (case find (\<lambda>w. wp_curline w = i) (wps sh) of None \<Rightarrow> line_cap sh
     | Some w \<Rightarrow> int (line_rank (sh_spp sh) (wp_digits (sh_spp sh) w) * sh_gpp sh))"

definition shard_ok :: "demand_shard \<Rightarrow> nat set \<Rightarrow> bool" where
  "shard_ok sh held \<longleftrightarrow> addr_ok (sh_spp sh) \<and> line_cap sh < 2 ^ 31 \<and> n_lines (sh_lm sh) = blks_per_pl (sh_spp sh) \<and>
     distinct (cur_lines sh) \<and> set (cur_lines sh) \<inter> held = {} \<and> (\<forall>w\<in>set (wps sh). wp_ok (sh_spp sh) w) \<and>
     \<not> v_spin sh \<and> \<not> inv_spin sh \<and> \<not> lm_spin sh \<and>
     lm_ok (room_of sh) held (set (cur_lines sh) \<union> held) {} (sh_lm sh)"

lemma get_wp_nth: "get_wp sh io = Inr w \<longleftrightarrow> wp_index io < length (wps sh) \<and> wps sh ! wp_index io = w"
  by (cases io) (auto simp: get_wp_def wps_def wp_index_def)

lemma set_wp_wps: "wps (set_wp io w sh) = (wps sh)[wp_index io := w]"
  by (cases io) (auto simp: set_wp_def wps_def wp_index_def)

lemma set_wp_same [simp]:
  "sh_lm (set_wp io w sh) = sh_lm sh" "sh_ssd (set_wp io w sh) = sh_ssd sh" "sh_build (set_wp io w sh) = sh_build sh"
  "v_spin (set_wp io w sh) = v_spin sh" "inv_spin (set_wp io w sh) = inv_spin sh" "lm_spin (set_wp io w sh) = lm_spin sh"
  "map_spin (set_wp io w sh) = map_spin sh"
  by (cases io; simp add: set_wp_def)+

lemma count_page_same [simp]:
  "sh_lm (count_page io sh) = sh_lm sh" "sh_ssd (count_page io sh) = sh_ssd sh" "sh_build (count_page io sh) = sh_build sh"
  "v_spin (count_page io sh) = v_spin sh" "inv_spin (count_page io sh) = inv_spin sh" "lm_spin (count_page io sh) = lm_spin sh"
  "map_spin (count_page io sh) = map_spin sh" "wps (count_page io sh) = wps sh"
  by (cases io; simp add: count_page_def wps_def)+

lemma wps_upd [simp]: "wps (sh\<lparr>sh_lm := lm\<rparr>) = wps sh" "wps (sh\<lparr>sh_ssd := s\<rparr>) = wps sh" "wps (sh\<lparr>lm_spin := b\<rparr>) = wps sh"
  "wps (sh\<lparr>map_spin := b\<rparr>) = wps sh" "wps (sh\<lparr>v_spin := b\<rparr>) = wps sh" "wps (sh\<lparr>inv_spin := b\<rparr>) = wps sh"
  "wps (sh\<lparr>sh_grain_bitmap := f\<rparr>) = wps sh" "wps (sh\<lparr>sh_pg_inv_cnt := g\<rparr>) = wps sh" "wps (sh\<lparr>sh_oob := h\<rparr>) = wps sh"
  by (simp_all add: wps_def)

lemma room_of_cur:
  assumes "distinct (cur_lines sh)" "w \<in> set (wps sh)"
  shows "room_of sh (wp_curline w) = int (line_rank (sh_spp sh) (wp_digits (sh_spp sh) w) * sh_gpp sh)"
proof -
  obtain w' where f: "find (\<lambda>v. wp_curline v = wp_curline w) (wps sh) = Some w'"
    using assms(2) by (cases "find (\<lambda>v. wp_curline v = wp_curline w) (wps sh)") (auto simp: find_None_iff)
  then have "w' \<in> set (wps sh)" "wp_curline w' = wp_curline w" by (auto simp: find_Some_iff)
  then have "w' = w" using assms by (simp add: distinct_map inj_on_def)
  then show ?thesis using f by (simp add: room_of_def)
qed

lemma room_of_other: "i \<notin> set (cur_lines sh) \<Longrightarrow> room_of sh i = line_cap sh"
  by (cases "find (\<lambda>v. wp_curline v = i) (wps sh)") (auto simp: room_of_def find_Some_iff)

lemma shard_okD:
  assumes "shard_ok sh held"
  shows "addr_ok (sh_spp sh)" "geom_ok (sh_spp sh)" "line_cap sh < 2 ^ 31" "n_lines (sh_lm sh) = blks_per_pl (sh_spp sh)"
    "distinct (cur_lines sh)" "set (cur_lines sh) \<inter> held = {}" "w \<in> set (wps sh) \<Longrightarrow> wp_ok (sh_spp sh) w"
    "\<not> v_spin sh" "\<not> inv_spin sh" "\<not> lm_spin sh"
    "lm_ok (room_of sh) held (set (cur_lines sh) \<union> held) {} (sh_lm sh)"
  using assms addr_okD(1) by (simp_all add: shard_ok_def)

lemma shard_cap:
  assumes "shard_ok sh held"
  shows "int (sh_gpp sh) \<le> line_cap sh" "0 < line_cap sh"
proof -
  note g = geom_bounds [OF shard_okD(2) [OF assms]]
  have "0 < pgs_per_line (sh_spp sh)" using g(1,2,3,5,11,12) by simp
  then show "int (sh_gpp sh) \<le> line_cap sh" "0 < line_cap sh" using grain_per_page_pos(1) [of "sh_build sh"] by simp_all
qed

lemma shard_room:
  assumes "shard_ok sh held"
  shows "room_ok (room_of sh) (set (cur_lines sh) \<union> held - held) (line_cap sh)"
proof -
  note s = shard_okD [OF assms]
  have cur: "room_of sh i < line_cap sh" if "i \<in> set (cur_lines sh)" for i
  proof -
    from that obtain w where w: "w \<in> set (wps sh)" "i = wp_curline w" by auto
    have "line_rank (sh_spp sh) (wp_digits (sh_spp sh) w) < pgs_per_line (sh_spp sh)"
      using s(2) s(7) [OF w(1)] by (simp add: line_rank_less wp_ok_def)
    then show ?thesis using room_of_cur [OF s(5) w(1)] w(2) grain_per_page_pos(1) [of "sh_build sh"]
      by (simp add: mult_less_mono1 del: of_nat_mult)
  qed
  moreover have "room_of sh i \<le> line_cap sh" for i
    using cur [of i] room_of_other [of i sh] by (cases "i \<in> set (cur_lines sh)") auto
  ultimately show ?thesis using s(3) shard_cap(2) [OF assms] by (auto simp: room_ok_def)
qed

lemma room_of_cong:
  "sh_spp sh' = sh_spp sh \<Longrightarrow> sh_build sh' = sh_build sh \<Longrightarrow> wps sh' = wps sh \<Longrightarrow> room_of sh' = room_of sh"
  by (auto simp: room_of_def fun_eq_iff split: option.split)

lemma shard_ok_cong:
  assumes "sh_spp sh' = sh_spp sh" "sh_build sh' = sh_build sh" "sh_lm sh' = sh_lm sh" "wps sh' = wps sh"
    "v_spin sh' = v_spin sh" "inv_spin sh' = inv_spin sh" "lm_spin sh' = lm_spin sh"
  shows "shard_ok sh' held = shard_ok sh held"
  using assms room_of_cong [OF assms(1,2,4)] by (simp add: shard_ok_def)

subsection \<open>Advancing a write pointer\<close>

text \<open>A new value for one write pointer: a further page of the same line, or the first page of a new line.\<close>

lemma shard_ok_set_wp:
  assumes ok: "addr_ok (sh_spp sh)" "line_cap sh < 2 ^ 31" "n_lines (sh_lm sh) = blks_per_pl (sh_spp sh)"
      "\<not> v_spin sh" "\<not> inv_spin sh" "\<not> lm_spin sh"
      "distinct (cur_lines sh)" "\<And>v. v \<in> set (wps sh) \<Longrightarrow> wp_ok (sh_spp sh) v"
    and k: "wp_index io < length (wps sh)" "w = wps sh ! wp_index io" and w': "wp_ok (sh_spp sh) w'"
    and out: "out = insert (wp_curline w') (set (cur_lines sh) - {wp_curline w})" "out \<inter> held = {}"
      "wp_curline w' = wp_curline w \<or> wp_curline w' \<notin> set (cur_lines sh)"
    and lm: "lm_ok room held (out \<union> held) {} (sh_lm sh)"
      "room (wp_curline w') \<le> int (line_rank (sh_spp sh) (wp_digits (sh_spp sh) w') * sh_gpp sh)"
      "\<And>i. i \<noteq> wp_curline w' \<Longrightarrow> room i \<le> (if i = wp_curline w then line_cap sh else room_of sh i)"
  shows "shard_ok (set_wp io w' sh) held"
proof -
  let ?sh = "set_wp io w' sh" and ?k = "wp_index io"
  have W: "wps ?sh = (wps sh)[?k := w']" by (rule set_wp_wps)
  have W': "w' \<in> set (wps ?sh)" using k(1) W by (simp add: set_update_memI)
  have C: "set (cur_lines ?sh) = out" "distinct (cur_lines ?sh)"
  proof -
    have kk: "?k < length (cur_lines sh)" "cur_lines sh ! ?k = wp_curline w" using k by simp_all
    have m: "cur_lines ?sh = (cur_lines sh)[?k := wp_curline w']" using W by (simp add: map_update)
    show "set (cur_lines ?sh) = out" unfolding m out(1) using set_update_distinct [OF ok(7) kk(1)] kk(2) by simp
    show "distinct (cur_lines ?sh)" unfolding m
      using ok(7) out(3) kk distinct_list_update [OF ok(7), of "wp_curline w'" ?k] by (auto simp: list_update_id)
  qed
  have sub: "set (wps ?sh) \<subseteq> insert w' (set (wps sh))" unfolding W by (rule set_update_subset_insert)
  have "room i \<le> room_of ?sh i" for i
  proof (cases "i = wp_curline w'")
    case True
    then show ?thesis using room_of_cur [OF C(2) W'] lm(2) by simp
  next
    case ne: False
    show ?thesis
    proof (cases "i \<in> set (cur_lines ?sh)")
      case True
      then obtain v where v: "v \<in> set (wps ?sh)" "i = wp_curline v" by auto
      then have v': "v \<in> set (wps sh)" using sub ne by auto
      have "i \<noteq> wp_curline w" using True ne C(1) out(1) by auto
      then show ?thesis using lm(3) [OF ne] room_of_cur [OF C(2) v(1)] room_of_cur [OF ok(7) v'] v(2) by simp
    next
      case False
      have "i = wp_curline w \<or> i \<notin> set (cur_lines sh)" using False C(1) out(1) by auto
      then show ?thesis using lm(3) [OF ne] room_of_other [OF False] room_of_other [of i sh]
        by (cases "i = wp_curline w") auto
    qed
  qed
  then have "lm_ok (room_of ?sh) held (out \<union> held) {} (sh_lm ?sh)" using lm_ok_room [OF lm(1)] by simp
  then show ?thesis using ok w' sub C out(2) unfolding shard_ok_def by auto
qed

lemma advance_within:
  assumes ok: "shard_ok sh held" "\<not> map_spin sh" and w: "get_wp sh io = Inr w"
    and e: "odometer (sh_spp sh) (wp_digits (sh_spp sh) w) = Some e"
  obtains sh' w' where "advance_write_pointer sh io = Inr (True, sh')" "shard_ok sh' held" "get_wp sh' io = Inr w'"
    "wp_curline w' = wp_curline w" "wp_digits (sh_spp sh') w' = e" "sh_lm sh' = sh_lm sh" "sh_ssd sh' = sh_ssd sh"
    "\<not> map_spin sh'" "sh_build sh' = sh_build sh"
proof -
  note s = shard_okD [OF ok(1)]
  have k: "wp_index io < length (wps sh)" "w = wps sh ! wp_index io" using w by (simp_all add: get_wp_nth)
  then have wo: "wp_ok (sh_spp sh) w" using s(7) by simp
  obtain w' where w': "step_wp (sh_spp sh) w = Inr (w', False)" "wp_digits (sh_spp sh) w' = e"
    "wp_curline w' = wp_curline w" "wp_blk w' = wp_blk w" "wp_pl w' = wp_pl w"
    using step_wp_odometer(1) [OF s(2) wo e] by blast
  have ds: "digits_ok (sh_spp sh) e" "line_rank (sh_spp sh) e = Suc (line_rank (sh_spp sh) (wp_digits (sh_spp sh) w))"
    using odometer_step(1) [OF s(2) _ e] wo by (simp_all add: wp_ok_def)
  have wo': "wp_ok (sh_spp sh) w'" using wo w' ds by (simp add: wp_ok_def)
  have cw: "wp_curline w \<in> set (cur_lines sh)" using k by simp
  have "shard_ok (set_wp io w' (count_page io sh)) held"
  proof (rule shard_ok_set_wp [where w = w and out = "set (cur_lines sh)" and room = "room_of sh"])
    show "lm_ok (room_of sh) held (set (cur_lines sh) \<union> held) {} (sh_lm (count_page io sh))" using s(11) by simp
    have "room_of sh (wp_curline w) = int (line_rank (sh_spp sh) (wp_digits (sh_spp sh) w) * sh_gpp sh)"
      using room_of_cur [OF s(5)] k by simp
    then show "room_of sh (wp_curline w') \<le> int (line_rank (sh_spp (count_page io sh))
        (wp_digits (sh_spp (count_page io sh)) w') * sh_gpp (count_page io sh))"
      using w'(2,3) ds(2) by simp
    show "room_of sh i \<le> (if i = wp_curline w then line_cap (count_page io sh) else room_of (count_page io sh) i)"
      if "i \<noteq> wp_curline w'" for i using that w'(3) room_of_cong [of "count_page io sh" sh] by simp
  qed (use s k cw w'(3) wo' in auto)
  moreover define sh' where "sh' = (if io = MAP_IO then set_wp io w' (count_page io sh)\<lparr>map_spin := True\<rparr>\<lparr>map_spin := False\<rparr>
    else set_wp io w' (count_page io sh))"
  ultimately have "shard_ok sh' held" using shard_ok_cong [of sh' "set_wp io w' (count_page io sh)" held] by simp
  moreover have "advance_write_pointer sh io = Inr (True, sh')"
    using w w'(1) ok(2) by (cases io) (simp_all add: advance_write_pointer_def lock_map_def sh'_def set_wp_def)
  moreover have "get_wp sh' io = Inr w'" using k by (auto simp: sh'_def get_wp_nth set_wp_wps)
  moreover have "\<not> map_spin sh'" using ok(2) by (simp add: sh'_def)
  ultimately show thesis using that [of sh' w'] w'(2,3) by (simp add: sh'_def)
qed

lemma next_line_ok:
  assumes ok: "shard_ok sh held" and w: "get_wp sh io = Inr w" and u: "step_wp (sh_spp sh) w = Inr (w1, True)"
    "w1 = w\<lparr>wp_pg := 0, wp_ch := 0, wp_lun := 0\<rparr>"
  shows "lm_free (sh_lm sh) = [] \<Longrightarrow> next_line sh io w1 = Inl Bug_on"
    "lm_free (sh_lm sh) = c # rest \<Longrightarrow> \<exists>sh' w'. next_line sh io w1 = Inr sh' \<and> shard_ok sh' held \<and> get_wp sh' io = Inr w' \<and>
       wp_curline w' = c \<and> wp_digits (sh_spp sh') w' = (0, 0, 0, 0) \<and> lm_free (sh_lm sh') = rest \<and> sh_ssd sh' = sh_ssd sh \<and>
       sh' = set_wp io w' (sh\<lparr>sh_lm := sh_lm sh'\<rparr>)"
proof -
  note s = shard_okD [OF ok]
  have k: "wp_index io < length (wps sh)" "w = wps sh ! wp_index io" using w by (simp_all add: get_wp_nth)
  then have ws: "w \<in> set (wps sh)" by simp
  have wo: "wp_ok (sh_spp sh) w" using s(7) [OF ws] .
  let ?x = "wp_curline w"
  have x: "?x \<in> set (cur_lines sh)" "?x \<in> set (cur_lines sh) \<union> held" "?x \<notin> held" "?x < n_lines (sh_lm sh)"
    using ws s(6) lm_ok_places [OF s(11)] by auto
  have rx: "room_of sh ?x < line_cap sh" using shard_room [OF ok] x(1,3) by (simp add: room_ok_def)
  let ?sh1 = "sh\<lparr>lm_spin := True\<rparr>"
  obtain lm1 where r: "retire_line ?sh1 ?x = Inr (?sh1\<lparr>sh_lm := lm1\<rparr>)"
    "lm_ok ((room_of sh)(?x := line_cap ?sh1)) held (set (cur_lines sh) \<union> held - {?x}) {} lm1"
    "strip (lm_lines lm1) = strip (lm_lines (sh_lm ?sh1))" "lm_free lm1 = lm_free (sh_lm ?sh1)"
    by (rule retire_ok [of "room_of sh" held "set (cur_lines sh) \<union> held" ?sh1 ?x]) (use s(11) x rx in simp_all)
  have n1: "n_lines lm1 = n_lines (sh_lm sh)" using strip_length [OF r(3)] by simp
  have blk: "check_addr (wp_blk w) (blks_per_pl (sh_spp sh)) = Inr ()"
    using wo x(4) s(4) by (simp add: check_addr_def wp_ok_def)
  show "next_line sh io w1 = Inl Bug_on" if "lm_free (sh_lm sh) = []"
    using that r(1,4) s(10) u(2) blk by (simp add: next_line_def lock_lm_def get_next_free_line_def)
  assume f: "lm_free (sh_lm sh) = c # rest"
  let ?sh2 = "?sh1\<lparr>sh_lm := lm1\<rparr>"
  have f2: "lm_free (sh_lm ?sh2) = c # rest" using f r(4) by simp
  have ok2: "lm_ok ((room_of sh)(?x := line_cap ?sh1)) held (set (cur_lines sh) \<union> held - {?x}) {} (sh_lm ?sh2)"
    using r(2) by simp
  obtain lm2 where a: "get_next_free_line ?sh2 = Inr (c, ?sh2\<lparr>sh_lm := lm2\<rparr>)"
    "lm_ok ((room_of sh)(?x := line_cap ?sh1, c := 0)) held (insert c (set (cur_lines sh) \<union> held - {?x})) {} lm2"
    "lm_lines lm2 = lm_lines (sh_lm ?sh2)" "lm_free lm2 = rest" "c \<notin> set (cur_lines sh) \<union> held - {?x}" "c < n_lines (sh_lm ?sh2)"
    using ok2 f2 by (rule alloc_ok)
  have cx: "c \<noteq> ?x" using lm_ok_places [OF s(11)] f x(1) by auto
  have cl: "c < n_lines lm2" "n_lines lm2 = n_lines (sh_lm sh)" using a(3,6) n1 by simp_all
  have cf: "c \<notin> set (lm_free lm2)" using lm_ok_places [OF a(2)] by auto
  note cc = lm_ok_counts [OF a(2) cl(1)]
  let ?lm3 = "set_line c (\<lambda>l. l\<lparr>ln_map := is_map_io io\<rparr>) lm2"
  have ok3: "lm_ok ((room_of sh)(?x := line_cap ?sh1, c := 0)) held (insert c (set (cur_lines sh) \<union> held - {?x})) {} ?lm3"
    using cc cl cf by (intro lm_ok_set_line [OF a(2)]) auto
  let ?w' = "w1\<lparr>wp_curline := c, wp_blk := c\<rparr>"
  let ?sh3 = "sh\<lparr>sh_lm := ?lm3\<rparr>"
  have g: "0 < pgs_per_oneshotpg (sh_spp sh)" "0 < oneshotpgs_per_blk (sh_spp sh)" "0 < nchs (sh_spp sh)" "0 < luns_per_ch (sh_spp sh)"
    using geom_bounds [OF s(2)] by blast+
  have dig: "wp_digits (sh_spp sh) ?w' = (0, 0, 0, 0)" by (simp add: wp_digits_def u(2))
  have shok: "shard_ok (set_wp io ?w' ?sh3) held"
  proof (rule shard_ok_set_wp [where w = w and out = "insert c (set (cur_lines sh) - {?x})"
        and room = "(room_of sh)(?x := line_cap ?sh1, c := 0)"])
    have "insert c (set (cur_lines sh) \<union> held - {?x}) = insert c (set (cur_lines sh) - {?x}) \<union> held" using x(3) by auto
    then show "lm_ok ((room_of sh)(?x := line_cap ?sh1, c := 0)) held (insert c (set (cur_lines sh) - {?x}) \<union> held) {} (sh_lm ?sh3)"
      using ok3 by simp
    show "wp_ok (sh_spp ?sh3) ?w'" using wo g by (simp add: wp_ok_def wp_digits_def digits_ok_def u(2))
    show "((room_of sh)(?x := line_cap ?sh1, c := 0)) i \<le> (if i = ?x then line_cap ?sh3 else room_of ?sh3 i)"
      if "i \<noteq> wp_curline ?w'" for i using that room_of_cong [of ?sh3 sh] by simp
  qed (use s k a(5) cx cl in auto)
  have "check_addr c (blks_per_pl (sh_spp sh)) = Inr ()" using cl s(4) by (simp add: check_addr_def)
  then have "next_line sh io w1 = Inr (set_wp io ?w' (sh\<lparr>lm_spin := False, sh_lm := ?lm3\<rparr>))"
    using r(1) a(1) s(10) u(2) blk cc(5) cl(1) wo
    by (simp add: next_line_def lock_lm_def line_of_def Let_def wp_ok_def)
  moreover have "sh\<lparr>lm_spin := False, sh_lm := ?lm3\<rparr> = ?sh3" using s(10) by (cases sh) simp
  ultimately have "next_line sh io w1 = Inr (set_wp io ?w' ?sh3)" by (simp only:)
  then show "\<exists>sh' w'. next_line sh io w1 = Inr sh' \<and> shard_ok sh' held \<and> get_wp sh' io = Inr w' \<and>
       wp_curline w' = c \<and> wp_digits (sh_spp sh') w' = (0, 0, 0, 0) \<and> lm_free (sh_lm sh') = rest \<and> sh_ssd sh' = sh_ssd sh \<and>
       sh' = set_wp io w' (sh\<lparr>sh_lm := sh_lm sh'\<rparr>)"
    using shok a(4) dig k by (intro exI [of _ "set_wp io ?w' ?sh3"] exI [of _ ?w']) (simp add: get_wp_nth set_wp_wps)
qed

lemma advance_across:
  assumes ok: "shard_ok sh held" "\<not> map_spin sh" and w: "get_wp sh io = Inr w"
    and e: "odometer (sh_spp sh) (wp_digits (sh_spp sh) w) = None"
  shows "lm_free (sh_lm sh) = [] \<Longrightarrow> advance_write_pointer sh io = Inl Bug_on"
    "lm_free (sh_lm sh) = c # rest \<Longrightarrow> \<exists>sh' w'. advance_write_pointer sh io = Inr (True, sh') \<and> shard_ok sh' held \<and>
       get_wp sh' io = Inr w' \<and> wp_curline w' = c \<and> wp_digits (sh_spp sh') w' = (0, 0, 0, 0) \<and> lm_free (sh_lm sh') = rest \<and>
       sh_ssd sh' = sh_ssd sh \<and> \<not> map_spin sh' \<and> sh_build sh' = sh_build sh"
proof -
  note s = shard_okD [OF ok(1)]
  let ?w1 = "w\<lparr>wp_pg := 0, wp_ch := 0, wp_lun := 0\<rparr>"
  have "w \<in> set (wps sh)" using w by (auto simp: get_wp_nth)
  then have st: "step_wp (sh_spp sh) w = Inr (?w1, True)" using step_wp_odometer(2) [OF s(2) s(7) e] by simp
  define sh1 where "sh1 = (if io = MAP_IO then count_page io sh\<lparr>map_spin := True\<rparr> else count_page io sh)"
  have sh1 [simp]: "sh_build sh1 = sh_build sh" "sh_lm sh1 = sh_lm sh" "wps sh1 = wps sh" "sh_ssd sh1 = sh_ssd sh"
    by (simp_all add: sh1_def)
  have lk: "(if io = MAP_IO then lock_map (count_page io sh) else Inr (count_page io sh)) = Inr sh1"
    using ok(2) by (simp add: sh1_def lock_map_def)
  have ok1: "shard_ok sh1 held" using ok(1) shard_ok_cong [of sh1 sh held] by (simp add: sh1_def)
  have w1: "get_wp sh1 io = Inr w" using w by (simp add: get_wp_nth)
  have st1: "step_wp (sh_spp sh1) w = Inr (?w1, True)" using st by simp
  have adv: "advance_write_pointer sh io = bindR (next_line sh1 io ?w1)
      (\<lambda>sh2. Inr (True, if io = MAP_IO then sh2\<lparr>map_spin := False\<rparr> else sh2))"
    unfolding advance_write_pointer_def w lk using st1 by simp
  note nl = next_line_ok [OF ok1 w1 st1 refl]
  show "advance_write_pointer sh io = Inl Bug_on" if "lm_free (sh_lm sh) = []"
    using adv nl(1) that by simp
  assume "lm_free (sh_lm sh) = c # rest"
  then obtain sh' w' where n: "next_line sh1 io ?w1 = Inr sh'" "shard_ok sh' held" "get_wp sh' io = Inr w'"
     "wp_curline w' = c" "wp_digits (sh_spp sh') w' = (0, 0, 0, 0)" "lm_free (sh_lm sh') = rest" "sh_ssd sh' = sh_ssd sh"
     "sh' = set_wp io w' (sh1\<lparr>sh_lm := sh_lm sh'\<rparr>)"
    using nl(2) [of c rest] by auto
  define sh2 where "sh2 = (if io = MAP_IO then sh'\<lparr>map_spin := False\<rparr> else sh')"
  have "map_spin sh' = map_spin sh1" by (subst n(8)) simp
  then have "\<not> map_spin sh2" using ok(2) by (simp add: sh2_def sh1_def)
  moreover have "sh_build sh' = sh_build sh1" by (subst n(8)) simp
  then have "sh_build sh2 = sh_build sh" by (simp add: sh2_def)
  moreover have "shard_ok sh2 held" using n(2) shard_ok_cong [of sh2 sh' held] by (simp add: sh2_def)
  moreover have "get_wp sh2 io = Inr w'" using n(3) by (auto simp: get_wp_nth sh2_def)
  moreover have "advance_write_pointer sh io = Inr (True, sh2)" using adv n(1) by (simp add: sh2_def)
  ultimately show "\<exists>sh' w'. advance_write_pointer sh io = Inr (True, sh') \<and> shard_ok sh' held \<and>
       get_wp sh' io = Inr w' \<and> wp_curline w' = c \<and> wp_digits (sh_spp sh') w' = (0, 0, 0, 0) \<and> lm_free (sh_lm sh') = rest \<and>
       sh_ssd sh' = sh_ssd sh \<and> \<not> map_spin sh' \<and> sh_build sh' = sh_build sh"
    using n(4-7) by (intro exI [of _ sh2] exI [of _ w']) (simp add: sh2_def)
qed

end
