(* ===== verification/FtlSteps.thy ===== *)
theory FtlSteps
  imports FtlShard
begin

text \<open>
  The operations of the FTL as steps on a shard: each keeps the invariant, for every sequence of them.
\<close>

subsection \<open>The other operations keep the invariant\<close>

lemma upd_sp [simp]: "ssd_sp (upd_blk p f s) = ssd_sp s" "ssd_sp (upd_pg p g s) = ssd_sp s"
  by (simp_all add: upd_pg_def upd_blk_def upd_plane_def set_lun_def)

lemma shard_ok_lm:
  assumes ok: "shard_ok sh held" and sh': "sh_spp sh' = sh_spp sh" "sh_build sh' = sh_build sh" "wps sh' = wps sh"
    "\<not> v_spin sh'" "\<not> inv_spin sh'" "\<not> lm_spin sh'" and n: "n_lines (sh_lm sh') = n_lines (sh_lm sh)"
    and held': "set (cur_lines sh) \<inter> held' = {}"
    and lm: "lm_ok (room_of sh) held' (set (cur_lines sh) \<union> held') {} (sh_lm sh')"
  shows "shard_ok sh' held'"
proof -
  note s = shard_okD [OF ok]
  have "line_cap sh' < 2 ^ 31" "addr_ok (sh_spp sh')" "n_lines (sh_lm sh') = blks_per_pl (sh_spp sh')"
    using s(1,3,4) sh'(1,2) n by simp_all
  moreover have "distinct (cur_lines sh')" "set (cur_lines sh') \<inter> held' = {}" "\<forall>w\<in>set (wps sh'). wp_ok (sh_spp sh') w"
    using s(5,7) sh'(1,3) held' by simp_all
  moreover have "room_of sh' = room_of sh" using sh'(1-3) by (rule room_of_cong)
  ultimately show ?thesis using lm sh' unfolding shard_ok_def by simp
qed

lemma mark_grain_valid_ok:
  assumes ok: "shard_ok sh held" and r: "mark_grain_valid sh grain len = Inr sh'"
    and p: "ppa_to_struct (sh_spp sh) (G_IDX (sh_build sh) grain) = Inr p"
    and room: "ln_vgc (line_of sh (g_blk p)) + ln_igc (line_of sh (g_blk p)) + int len \<le> room_of sh (g_blk p)"
    and nf: "g_blk p \<notin> set (lm_free (sh_lm sh))"
  shows "shard_ok sh' held" "map_spin sh' = map_spin sh" "sh_spp sh' = sh_spp sh"
proof -
  note s = shard_okD [OF ok]
  let ?l = "g_blk p" and ?f = "\<lambda>x. x\<lparr>ln_vgc := ln_vgc x + int len\<rparr>"
  have l: "?l < n_lines (sh_lm sh)" and sh': "sh_lm sh' = set_line ?l ?f (sh_lm sh)" "sh_spp sh' = sh_spp sh"
    "sh_build sh' = sh_build sh" "wps sh' = wps sh" "\<not> v_spin sh'" "\<not> inv_spin sh'" "\<not> lm_spin sh'"
    "map_spin sh' = map_spin sh"
    using r p s(8-10) unfolding mark_grain_valid_def bump_line_def lock_v_def lock_lm_def get_line_def
    by (auto simp: bindR_eq_Inr Let_def split: if_splits build.splits)
  note c = lm_ok_counts [OF s(11) l]
  have "lm_ok (room_of sh) held (set (cur_lines sh) \<union> held) {} (set_line ?l ?f (sh_lm sh))"
    using c room nf l by (intro lm_ok_set_line [OF s(11)]) (auto simp: line_of_def)
  then show "shard_ok sh' held" using sh' s(6) by (intro shard_ok_lm [OF ok]) simp_all
  show "map_spin sh' = map_spin sh" "sh_spp sh' = sh_spp sh" using sh' by simp_all
qed

lemma clear_grain_frame:
  assumes "clear_grain sh p page grain len = Inr sh'"
  shows "sh_lm sh' = sh_lm sh \<and> sh_spp sh' = sh_spp sh \<and> sh_build sh' = sh_build sh \<and> wps sh' = wps sh \<and> v_spin sh' = v_spin sh \<and>
    inv_spin sh' = inv_spin sh \<and> lm_spin sh' = lm_spin sh \<and> map_spin sh' = map_spin sh"
  using assms by (auto simp: clear_grain_def mark_page_invalid_def bindR_eq_Inr Let_def split: build.splits if_splits)

lemma count_invalid_result:
  assumes "count_invalid sh p len w0 = Inr (l, wfl, sh')"
  shows "l = g_blk p \<and> l < n_lines (sh_lm sh) \<and> wfl = (w0 \<or> line_cap sh \<le> ln_vgc (line_of sh l)) \<and>
    sh_lm sh' = set_line l (\<lambda>x. x\<lparr>ln_igc := ln_igc x + int len\<rparr>) (sh_lm sh) \<and> sh_spp sh' = sh_spp sh \<and> sh_build sh' = sh_build sh \<and>
    wps sh' = wps sh \<and> v_spin sh' = v_spin sh \<and> inv_spin sh' = inv_spin sh \<and> lm_spin sh' = lm_spin sh \<and> map_spin sh' = map_spin sh"
  using assms unfolding count_invalid_def Let_def get_line_def by (auto elim!: bindR_InrE simp: line_of_def split: if_splits)

lemma drop_line_result:
  assumes "drop_line sh l len wfl = Inr sh'"
  obtains lm1 lm2 where "lower_line (sh_lm sh) l len = Inr lm1" "(if wfl then full_to_victim lm1 l else Inr lm1) = Inr lm2"
    "0 \<le> ln_vgc (lm_lines lm2 ! l)" "sh' = sh\<lparr>lm_spin := True, sh_lm := lm2, lm_spin := False\<rparr>"
  using assms unfolding drop_line_def lock_lm_def Let_def by (auto elim!: bindR_InrE simp: line_of_def split: if_splits)

text \<open>One iteration of the invalidation loop, entered with \<^verbatim>\<open>was_full_line\<close> cleared.\<close>

lemma invalidate_page_ok:
  assumes ok: "shard_ok sh held" and r: "invalidate_page sh p page grain rem False = Inr (wfl, rem', sh')"
  defines "len \<equiv> min rem (sh_gpp sh - grain mod sh_gpp sh)"
  shows "shard_ok sh' held" "map_spin sh' = map_spin sh" "sh_spp sh' = sh_spp sh" "sh_build sh' = sh_build sh" "rem' = rem - len"
    "wfl \<longleftrightarrow> line_cap sh \<le> ln_vgc (line_of sh (g_blk p))" "g_blk p < n_lines (sh_lm sh)"
    "ln_vgc (line_of sh' (g_blk p)) = ln_vgc (line_of sh (g_blk p)) - int len" "0 < len"
    "ln_id (line_of sh' (g_blk p)) = g_blk p"
proof -
  note s = shard_okD [OF ok]
  let ?l = "g_blk p" and ?f = "\<lambda>x. x\<lparr>ln_igc := ln_igc x + int len\<rparr>"
  obtain l sh2 sh3 sh4 where e: "0 < len" "count_invalid (sh\<lparr>inv_spin := True\<rparr>) p len False = Inr (l, wfl, sh2)" "rem' = rem - len"
    "drop_line sh2 l len wfl = Inr sh3" "clear_grain sh3 p page grain len = Inr sh4" "sh' = sh4\<lparr>inv_spin := False\<rparr>"
    using r s(9) unfolding invalidate_page_def lock_inv_def len_def Let_def by (auto elim!: bindR_InrE)
  note cr = count_invalid_result [OF e(2)]
  have d: "0 < len" "?l < n_lines (sh_lm sh)" "wfl = (line_cap sh \<le> ln_vgc (line_of sh ?l))" "rem' = rem - len"
    "drop_line sh2 ?l len wfl = Inr sh3" "clear_grain sh3 p page grain len = Inr sh4" "sh' = sh4\<lparr>inv_spin := False\<rparr>"
    "sh_lm sh2 = set_line ?l ?f (sh_lm sh)" "sh_spp sh2 = sh_spp sh" "sh_build sh2 = sh_build sh" "wps sh2 = wps sh"
    "v_spin sh2 = v_spin sh" "lm_spin sh2 = lm_spin sh" "map_spin sh2 = map_spin sh"
    using e cr by (simp_all add: line_of_def)
  obtain lm1 lm2 where m: "lower_line (set_line ?l ?f (sh_lm sh)) ?l len = Inr lm1"
    "(if line_cap sh \<le> ln_vgc (lm_lines (sh_lm sh) ! ?l) then full_to_victim lm1 ?l else Inr lm1) = Inr lm2"
    "0 \<le> ln_vgc (lm_lines lm2 ! ?l)" "sh3 = sh2\<lparr>lm_spin := True, sh_lm := lm2, lm_spin := False\<rparr>"
    using drop_line_result [OF d(5)] unfolding d(3,8) line_of_def by blast
  have gp: "len \<le> sh_gpp sh" "sh_gpp sh \<le> 64" using grain_per_page_pos(2) [of "sh_build sh"] by (simp_all add: len_def)
  have "lm_ok (room_of sh) held (set (cur_lines sh) \<union> held) {} lm2 \<and>
      strip (lm_lines lm2) = strip (lm_lines (set_line ?l (shift_grains len) (sh_lm sh)))"
    by (rule drop_ok [OF s(11) shard_room [OF ok] d(2,1) _ _ m(1-3)]) (use gp shard_cap(1) [OF ok] in linarith)+
  then have l2: "lm_ok (room_of sh) held (set (cur_lines sh) \<union> held) {} lm2"
    and st: "strip (lm_lines lm2) = strip (lm_lines (set_line ?l (shift_grains len) (sh_lm sh)))" by simp_all
  have n2: "n_lines lm2 = n_lines (sh_lm sh)" using strip_length [OF st] by simp
  note cf = clear_grain_frame [OF d(6)]
  show "shard_ok sh' held"
    using cf m(4) d n2 l2 s(6,8,9,10) by (intro shard_ok_lm [OF ok]) simp_all
  show "map_spin sh' = map_spin sh" "sh_spp sh' = sh_spp sh" "sh_build sh' = sh_build sh" using cf m(4) d by simp_all
  show "rem' = rem - len" "wfl \<longleftrightarrow> line_cap sh \<le> ln_vgc (line_of sh ?l)" "?l < n_lines (sh_lm sh)" "0 < len" using d(1-4) by simp_all
  have sh'l: "sh_lm sh' = lm2" using cf m(4) d(7) by simp
  show "ln_vgc (line_of sh' ?l) = ln_vgc (line_of sh ?l) - int len"
    using strip_nth(3) [OF st, of ?l] n2 d(2) sh'l by (simp add: line_of_def)
  show "ln_id (line_of sh' ?l) = ?l" using lm_ok_counts(5) [OF l2] n2 d(2) sh'l by (simp add: line_of_def)
qed

lemma mark_invalid_loop_ok:
  assumes "shard_ok sh held" "mark_invalid_loop sh p page grain rem False = Inr sh'"
    "rem \<le> sh_gpp sh - grain mod sh_gpp sh \<or> ln_vgc (line_of sh (g_blk p)) < line_cap sh"
  shows "shard_ok sh' held \<and> map_spin sh' = map_spin sh \<and> sh_spp sh' = sh_spp sh"
  using assms
proof (induction sh p page grain rem "False" rule: mark_invalid_loop.induct)
  case (1 sh p page grain rem)
  obtain wfl rem1 sh1 where i: "invalidate_page sh p page grain rem False = Inr (wfl, rem1, sh1)"
    using "1.prems"(2) by (auto simp: mark_invalid_loop.simps [of sh] split: sum.splits)
  note ip = invalidate_page_ok [OF "1.prems"(1) i]
  show ?case
  proof (cases "rem1 = 0")
    case True
    then show ?thesis using "1.prems"(2) i ip by (simp add: mark_invalid_loop.simps [of sh])
  next
    case False
    then have nw: "\<not> wfl" and v: "ln_vgc (line_of sh (g_blk p)) < line_cap sh" using "1.prems"(3) ip(5,6) by auto
    obtain p1 page1 where n: "g_blk p1 = g_blk p"
      "mark_invalid_loop sh1 p1 page1 (PPA_TO_PGA (sh_build sh1) page1 0) rem1 wfl = Inr sh'"
      "peek_next_page (sh_spp sh1) p = Inr p1" "ppa2pgidx (sh_spp sh1) p1 = Inr page1"
      using "1.prems"(2) i False ip(10) by (auto simp: mark_invalid_loop.simps [of sh] bindR_eq_Inr)
    have cap: "line_cap sh1 = line_cap sh" using ip(3,4) by simp
    have i0: "invalidate_page sh p page grain rem False = Inr (False, rem1, sh1)" using i nw by simp
    have "shard_ok sh' held \<and> map_spin sh' = map_spin sh1 \<and> sh_spp sh' = sh_spp sh1"
      by (rule "1.hyps" [OF i0 refl refl False n(3) _ n(4)]) (use nw n ip v cap in auto)
    then show ?thesis using ip by simp
  qed
qed

lemma mark_grain_invalid_ok:
  assumes ok: "shard_ok sh held" and r: "mark_grain_invalid sh grain len = Inr sh'"
    and p: "ppa_to_struct (sh_spp sh) (G_IDX (sh_build sh) grain) = Inr p"
    and one: "len \<le> sh_gpp sh - grain mod sh_gpp sh \<or> ln_vgc (line_of sh (g_blk p)) < line_cap sh"
  shows "shard_ok sh' held \<and> map_spin sh' = map_spin sh \<and> sh_spp sh' = sh_spp sh"
proof -
  have "mark_invalid_loop sh p (G_IDX (sh_build sh) grain) grain len False = Inr sh'"
    using r p by (auto simp: mark_grain_invalid_def Let_def bindR_eq_Inr)
  then show ?thesis using ok one by (intro mark_invalid_loop_ok)
qed

lemma page_state_ok:
  assumes "shard_ok sh held"
  shows "mark_page_valid sh p = Inr sh' \<Longrightarrow> shard_ok sh' held \<and> map_spin sh' = map_spin sh \<and> sh_spp sh' = sh_spp sh"
    "mark_page_invalid sh p = Inr sh' \<Longrightarrow> shard_ok sh' held \<and> map_spin sh' = map_spin sh \<and> sh_spp sh' = sh_spp sh"
proof -
  show "shard_ok sh' held \<and> map_spin sh' = map_spin sh \<and> sh_spp sh' = sh_spp sh" if "mark_page_valid sh p = Inr sh'"
    using that assms shard_ok_cong [of sh' sh held] by (auto simp: mark_page_valid_def bindR_eq_Inr)
  show "shard_ok sh' held \<and> map_spin sh' = map_spin sh \<and> sh_spp sh' = sh_spp sh" if "mark_page_invalid sh p = Inr sh'"
    using that assms shard_ok_cong [of sh' sh held]
    by (auto simp: mark_page_invalid_def bindR_eq_Inr Let_def split: build.splits)
qed

text \<open>Victim selection always returns; the victim is neither under a write pointer nor held already nor the
  line that \<^verbatim>\<open>offset\<close> lies in.\<close>

lemma grain2lineid_ok:
  assumes "addr_ok (sh_spp sh)" "n_lines (sh_lm sh) = blks_per_pl (sh_spp sh)" "G_IDX (sh_build sh) g < tt_pgs (sh_spp sh)"
  shows "\<exists>i. grain2lineid sh g = Inr i"
proof -
  let ?spp = "sh_spp sh"
  obtain ch lun blk pg where "G_IDX (sh_build sh) g = page_number ?spp ch lun blk pg" "ch < nchs ?spp" "lun < luns_per_ch ?spp"
    "blk < blks_per_pl ?spp" "pg < pgs_per_blk ?spp" using addr_okD(1) [OF assms(1)] assms(3) by (rule page_number_surj)
  then show ?thesis using assms(1,2) ppa_to_struct_digits by (simp add: grain2lineid_def get_line_def)
qed

lemma select_with:
  assumes ok: "shard_ok sh held" and b: "busy_line (sh\<lparr>lm_spin := True\<rparr>) = Inr busy"
  obtains v lm' where "select_victim_line sh = Inr (v, sh\<lparr>lm_spin := True, sh_lm := lm', lm_spin := False\<rparr>)"
    "shard_ok (sh\<lparr>lm_spin := True, sh_lm := lm', lm_spin := False\<rparr>) (held \<union> set_option v)"
    "select_loop (sh_lm sh) busy None = Inr (v, lm')" "set_option v \<inter> insert busy (set (cur_lines sh) \<union> held) = {}"
proof -
  note s = shard_okD [OF ok]
  have "lm_ok (room_of sh) held ((set (cur_lines sh) \<union> held) \<union> set_option None) (set_option None) (sh_lm sh)" using s(11) by simp
  then have "\<exists>v lm'. select_loop (sh_lm sh) busy None = Inr (v, lm') \<and>
      lm_ok (room_of sh) (held \<union> set_option v) ((set (cur_lines sh) \<union> held) \<union> set_option v) {} lm' \<and>
      set_option v \<inter> insert busy (set (cur_lines sh) \<union> held) = {} \<and> n_lines lm' = n_lines (sh_lm sh)"
    by (rule select_loop_ok) auto
  then obtain v lm' where v: "select_loop (sh_lm sh) busy None = Inr (v, lm')"
    "lm_ok (room_of sh) (held \<union> set_option v) (set (cur_lines sh) \<union> (held \<union> set_option v)) {} lm'"
    "set_option v \<inter> insert busy (set (cur_lines sh) \<union> held) = {}" "n_lines lm' = n_lines (sh_lm sh)"
    by (auto simp: Un_assoc)
  let ?sh' = "sh\<lparr>lm_spin := True, sh_lm := lm', lm_spin := False\<rparr>"
  have "select_victim_line sh = Inr (v, ?sh')"
    unfolding select_victim_line_def lock_lm_def using s(10) b v(1) by simp
  moreover have "shard_ok ?sh' (held \<union> set_option v)"
    using v(2-4) s(6,8-10) by (intro shard_ok_lm [OF ok]) auto
  ultimately show thesis using v(1,3) by (intro that)
qed

lemma select_result:
  assumes ok: "shard_ok sh held" and r: "select_victim_line sh = Inr (v, sh')"
  shows "shard_ok sh' (held \<union> set_option v) \<and> map_spin sh' = map_spin sh \<and> sh_spp sh' = sh_spp sh"
proof -
  obtain busy where b: "busy_line (sh\<lparr>lm_spin := True\<rparr>) = Inr busy"
    using r shard_okD(10) [OF ok] by (auto simp: select_victim_line_def lock_lm_def elim!: bindR_InrE)
  show ?thesis by (rule select_with [OF ok b]) (use r in auto)
qed

lemma select_busy:
  assumes ok: "shard_ok sh held" and off: "G_IDX (sh_build sh) (sh_offset sh div GRAINED_UNIT (sh_build sh)) < tt_pgs (sh_spp sh)"
  obtains busy where "busy_line (sh\<lparr>lm_spin := True\<rparr>) = Inr busy"
  using grain2lineid_ok [of "sh\<lparr>lm_spin := True\<rparr>" "sh_offset sh div GRAINED_UNIT (sh_build sh)"] shard_okD(1,4) [OF ok] off
  by (cases "pqueue_peek (lm_victim (sh_lm sh))") (auto simp: busy_line_def)

lemma free_pages_frame:
  "free_pages sh p page is = Inr sh' \<Longrightarrow> sh_lm sh' = sh_lm sh \<and> sh_spp sh' = sh_spp sh \<and> sh_build sh' = sh_build sh \<and>
     wps sh' = wps sh \<and> v_spin sh' = v_spin sh \<and> inv_spin sh' = inv_spin sh \<and> lm_spin sh' = lm_spin sh \<and> map_spin sh' = map_spin sh"
proof (induction "is" arbitrary: sh)
  case (Cons i "is")
  obtain sh2 where f: "free_pages sh2 p page is = Inr sh'"
    and sh2: "sh_lm sh2 = sh_lm sh" "sh_spp sh2 = sh_spp sh" "sh_build sh2 = sh_build sh" "wps sh2 = wps sh"
      "v_spin sh2 = v_spin sh" "inv_spin sh2 = inv_spin sh" "lm_spin sh2 = lm_spin sh" "map_spin sh2 = map_spin sh"
    using Cons.prems by (cases "sh_build sh") (auto simp: bindR_eq_Inr clear_oob_def Let_def)
  show ?case using Cons.IH [OF f] sh2 by simp
qed simp

lemma mark_block_free_ok:
  assumes "shard_ok sh held" "mark_block_free sh p = Inr sh'"
  shows "shard_ok sh' held \<and> map_spin sh' = map_spin sh \<and> sh_spp sh' = sh_spp sh"
proof -
  obtain page sh1 where f: "free_pages sh (p\<lparr>g_pg := 0\<rparr>) page [0..<pgs_per_blk (sh_spp sh)] = Inr sh1"
    and sh': "sh_lm sh' = sh_lm sh1" "sh_spp sh' = sh_spp sh1" "sh_build sh' = sh_build sh1" "wps sh' = wps sh1"
      "v_spin sh' = v_spin sh1" "inv_spin sh' = inv_spin sh1" "lm_spin sh' = lm_spin sh1" "map_spin sh' = map_spin sh1"
    using assms(2) unfolding mark_block_free_def by (auto simp: bindR_eq_Inr)
  show ?thesis using free_pages_frame [OF f] sh' assms(1) shard_ok_cong [of sh' sh held] by simp
qed

lemma mark_line_free_ok:
  assumes ok: "shard_ok sh held" and l: "g_blk p \<in> held"
  obtains sh' where "mark_line_free sh p = Inr sh'" "shard_ok sh' (held - {g_blk p})" "map_spin sh' = map_spin sh" "sh_spp sh' = sh_spp sh"
    "lm_free (sh_lm sh') = lm_free (sh_lm sh) @ [g_blk p]"
proof -
  note s = shard_okD [OF ok]
  let ?l = "g_blk p"
  let ?lm1 = "set_line ?l (\<lambda>x. x\<lparr>ln_ipc := 0, ln_vpc := 0, ln_igc := 0, ln_vgc := 0\<rparr>) (sh_lm sh)"
  let ?lm2 = "?lm1\<lparr>lm_free := lm_free ?lm1 @ [?l], lm_free_cnt := lm_free_cnt ?lm1 + 1\<rparr>"
  let ?sh' = "sh\<lparr>lm_spin := True, sh_lm := ?lm2, lm_spin := False\<rparr>"
  have ln: "?l < n_lines (sh_lm sh)" using lm_ok_places [OF s(11)] l by auto
  then have r: "mark_line_free sh p = Inr ?sh'"
    using s(10) by (simp add: mark_line_free_def get_line_def lock_lm_def Let_def)
  have out: "set (cur_lines sh) \<union> held - {?l} = set (cur_lines sh) \<union> (held - {?l})" using l s(6) by auto
  have "?l \<notin> set (cur_lines sh)" using l s(6) by blast
  then have rl: "room_of sh ?l = line_cap sh" by (rule room_of_other)
  have "lm_ok ((room_of sh)(?l := 0)) (held - {?l}) (set (cur_lines sh) \<union> held - {?l}) {} ?lm2"
    using s(11) l by (rule lm_ok_free)
  then have "lm_ok (room_of sh) (held - {?l}) (set (cur_lines sh) \<union> (held - {?l})) {} ?lm2"
    unfolding out by (rule lm_ok_room) (use shard_cap(2) [OF ok] rl in auto)
  then have "shard_ok ?sh' (held - {?l})" using s(6,8-10) by (intro shard_ok_lm [OF ok]) auto
  then show thesis using r by (intro that [of ?sh']) simp_all
qed

lemma advance_ok:
  assumes ok: "shard_ok sh held" "\<not> map_spin sh" and r: "advance_write_pointer sh io = Inr (b, sh')"
  shows "shard_ok sh' held \<and> \<not> map_spin sh' \<and> sh_spp sh' = sh_spp sh \<and> sh_build sh' = sh_build sh"
proof -
  obtain w where w: "get_wp sh io = Inr w" using r by (auto simp: advance_write_pointer_def bindR_eq_Inr)
  show ?thesis
  proof (cases "odometer (sh_spp sh) (wp_digits (sh_spp sh) w)")
    case (Some e)
    show ?thesis by (rule advance_within [OF ok w Some]) (use r in simp)
  next
    case None
    then show ?thesis using advance_across [OF ok w] r by (cases "lm_free (sh_lm sh)") fastforce+
  qed
qed

subsection \<open>Building the shard\<close>

lemma init_lines_ok:
  assumes "init_lines True (Some mem) sh0 = Inr sh" "room = (\<lambda>_. int (pgs_per_line (sh_spp sh0) * sh_gpp sh0))"
  shows "lm_ok room {} {} {} (sh_lm sh)" "n_lines (sh_lm sh) = blks_per_pl (sh_spp sh0)" "sh = sh0\<lparr>sh_lm := sh_lm sh\<rparr>"
    "lm_free (sh_lm sh) = [0..<blks_per_pl (sh_spp sh0)]"
proof -
  let ?n = "blks_per_pl (sh_spp sh0)"
  let ?L = "\<lambda>i. \<lparr>ln_id = i, ln_ipc = 0, ln_vpc = 0, ln_vgc = 0, ln_igc = 0, ln_pos = 0, ln_map = False\<rparr>"
  let ?q = "\<lparr>pq_size = 1, pq_avail = ?n + 1, pq_step = ?n + 1, pq_cmppri = victim_line_cmp_pri,
    pq_getpri = victim_line_get_pri, pq_setpri = victim_line_set_pri, pq_getpos = victim_line_get_pos,
    pq_setpos = victim_line_set_pos, pq_d = mem\<rparr> :: victim_queue"
  have i: "lm_lines (sh_lm sh) = map ?L [0..<?n]" "lm_free (sh_lm sh) = [0..<?n]" "lm_full (sh_lm sh) = []"
    "lm_victim (sh_lm sh) = Some ?q" "lm_free_cnt (sh_lm sh) = of_nat ?n" "lm_full_cnt (sh_lm sh) = 0" "lm_victim_cnt (sh_lm sh) = 0"
    and eq: "sh = sh0\<lparr>sh_lm := sh_lm sh\<rparr>"
    using assms(1) by (auto simp: init_lines_def Let_def pqueue_init_def split: if_splits)
  show "n_lines (sh_lm sh) = ?n" "lm_free (sh_lm sh) = [0..<?n]" "sh = sh0\<lparr>sh_lm := sh_lm sh\<rparr>" using i eq by simp_all
  have E: "pq_elems ?q = {}" by (simp add: pq_elems_def)
  have "queue_ok (sh_lm sh) ?q" using i
    by (simp add: queue_ok_def victim.handle_def pq_bound_def pq_part_def pq_shape_def pq_placed_def pq_elems_def)
  moreover have "marks_ok (lm_lines (sh_lm sh)) {} {}" using i by (simp add: marks_ok_def)
  moreover have "places_ok ?n (lm_free (sh_lm sh) @ lm_full (sh_lm sh)) {} {}" using i by (auto simp: places_ok_def)
  moreover have "counts_ok (lm_lines (sh_lm sh)) room {} (set (lm_free (sh_lm sh)))" using i assms(2) by (simp add: counts_ok_def)
  ultimately show "lm_ok room {} {} {} (sh_lm sh)"
    using i E unfolding lm_ok_def lines_ok_def by (intro conjI exI [of _ ?q]) simp_all
qed

text \<open>One more write pointer gets the first free line.\<close>

abbreviation first_page :: "nat \<Rightarrow> write_pointer" where
  "first_page c \<equiv> \<lparr>wp_curline = c, wp_ch = 0, wp_lun = 0, wp_pg = 0, wp_blk = c, wp_pl = 0\<rparr>"

lemma prepare_ok:
  assumes ok: "lm_ok room {} out {} (sh_lm sh)" and r: "prepare_write_pointer sh io = Inr sh'"
  obtains c rest where "lm_free (sh_lm sh) = c # rest" "lm_free (sh_lm sh') = rest" "lm_ok (room(c := 0)) {} (insert c out) {} (sh_lm sh')" "c \<notin> out"
    "sh' = set_wp io (first_page c) (sh\<lparr>sh_lm := sh_lm sh'\<rparr>)"
    "n_lines (sh_lm sh') = n_lines (sh_lm sh)"
proof (cases "lm_free (sh_lm sh)")
  case Nil
  then show thesis using r by (simp add: prepare_write_pointer_def get_next_free_line_def bindR_eq_Inr)
next
  case (Cons c rest)
  obtain lm1 where a: "get_next_free_line sh = Inr (c, sh\<lparr>sh_lm := lm1\<rparr>)" "lm_ok (room(c := 0)) {} (insert c out) {} lm1"
    "lm_lines lm1 = lm_lines (sh_lm sh)" "lm_free lm1 = rest" "c \<notin> out" "c < n_lines (sh_lm sh)"
    using ok Cons by (rule alloc_ok)
  have cl: "c < n_lines lm1" "c \<notin> set (lm_free lm1)" using a(3,6) lm_ok_places [OF a(2)] by auto
  note cc = lm_ok_counts [OF a(2) cl(1)]
  let ?lm2 = "set_line c (\<lambda>l. l\<lparr>ln_map := is_map_io io\<rparr>) lm1"
  have "lm_ok (room(c := 0)) {} (insert c out) {} ?lm2" using cc cl by (intro lm_ok_set_line [OF a(2)]) auto
  moreover have "sh' = set_wp io (first_page c) (sh\<lparr>sh_lm := ?lm2\<rparr>)"
    using r a(1) cl(1) cc(5) by (auto simp: prepare_write_pointer_def bindR_eq_Inr line_of_def Let_def)
  ultimately show thesis using a(3-6) Cons by (intro that) simp_all
qed

lemma conv_init_lines:
  assumes r: "init_lines True (Some mem) sh0 = Inr sh1" "prepare_write_pointer sh1 USER_IO = Inr sh2" "prepare_write_pointer sh2 MAP_IO = Inr sh3"
      "prepare_write_pointer sh3 GC_MAP_IO = Inr sh4" "prepare_write_pointer sh4 GC_IO = Inr sh5"
    and g: "addr_ok (sh_spp sh0)" "line_cap sh0 < 2 ^ 31"
    and l: "\<not> v_spin sh0" "\<not> inv_spin sh0" "\<not> lm_spin sh0"
  shows "shard_ok sh5 {}" "sh_spp sh5 = sh_spp sh0" "sh_build sh5 = sh_build sh0" "map_spin sh5 = map_spin sh0" "sh_wp sh5 = first_page 0"
    "sh_ssd sh5 = sh_ssd sh0"
proof -
  let ?room = "\<lambda>_ :: nat. line_cap sh0"
  note i1 = init_lines_ok [OF r(1) refl]
  obtain c1 r1 where p1: "lm_free (sh_lm sh1) = c1 # r1" "lm_free (sh_lm sh2) = r1" "lm_ok (?room(c1 := 0)) {} (insert c1 {}) {} (sh_lm sh2)" "c1 \<notin> {}"
    "sh2 = set_wp USER_IO (first_page c1) (sh1\<lparr>sh_lm := sh_lm sh2\<rparr>)" "n_lines (sh_lm sh2) = n_lines (sh_lm sh1)"
    using i1(1) r(2) by (rule prepare_ok)
  obtain c2 r2 where p2: "lm_free (sh_lm sh2) = c2 # r2" "lm_free (sh_lm sh3) = r2"
    "lm_ok (?room(c1 := 0, c2 := 0)) {} (insert c2 (insert c1 {})) {} (sh_lm sh3)" "c2 \<notin> insert c1 {}"
    "sh3 = set_wp MAP_IO (first_page c2) (sh2\<lparr>sh_lm := sh_lm sh3\<rparr>)" "n_lines (sh_lm sh3) = n_lines (sh_lm sh2)"
    using p1(3) r(3) by (rule prepare_ok)
  obtain c3 r3 where p3: "lm_free (sh_lm sh3) = c3 # r3" "lm_free (sh_lm sh4) = r3"
    "lm_ok (?room(c1 := 0, c2 := 0, c3 := 0)) {} (insert c3 (insert c2 (insert c1 {}))) {} (sh_lm sh4)" "c3 \<notin> insert c2 (insert c1 {})"
    "sh4 = set_wp GC_MAP_IO (first_page c3) (sh3\<lparr>sh_lm := sh_lm sh4\<rparr>)" "n_lines (sh_lm sh4) = n_lines (sh_lm sh3)"
    using p2(3) r(4) by (rule prepare_ok)
  obtain c4 r4 where p4: "lm_free (sh_lm sh4) = c4 # r4" "lm_free (sh_lm sh5) = r4"
    "lm_ok (?room(c1 := 0, c2 := 0, c3 := 0, c4 := 0)) {} (insert c4 (insert c3 (insert c2 (insert c1 {})))) {} (sh_lm sh5)"
    "c4 \<notin> insert c3 (insert c2 (insert c1 {}))"
    "sh5 = set_wp GC_IO (first_page c4) (sh4\<lparr>sh_lm := sh_lm sh5\<rparr>)" "n_lines (sh_lm sh5) = n_lines (sh_lm sh4)"
    using p3(3) r(5) by (rule prepare_ok)
  have f1: "wps sh1 = wps sh0" "sh_ssd sh1 = sh_ssd sh0" "sh_build sh1 = sh_build sh0" "v_spin sh1 = v_spin sh0" "inv_spin sh1 = inv_spin sh0"
    "lm_spin sh1 = lm_spin sh0" "map_spin sh1 = map_spin sh0" by (subst i1(3), simp)+
  have f2: "wps sh2 = (wps sh1)[0 := first_page c1]" "sh_ssd sh2 = sh_ssd sh1" "sh_build sh2 = sh_build sh1" "v_spin sh2 = v_spin sh1"
    "inv_spin sh2 = inv_spin sh1" "lm_spin sh2 = lm_spin sh1" "map_spin sh2 = map_spin sh1"
    by (subst p1(5), simp add: set_wp_wps wp_index_def)+
  have f3: "wps sh3 = (wps sh2)[1 := first_page c2]" "sh_ssd sh3 = sh_ssd sh2" "sh_build sh3 = sh_build sh2" "v_spin sh3 = v_spin sh2"
    "inv_spin sh3 = inv_spin sh2" "lm_spin sh3 = lm_spin sh2" "map_spin sh3 = map_spin sh2"
    by (subst p2(5), simp add: set_wp_wps wp_index_def)+
  have f4: "wps sh4 = (wps sh3)[3 := first_page c3]" "sh_ssd sh4 = sh_ssd sh3" "sh_build sh4 = sh_build sh3" "v_spin sh4 = v_spin sh3"
    "inv_spin sh4 = inv_spin sh3" "lm_spin sh4 = lm_spin sh3" "map_spin sh4 = map_spin sh3"
    by (subst p3(5), simp add: set_wp_wps wp_index_def)+
  have f5: "wps sh5 = (wps sh4)[2 := first_page c4]" "sh_ssd sh5 = sh_ssd sh4" "sh_build sh5 = sh_build sh4" "v_spin sh5 = v_spin sh4"
    "inv_spin sh5 = inv_spin sh4" "lm_spin sh5 = lm_spin sh4" "map_spin sh5 = map_spin sh4"
    by (subst p4(5), simp add: set_wp_wps wp_index_def)+
  show fr: "sh_spp sh5 = sh_spp sh0" "sh_build sh5 = sh_build sh0" "map_spin sh5 = map_spin sh0" "sh_ssd sh5 = sh_ssd sh0"
    using f1 f2 f3 f4 f5 by simp_all
  have W: "wps sh5 = [first_page c1, first_page c2, first_page c4, first_page c3]"
    unfolding f5 f4 f3 f2 f1 by (simp add: wps_def numeral_eq_Suc)
  have "c1 = 0" using p1(1) i1(4) by (simp add: upt_eq_Cons_conv)
  then show "sh_wp sh5 = first_page 0" using W by (simp add: wps_def)
  have C: "set (cur_lines sh5) = insert c4 (insert c3 (insert c2 (insert c1 {})))" "distinct (cur_lines sh5)"
    using W p2(4) p3(4) p4(4) by auto
  note gb = geom_bounds [OF addr_okD(1) [OF g(1)]]
  have wo: "\<forall>w\<in>set (wps sh5). wp_ok (sh_spp sh5) w \<and> line_rank (sh_spp sh5) (wp_digits (sh_spp sh5) w) = 0"
    using gb(1-3,5) unfolding W fr by (simp add: wp_ok_def wp_digits_def digits_ok_def line_rank_def)
  have "(?room(c1 := 0, c2 := 0, c3 := 0, c4 := 0)) i \<le> room_of sh5 i" for i
  proof (cases "i \<in> set (cur_lines sh5)")
    case True
    then obtain w where w: "w \<in> set (wps sh5)" "i = wp_curline w" by auto
    then have "room_of sh5 i = 0" using room_of_cur [OF C(2) w(1)] wo by simp
    then show ?thesis using True C(1) by auto
  next
    case False
    then show ?thesis using room_of_other [OF False] C(1) fr by simp
  qed
  then have "lm_ok (room_of sh5) {} (set (cur_lines sh5) \<union> {}) {} (sh_lm sh5)" using lm_ok_room [OF p4(3)] C(1) by simp
  moreover have "n_lines (sh_lm sh5) = blks_per_pl (sh_spp sh5)" using p1(6) p2(6) p3(6) p4(6) i1(2) fr by simp
  ultimately show "shard_ok sh5 {}"
    using g l C wo fr f1 f2 f3 f4 f5 unfolding shard_ok_def by simp
qed

text \<open>The shard is complete once page 0 has been taken and written off.\<close>

lemma conv_init_ok:
  assumes r: "conv_init_ftl True (Some mem) cpp s sh0 = Inr sh"
    and g: "addr_ok (ssd_sp s)" "int (pgs_per_line (ssd_sp s) * sh_gpp sh0) < 2 ^ 31" "1 < pgs_per_line (ssd_sp s)"
    and l: "\<not> v_spin sh0" "\<not> inv_spin sh0" "\<not> lm_spin sh0" "\<not> map_spin sh0"
  shows "shard_ok sh {} \<and> \<not> map_spin sh \<and> sh_spp sh = ssd_sp s"
proof -
  let ?spp = "ssd_sp s" and ?sh = "sh0\<lparr>sh_cp := cpp, sh_ssd := s\<rparr>"
  obtain sh1 sh2 sh3 sh4 sh5 cur pgidx b7 sh7 sh8 sh9 where
    i: "init_lines True (Some mem) ?sh = Inr sh1" "prepare_write_pointer sh1 USER_IO = Inr sh2" "prepare_write_pointer sh2 MAP_IO = Inr sh3"
      "prepare_write_pointer sh3 GC_MAP_IO = Inr sh4" "prepare_write_pointer sh4 GC_IO = Inr sh5"
    and n: "get_new_page (demand_init_grains (init_write_flow_control sh5)) USER_IO = Inr cur" "pgidx = 0"
      "advance_write_pointer (demand_init_grains (init_write_flow_control sh5)) USER_IO = Inr (b7, sh7)" "mark_page_valid sh7 cur = Inr sh8"
      "mark_grain_valid sh8 (PPA_TO_PGA (sh_build sh8) pgidx 0) (sh_gpp sh8) = Inr sh9"
      "mark_grain_invalid sh9 (PPA_TO_PGA (sh_build sh9) pgidx 0) (sh_gpp sh9) = Inr sh"
    using r unfolding conv_init_ftl_def Let_def by (auto elim!: bindR_InrE)
  define sh6 where "sh6 = demand_init_grains (init_write_flow_control sh5)"
  have c: "shard_ok sh5 {}" "sh_spp sh5 = ?spp" "sh_build sh5 = sh_build sh0" "map_spin sh5 = map_spin sh0" "sh_wp sh5 = first_page 0"
    using conv_init_lines [OF i] g(1,2) l by simp_all
  have f6: "sh_lm sh6 = sh_lm sh5" "sh_spp sh6 = sh_spp sh5" "sh_build sh6 = sh_build sh5" "wps sh6 = wps sh5" "v_spin sh6 = v_spin sh5"
    "inv_spin sh6 = inv_spin sh5" "lm_spin sh6 = lm_spin sh5" "map_spin sh6 = map_spin sh5" "sh_wp sh6 = sh_wp sh5"
    by (simp_all add: sh6_def demand_init_grains_def init_write_flow_control_def wps_def Let_def)
  have ok6: "shard_ok sh6 {}" "\<not> map_spin sh6" using c(1,4) l(4) f6 shard_ok_cong [of sh6 sh5 "{}"] by simp_all
  note s6 = shard_okD [OF ok6(1)]
  have w6: "get_wp sh6 USER_IO = Inr (first_page 0)" using c(5) f6 by (simp add: get_wp_def)
  have d0: "wp_digits (sh_spp sh6) (first_page 0) = (0, 0, 0, 0)" by (simp add: wp_digits_def)
  have dok: "digits_ok ?spp (0, 0, 0, 0)" "line_rank ?spp (0, 0, 0, 0) = 0"
    using geom_bounds(1,2,3,5) [OF addr_okD(1) [OF g(1)]] by (simp_all add: digits_ok_def line_rank_def)
  obtain e where e: "odometer ?spp (0, 0, 0, 0) = Some e" "line_rank ?spp e = 1"
    using odometer_step [OF addr_okD(1) [OF g(1)] dok(1)] dok(2) g(3) by (cases "odometer ?spp (0, 0, 0, 0)") auto
  then have e6: "odometer (sh_spp sh6) (wp_digits (sh_spp sh6) (first_page 0)) = Some e" using d0 f6 c(2) by simp
  obtain sh7' w' where a: "advance_write_pointer sh6 USER_IO = Inr (True, sh7')" "shard_ok sh7' {}" "get_wp sh7' USER_IO = Inr w'"
    "wp_curline w' = wp_curline (first_page 0)" "wp_digits (sh_spp sh7') w' = e" "sh_lm sh7' = sh_lm sh6" "sh_ssd sh7' = sh_ssd sh6" "\<not> map_spin sh7'"
    "sh_build sh7' = sh_build sh6"
    using ok6 w6 e6 by (rule advance_within)
  then have sh7: "sh7' = sh7" using n(3) by (simp add: sh6_def)
  have f8: "shard_ok sh8 {}" "map_spin sh8 = map_spin sh7" "sh_spp sh8 = sh_spp sh7"
    using page_state_ok(1) [OF _ n(4)] a(2) sh7 by simp_all
  have g8: "sh_lm sh8 = sh_lm sh7" "sh_build sh8 = sh_build sh7" "wps sh8 = wps sh7"
    using n(4) by (auto simp: mark_page_valid_def bindR_eq_Inr)
  have spp: "sh_spp sh8 = ?spp" "sh_spp sh7 = ?spp" using f8(3) a(7) sh7 f6(2) c(2) by simp_all
  note s8 = shard_okD [OF f8(1)]
  have gi: "G_IDX b (PPA_TO_PGA b 0 0) = 0" "PPA_TO_PGA b 0 0 = 0" for b by (simp_all add: G_IDX_def PPA_TO_PGA_def)
  have "page_number ?spp 0 0 0 0 = 0" by (simp add: page_number_def)
  then obtain p0 where p0: "ppa_to_struct ?spp 0 = Inr p0" "g_blk p0 = 0"
    using ppa_to_struct_digits [OF g(1), of 0 0 0 0] geom_bounds [OF addr_okD(1) [OF g(1)]] geom_products [OF addr_okD(1) [OF g(1)]]
    by auto
  have w0: "first_page 0 \<in> set (wps sh6)" "w' \<in> set (wps sh8)" using w6 a(3) sh7 g8(3) by (auto simp: get_wp_def wps_def)
  have n0: "0 < n_lines (sh_lm sh6)" "0 \<in> set (cur_lines sh8)"
    using lm_ok_places [OF s6(11)] w0 a(4) by force+
  have "room_of sh6 0 = 0" using room_of_cur [OF s6(5) w0(1)] d0 dok(2) f6(2) c(2) by simp
  then have v0: "ln_vgc (line_of sh8 0) = 0" "ln_igc (line_of sh8 0) = 0"
    using lm_ok_counts(2-4) [OF s6(11) n0(1)] g8(1) a(6) sh7 by (simp_all add: line_of_def)
  have "room_of sh8 0 = int (sh_gpp sh8)" using room_of_cur [OF s8(5) w0(2)] a(4,5) e(2) spp sh7 by simp
  moreover have "0 \<notin> set (lm_free (sh_lm sh8))" using lm_ok_places [OF s8(11)] n0(2) by auto
  ultimately have ok9: "shard_ok sh9 {}" "map_spin sh9 = map_spin sh8" "sh_spp sh9 = sh_spp sh8"
    using mark_grain_valid_ok [OF f8(1) n(5), of p0] v0 p0 spp gi n(2) by simp_all
  have "shard_ok sh {} \<and> map_spin sh = map_spin sh9 \<and> sh_spp sh = sh_spp sh9"
    by (rule mark_grain_invalid_ok [OF ok9(1) n(6), of p0]) (use ok9(3) spp p0(1) gi n(2) in simp_all)
  then show ?thesis using ok9 f8 a(8) sh7 spp by simp
qed

subsection \<open>The shard is built on a fresh device\<close>

lemma get_upd_blk:
  assumes "get_blk s p = Inr b"
  shows "get_blk (upd_blk p f s) p = Inr (f b)"
  using assms by (auto simp: get_blk_def get_pl_def get_lun_def get_ch_def upd_blk_def upd_plane_def set_lun_def bindR_eq_Inr split: if_splits)

lemma get_pg_blk: "get_pg s p = Inr g \<longleftrightarrow> (\<exists>b. get_blk s p = Inr b \<and> g_pg p < length (nb_pg b) \<and> g = nb_pg b ! g_pg p)"
  by (auto simp: get_pg_def bindR_eq_Inr)

lemma fresh_blk:
  assumes "ssd_init pm spp = Inr s" "g_ch p < nchs spp" "g_lun p < luns_per_ch spp" "g_pl p < pls_per_lun spp" "g_blk p < blks_per_pl spp"
  shows "get_blk s p = Inr (ssd_init_nand_blk spp)" "ssd_sp s = spp"
  using assms by (auto simp: ssd_init_def ssd_init_ch_def bindR_eq_Inr get_blk_def get_pl_def get_lun_def get_ch_def
      ssd_init_nand_lun_def ssd_init_nand_plane_def)

lemma wp_index_less: "wp_index USER_IO < 4" "wp_index MAP_IO < 4" "wp_index GC_IO < 4" "wp_index GC_MAP_IO < 4"
  by (simp_all add: wp_index_def)

lemma prepare_total:
  assumes "lm_ok room {} out {} (sh_lm sh)" "lm_free (sh_lm sh) = c # rest" "wp_index io < 4"
  obtains sh' where "prepare_write_pointer sh io = Inr sh'" "lm_ok (room(c := 0)) {} (insert c out) {} (sh_lm sh')" "lm_free (sh_lm sh') = rest"
proof -
  have "wp_index io < length (wps sh)" using assms(3) by (simp add: wps_def)
  then obtain w where "get_wp sh io = Inr w" by (auto simp: get_wp_nth)
  then obtain sh' where r: "prepare_write_pointer sh io = Inr sh'"
    using assms(2) by (auto simp: prepare_write_pointer_def get_next_free_line_def Let_def)
  show thesis by (rule prepare_ok [OF assms(1) r]) (use that [OF r] assms(2) in auto)
qed

lemma first_page_valid:
  assumes "shard_ok sh held" "get_blk (sh_ssd sh) p = Inr b" "g_pg p < length (nb_pg b)" "np_status (nb_pg b ! g_pg p) = PG_FREE"
  obtains sh' b' where "mark_page_valid sh p = Inr sh'" "get_blk (sh_ssd sh') p = Inr b'" "g_pg p < length (nb_pg b')"
    "np_status (nb_pg b' ! g_pg p) = PG_VALID" "nb_vgc b' = nb_vgc b" "nb_igc b' = nb_igc b" "sh' = sh\<lparr>sh_ssd := sh_ssd sh'\<rparr>" "sh_spp sh' = sh_spp sh"
proof -
  let ?s = "upd_pg p (\<lambda>g. g\<lparr>np_status := PG_VALID\<rparr>) (sh_ssd sh)"
  have "mark_page_valid sh p = Inr (sh\<lparr>sh_ssd := ?s\<rparr>)"
    using assms(2-4) by (simp add: mark_page_valid_def get_pg_def)
  then show thesis
    using assms(2,3) that [of "sh\<lparr>sh_ssd := ?s\<rparr>"] get_upd_blk [OF assms(2)] by (simp add: upd_pg_def)
qed

lemma whole_page_invalid:
  assumes sh: "\<not> inv_spin sh" "\<not> lm_spin sh" "1 < pgs_per_line (sh_spp sh)" "g_blk p < n_lines (sh_lm sh)"
    and b: "get_blk (sh_ssd sh) p = Inr b" "g_pg p < length (nb_pg b)" "np_status (nb_pg b ! g_pg p) = PG_VALID"
      "nb_igc b = 0" "nb_vgc b = int (sh_gpp sh)" "0 < pgs_per_blk (sh_spp sh)"
    and l: "ln_igc (line_of sh (g_blk p)) = 0" "ln_vgc (line_of sh (g_blk p)) = int (sh_gpp sh)" "ln_pos (line_of sh (g_blk p)) = 0"
    and g: "grain mod sh_gpp sh = 0" "sh_build sh = Original \<longrightarrow> sh_grain_bitmap sh grain" "sh_pg_inv_cnt sh page = 0"
      "ppa2pgidx (sh_spp sh) p = Inr page"
  shows "\<exists>sh'. mark_invalid_loop sh p page grain (sh_gpp sh) False = Inr sh'"
proof -
  have gp: "0 < sh_gpp sh" using grain_per_page_pos(1) .
  have cap: "int (sh_gpp sh) < int (pgs_per_line (sh_spp sh) * sh_gpp sh)" "0 < int (pgs_per_blk (sh_spp sh) * sh_gpp sh)"
    "int (sh_gpp sh) \<le> int (pgs_per_blk (sh_spp sh) * sh_gpp sh)" using sh(3) gp b(6) by simp_all
  have "\<exists>sh'. invalidate_page sh p page grain (sh_gpp sh) False = Inr (False, 0, sh')"
    using sh b l g cap gp get_upd_blk [OF b(1)]
    by (cases "sh_build sh") (simp_all add: invalidate_page_def count_invalid_def lock_inv_def Let_def get_pg_def get_line_def line_of_def drop_line_def lock_lm_def
        lower_line_def clear_grain_def mark_page_invalid_def set_line_def)
  then show ?thesis by (auto simp: mark_invalid_loop.simps [of sh])
qed

lemma conv_init_total:
  assumes s: "ssd_init pm spp = Inr s" and g: "addr_ok spp" "int (pgs_per_line spp * sh_gpp sh0) < 2 ^ 31" "1 < pgs_per_line spp" "4 \<le> blks_per_pl spp"
    and l: "\<not> v_spin sh0" "\<not> inv_spin sh0" "\<not> lm_spin sh0" "\<not> map_spin sh0"
  shows "\<exists>sh. conv_init_ftl True (Some mem) cpp s sh0 = Inr sh"
proof -
  let ?sh = "sh0\<lparr>sh_cp := cpp, sh_ssd := s\<rparr>" and ?p = "page_at spp 0 (0, 0, 0, 0)"
  note gg = addr_okD(1) [OF g(1)]
  note gb = geom_bounds [OF gg]
  have sp: "ssd_sp s = spp" and blk: "get_blk s ?p = Inr (ssd_init_nand_blk spp)"
    using fresh_blk [OF s, of ?p] gb by (simp_all add: page_at_def)
  obtain sh1 where i1: "init_lines True (Some mem) ?sh = Inr sh1" using gb(13) sp by (simp add: init_lines_def Let_def)
  note j1 = init_lines_ok [OF i1 refl]
  obtain r where f1: "lm_free (sh_lm sh1) = 0 # 1 # 2 # 3 # r" using j1(4) g(4) sp by (simp add: upt_rec numeral_eq_Suc)
  obtain sh2 where i2: "prepare_write_pointer sh1 USER_IO = Inr sh2" "lm_ok ((\<lambda>_. line_cap ?sh)(0 := 0)) {} (insert 0 {}) {} (sh_lm sh2)"
    "lm_free (sh_lm sh2) = 1 # 2 # 3 # r" using j1(1) f1 by (rule prepare_total) (rule wp_index_less)
  obtain sh3 where i3: "prepare_write_pointer sh2 MAP_IO = Inr sh3" "lm_ok ((\<lambda>_. line_cap ?sh)(0 := 0, 1 := 0)) {} (insert 1 (insert 0 {})) {} (sh_lm sh3)"
    "lm_free (sh_lm sh3) = 2 # 3 # r" using i2(2,3) by (rule prepare_total) (rule wp_index_less)
  obtain sh4 where i4: "prepare_write_pointer sh3 GC_MAP_IO = Inr sh4"
    "lm_ok ((\<lambda>_. line_cap ?sh)(0 := 0, 1 := 0, 2 := 0)) {} (insert 2 (insert 1 (insert 0 {}))) {} (sh_lm sh4)"
    "lm_free (sh_lm sh4) = 3 # r" using i3(2,3) by (rule prepare_total) (rule wp_index_less)
  obtain sh5 where i5: "prepare_write_pointer sh4 GC_IO = Inr sh5"
    using i4(2,3) by (rule prepare_total) (rule wp_index_less)
  have c: "shard_ok sh5 {}" "sh_ssd sh5 = s" "sh_build sh5 = sh_build sh0" "map_spin sh5 = map_spin sh0" "sh_wp sh5 = first_page 0"
    using conv_init_lines [OF i1 i2(1) i3(1) i4(1) i5] g(1,2) l sp by simp_all
  define sh6 where "sh6 = demand_init_grains (init_write_flow_control sh5)"
  have f6: "sh_lm sh6 = sh_lm sh5" "sh_ssd sh6 = s" "sh_build sh6 = sh_build sh0" "wps sh6 = wps sh5" "v_spin sh6 = v_spin sh5"
    "inv_spin sh6 = inv_spin sh5" "lm_spin sh6 = lm_spin sh5" "map_spin sh6 = map_spin sh0" "sh_wp sh6 = first_page 0"
    "sh_grain_bitmap sh6 = (\<lambda>_. False)" "sh_pg_inv_cnt sh6 = (\<lambda>_. 0)"
    using c by (simp_all add: sh6_def demand_init_grains_def init_write_flow_control_def wps_def Let_def)
  have ok6: "shard_ok sh6 {}" "\<not> map_spin sh6" using c l(4) f6 shard_ok_cong [of sh6 sh5 "{}"] by simp_all
  note s6 = shard_okD [OF ok6(1)]
  have w6: "get_wp sh6 USER_IO = Inr (first_page 0)" using f6 by (simp add: get_wp_def)
  have d0: "wp_digits spp (first_page 0) = (0, 0, 0, 0)" by (simp add: wp_digits_def)
  have wo: "wp_ok spp (first_page 0)" using d0 gb(1,2,3,5) by (simp add: wp_ok_def digits_ok_def)
  have np: "get_new_page sh6 USER_IO = Inr ?p"
    using get_new_page_at [of sh6, OF _ w6] wo d0 f6(2) g(1,4) sp by simp
  have "digits_ok spp (0, 0, 0, 0)" "line_rank spp (0, 0, 0, 0) = 0" using gb(1-3,5) by (simp_all add: digits_ok_def line_rank_def)
  then obtain e where e: "odometer spp (wp_digits spp (first_page 0)) = Some e"
    using odometer_step(2) [OF gg, of "(0, 0, 0, 0)"] g(3) d0 by (cases "odometer spp (0, 0, 0, 0)") auto
  obtain w' where w': "step_wp spp (first_page 0) = Inr (w', False)" using step_wp_odometer(1) [OF gg wo e] by blast
  define sh7 where "sh7 = set_wp USER_IO w' (count_page USER_IO sh6)"
  have adv: "advance_write_pointer sh6 USER_IO = Inr (True, sh7)"
    using w' w6 f6 sp by (simp add: advance_write_pointer_def sh7_def)
  have ok7: "shard_ok sh7 {}" using advance_ok [OF ok6 adv] by simp
  have f7: "sh_lm sh7 = sh_lm sh6" "sh_ssd sh7 = s" "sh_build sh7 = sh_build sh0" "sh_grain_bitmap sh7 = (\<lambda>_. False)" "sh_pg_inv_cnt sh7 = (\<lambda>_. 0)"
    using f6 by (simp_all add: sh7_def set_wp_def count_page_def)
  have w0: "first_page 0 \<in> set (wps sh6)" using w6 by (auto simp: get_wp_def wps_def)
  have n0: "0 < n_lines (sh_lm sh6)" using lm_ok_places [OF s6(11)] w0 by force
  have "room_of sh6 0 = 0" using room_of_cur [OF s6(5) w0] d0 f6(2) sp \<open>line_rank spp (0, 0, 0, 0) = 0\<close> by simp
  then have v0: "ln_vgc (lm_lines (sh_lm sh6) ! 0) = 0" "ln_igc (lm_lines (sh_lm sh6) ! 0) = 0" "ln_pos (lm_lines (sh_lm sh6) ! 0) = 0"
    using lm_ok_counts [OF s6(11) n0] by auto
  have b0: "get_blk (sh_ssd sh7) ?p = Inr (ssd_init_nand_blk spp)" "g_pg ?p < length (nb_pg (ssd_init_nand_blk spp))"
    "np_status (nb_pg (ssd_init_nand_blk spp) ! g_pg ?p) = PG_FREE" "0 < pgs_per_blk spp"
    using blk f7 geom_products(4) [OF gg] by (simp_all add: ssd_init_nand_blk_def ssd_init_nand_page_def page_at_def)
  obtain sh8 b8 where m8: "mark_page_valid sh7 ?p = Inr sh8" "get_blk (sh_ssd sh8) ?p = Inr b8" "g_pg ?p < length (nb_pg b8)"
    "np_status (nb_pg b8 ! g_pg ?p) = PG_VALID" "nb_vgc b8 = nb_vgc (ssd_init_nand_blk spp)" "nb_igc b8 = nb_igc (ssd_init_nand_blk spp)"
    "sh8 = sh7\<lparr>sh_ssd := sh_ssd sh8\<rparr>" "sh_spp sh8 = sh_spp sh7"
    using ok7 b0(1-3) by (rule first_page_valid)
  have f8: "sh_lm sh8 = sh_lm sh6" "sh_build sh8 = sh_build sh0" "sh_grain_bitmap sh8 = (\<lambda>_. False)" "sh_pg_inv_cnt sh8 = (\<lambda>_. 0)"
    "\<not> v_spin sh8" "\<not> lm_spin sh8" "\<not> inv_spin sh8" "sh_spp sh8 = spp"
    using f7 m8(8) sp shard_okD(8-10) [OF ok7] by (subst m8(7), simp)+
  have b8: "nb_vgc b8 = 0" "nb_igc b8 = 0" using m8(5,6) by (simp_all add: ssd_init_nand_blk_def)
  have gi: "G_IDX b (PPA_TO_PGA b 0 0) = 0" "PPA_TO_PGA b 0 0 = 0" for b by (simp_all add: G_IDX_def PPA_TO_PGA_def)
  have pn: "page_number spp 0 0 0 0 = 0" by (simp add: page_number_def)
  then have ps: "ppa_to_struct spp 0 = Inr ?p"
    using ppa_to_struct_digits [OF g(1), of 0 0 0 0] gb(3,5,8) b0(4) by (simp add: page_at_def)
  have pi: "ppa2pgidx spp ?p = Inr 0"
    using ppa2pgidx_number [OF g(1), of ?p] pn gb b0(4) by (simp add: valid_ppaD page_at_def)
  let ?sh9 = "sh8\<lparr>v_spin := False, sh_ssd := upd_blk ?p (\<lambda>b. b\<lparr>nb_vgc := nb_vgc b + int (sh_gpp sh0)\<rparr>) (sh_ssd sh8), lm_spin := False,
    sh_lm := set_line 0 (\<lambda>x. x\<lparr>ln_vgc := ln_vgc x + int (sh_gpp sh0)\<rparr>) (sh_lm sh8),
    sh_grain_bitmap := (if sh_build sh0 = Original then (sh_grain_bitmap sh8)(0 := True) else sh_grain_bitmap sh8)\<rparr>"
  have "mark_grain_valid sh8 0 (sh_gpp sh8) = Inr ?sh9"
    using f8 m8(2-4) b8 ps gi n0 v0 b0(4)
    by (cases "sh_build sh0") (simp_all add: mark_grain_valid_def lock_v_def lock_lm_def bump_line_def get_line_def line_of_def get_pg_def
        G_IDX_def page_at_def Let_def)
  moreover have "\<exists>sh'. mark_grain_invalid ?sh9 0 (sh_gpp ?sh9) = Inr sh'"
  proof -
    have "\<exists>sh'. mark_invalid_loop ?sh9 ?p 0 0 (sh_gpp ?sh9) False = Inr sh'"
      using f8 m8(2-4) b8 n0 v0 b0(4) pi g(3) get_upd_blk [OF m8(2)]
      by (intro whole_page_invalid [where b = "b8\<lparr>nb_vgc := nb_vgc b8 + int (sh_gpp sh0)\<rparr>"]) (simp_all add: line_of_def page_at_def)
    then show ?thesis using f8 ps gi by (simp add: mark_grain_invalid_def G_IDX_def)
  qed
  ultimately obtain sh' where "mark_grain_valid sh8 0 (sh_gpp sh8) = Inr ?sh9" "mark_grain_invalid ?sh9 0 (sh_gpp ?sh9) = Inr sh'" by blast
  then have "conv_init_ftl True (Some mem) cpp s sh0 = Inr sh'"
    unfolding conv_init_ftl_def using i1 i2(1) i3(1) i4(1) i5 np adv m8(1) pi f6(2) sp gi(2)
    by (simp add: Let_def sh6_def [symmetric])
  then show ?thesis ..
qed

end
