(* ===== verification/FtlReach.thy ===== *)
theory FtlReach
  imports FtlSteps
begin

text \<open>
  The reachable states of a shard and the properties of line management that hold in all of them.
\<close>

subsection \<open>Runs of the FTL\<close>

text \<open>A booted shard: \<^verbatim>\<open>conv_init_ftl\<close> on a fresh device, all allocations granted, all locks free.\<close>

definition ftl_booted :: "demand_shard \<Rightarrow> bool" where
  "ftl_booted sh \<longleftrightarrow> (\<exists>pm s mem cpp sh0. ssd_init pm (ssd_sp s) = Inr s \<and> addr_ok (ssd_sp s) \<and> 1 < pgs_per_line (ssd_sp s) \<and>
     int (pgs_per_line (ssd_sp s) * sh_gpp sh0) < 2 ^ 31 \<and> \<not> v_spin sh0 \<and> \<not> inv_spin sh0 \<and> \<not> lm_spin sh0 \<and> \<not> map_spin sh0 \<and>
     conv_init_ftl True (Some mem) cpp s sh0 = Inr sh)"

text \<open>
  \<open>ftl_reach sh held lawful\<close>: \<open>sh\<close> arises from a booted shard by a sequence of FTL operations that return, in any
  order and with any arguments; \<open>held\<close> are the lines that victim selection has taken and that are not erased
  yet.  No operation is restricted.  \<open>lawful\<close> records whether every call so far respected three conditions that the
  source does not check:
  \<^item> \<open>valid_lawful\<close>: grains are marked valid only on a line that was handed out, and only as many as the pages
    handed out have room for (the callers write to pages they were given);
  \<^item> \<open>invalid_lawful\<close>: an invalidation that spans pages does not start on a line all of whose grains are valid.  The
    callers do not ensure this one: \<open>FtlFlaws\<close> shows what such a call does;
  \<^item> only a line taken by victim selection is freed (the collector frees the line it selected).
  Stores move \<^verbatim>\<open>offset\<close> freely.
\<close>

definition fits :: "demand_shard \<Rightarrow> nat \<Rightarrow> nat \<Rightarrow> bool" where
  "fits sh l len \<longleftrightarrow> l \<notin> set (lm_free (sh_lm sh)) \<and> ln_vgc (line_of sh l) + ln_igc (line_of sh l) + int len \<le> room_of sh l"

definition grain_line :: "demand_shard \<Rightarrow> nat \<Rightarrow> nat result" where
  "grain_line sh grain = bindR (ppa_to_struct (sh_spp sh) (G_IDX (sh_build sh) grain)) (\<lambda>p. Inr (g_blk p))"

definition valid_lawful :: "demand_shard \<Rightarrow> nat \<Rightarrow> nat \<Rightarrow> bool" where
  "valid_lawful sh grain len \<longleftrightarrow> (case grain_line sh grain of Inl _ \<Rightarrow> False | Inr l \<Rightarrow> fits sh l len)"

definition invalid_lawful :: "demand_shard \<Rightarrow> nat \<Rightarrow> nat \<Rightarrow> bool" where
  "invalid_lawful sh grain len \<longleftrightarrow> len \<le> sh_gpp sh - grain mod sh_gpp sh \<or>
     (case grain_line sh grain of Inl _ \<Rightarrow> False | Inr l \<Rightarrow> ln_vgc (line_of sh l) < line_cap sh)"

inductive ftl_reach :: "demand_shard \<Rightarrow> nat set \<Rightarrow> bool \<Rightarrow> bool" where
  boot: "ftl_booted sh \<Longrightarrow> ftl_reach sh {} True"
| advance: "ftl_reach sh held ok \<Longrightarrow> advance_write_pointer sh io = Inr (b, sh') \<Longrightarrow> ftl_reach sh' held ok"
| page_valid: "ftl_reach sh held ok \<Longrightarrow> mark_page_valid sh p = Inr sh' \<Longrightarrow> ftl_reach sh' held ok"
| page_invalid: "ftl_reach sh held ok \<Longrightarrow> mark_page_invalid sh p = Inr sh' \<Longrightarrow> ftl_reach sh' held ok"
| grain_valid: "ftl_reach sh held ok \<Longrightarrow> mark_grain_valid sh grain len = Inr sh' \<Longrightarrow>
    ftl_reach sh' held (ok \<and> valid_lawful sh grain len)"
| grain_invalid: "ftl_reach sh held ok \<Longrightarrow> mark_grain_invalid sh grain len = Inr sh' \<Longrightarrow>
    ftl_reach sh' held (ok \<and> invalid_lawful sh grain len)"
| select: "ftl_reach sh held ok \<Longrightarrow> select_victim_line sh = Inr (v, sh') \<Longrightarrow> ftl_reach sh' (held \<union> set_option v) ok"
| block_free: "ftl_reach sh held ok \<Longrightarrow> mark_block_free sh p = Inr sh' \<Longrightarrow> ftl_reach sh' held ok"
| offset: "ftl_reach sh held ok \<Longrightarrow> ftl_reach (sh\<lparr>sh_offset := off\<rparr>) held ok"
| line_free: "ftl_reach sh held ok \<Longrightarrow> mark_line_free sh p = Inr sh' \<Longrightarrow> ftl_reach sh' (held - {g_blk p}) (ok \<and> g_blk p \<in> held)"

lemma grain_lineE:
  assumes "grain_line sh grain = Inr l"
  obtains p where "ppa_to_struct (sh_spp sh) (G_IDX (sh_build sh) grain) = Inr p" "g_blk p = l"
  using assms by (auto simp: grain_line_def bindR_eq_Inr)

lemma grain_line_result: "mark_grain_invalid sh grain len = Inr sh' \<Longrightarrow> \<exists>l. grain_line sh grain = Inr l"
  by (auto simp: mark_grain_invalid_def grain_line_def Let_def bindR_eq_Inr)

lemma booted_ok:
  assumes "ftl_booted sh"
  shows "shard_ok sh {} \<and> \<not> map_spin sh"
proof -
  obtain s mem cpp sh0 where b: "conv_init_ftl True (Some mem) cpp s sh0 = Inr sh" "addr_ok (ssd_sp s)"
    "int (pgs_per_line (ssd_sp s) * sh_gpp sh0) < 2 ^ 31" "1 < pgs_per_line (ssd_sp s)"
    "\<not> v_spin sh0" "\<not> inv_spin sh0" "\<not> lm_spin sh0" "\<not> map_spin sh0"
    using assms unfolding ftl_booted_def by blast
  then show ?thesis using conv_init_ok by blast
qed

lemma reach_ok: "ftl_reach sh held ok \<Longrightarrow> ok \<Longrightarrow> shard_ok sh held \<and> \<not> map_spin sh"
proof (induction rule: ftl_reach.induct)
  case (boot sh)
  then show ?case using booted_ok by blast
next
  case (advance sh held ok io b sh')
  then show ?case using advance_ok by blast
next
  case (page_valid sh held ok p sh')
  then show ?case using page_state_ok(1) by metis
next
  case (page_invalid sh held ok p sh')
  then show ?case using page_state_ok(2) by metis
next
  case (grain_valid sh held ok grain len sh')
  obtain l where l: "grain_line sh grain = Inr l" "fits sh l len"
    using grain_valid.prems by (auto simp: valid_lawful_def split: sum.splits)
  obtain p where "ppa_to_struct (sh_spp sh) (G_IDX (sh_build sh) grain) = Inr p" "g_blk p = l" using l(1) by (rule grain_lineE)
  then show ?case using grain_valid mark_grain_valid_ok [of sh held grain len sh' p] l(2) by (simp add: fits_def)
next
  case (grain_invalid sh held ok grain len sh')
  obtain l where l: "grain_line sh grain = Inr l" using grain_line_result [OF grain_invalid.hyps(2)] by blast
  obtain p where p: "ppa_to_struct (sh_spp sh) (G_IDX (sh_build sh) grain) = Inr p" "g_blk p = l" using l by (rule grain_lineE)
  have "len \<le> sh_gpp sh - grain mod sh_gpp sh \<or> ln_vgc (line_of sh (g_blk p)) < line_cap sh"
    using grain_invalid.prems l p(2) by (simp add: invalid_lawful_def)
  then show ?case using mark_grain_invalid_ok [of sh held grain len sh' p] grain_invalid p(1) by simp
next
  case (select sh held ok v sh')
  then show ?case using select_result by blast
next
  case (block_free sh held ok p sh')
  then show ?case using mark_block_free_ok by metis
next
  case (offset sh held ok off)
  then show ?case using shard_ok_cong [of "sh\<lparr>sh_offset := off\<rparr>" sh held] by (simp add: wps_def)
next
  case (line_free sh held ok p sh')
  then have "shard_ok sh held" "g_blk p \<in> held" "\<not> map_spin sh" by simp_all
  then show ?case using line_free.hyps(2) by (auto elim: mark_line_free_ok)
qed

lemma lawful_ok: "ftl_reach sh held True \<Longrightarrow> shard_ok sh held \<and> \<not> map_spin sh"
  using reach_ok by blast

subsection \<open>Booting\<close>

lemma params_addr_ok:
  assumes "3 * 2 ^ 23 < cap" "cap \<le> 2 ^ 39"
  obtains spp where "ssd_init_params cap SSD_PARTITIONS = Inr spp" "addr_ok spp" "pgs_per_line spp = 2048" "4 \<le> blks_per_pl spp"
proof -
  have c: "0 < cap" "cap < 2 ^ 49" using assms by simp_all
  obtain spp where spp: "ssd_init_params cap SSD_PARTITIONS = Inr spp" "geom_ok spp" using ssd_init_params_ok [OF c] by blast
  let ?n = "div_round_up cap 8388608"
  have n: "cap \<le> ?n * 8388608" "?n * 8388608 < cap + 8388608" using div_round_up_bounds [of 8388608 cap] by simp_all
  have f: "blks_per_pl spp = ?n" "tt_pgs spp = 2048 * ?n" "pgs_per_line spp = 2048"
    using spp(1) by (auto simp: ssd_init_params_def Let_def config_defs div_round_up_def [of _ 32768])
  have "addr_ok spp" using spp(2) n f assms(2) by (simp add: addr_ok_def)
  then show thesis using that spp(1) f n assms(1) by simp
qed

lemma boots:
  assumes "3 * 2 ^ 23 < cap" "cap \<le> 2 ^ 39" "\<not> v_spin sh0" "\<not> inv_spin sh0" "\<not> lm_spin sh0" "\<not> map_spin sh0"
  shows "\<exists>spp s sh. ssd_init_params cap SSD_PARTITIONS = Inr spp \<and> ssd_init pm spp = Inr s \<and>
    conv_init_ftl True (Some mem) (conv_init_params b) s sh0 = Inr sh \<and> ftl_booted sh \<and> sh_spp sh = spp"
proof -
  obtain spp where spp: "ssd_init_params cap SSD_PARTITIONS = Inr spp" "addr_ok spp" "pgs_per_line spp = 2048" "4 \<le> blks_per_pl spp"
    using assms(1,2) by (rule params_addr_ok)
  obtain s where s: "ssd_init pm spp = Inr s" "ssd_sp s = spp" using ssd_init_ok [OF spp(1), of pm] by blast
  have "int (pgs_per_line spp * sh_gpp sh0) \<le> int (2048 * 64)" unfolding spp(3) using grain_per_page_pos(2) [of "sh_build sh0"] by linarith
  then have g: "int (pgs_per_line spp * sh_gpp sh0) < 2 ^ 31" "1 < pgs_per_line spp" using spp(3) by simp_all
  obtain sh where sh: "conv_init_ftl True (Some mem) (conv_init_params b) s sh0 = Inr sh"
    using conv_init_total [OF s(1) spp(2) g spp(4) assms(3-6)] by blast
  then have "ftl_booted sh" unfolding ftl_booted_def using s spp g assms(3-6) by blast
  moreover have "sh_spp sh = spp" using conv_init_ok [OF sh] s(2) spp(2) g assms(3-6) by simp
  ultimately show ?thesis using spp(1) s(1) sh by blast
qed

text \<open>
  \<^bold>\<open>C5.\<close>  The FTL boots.  On every disk of more than three lines and at most 512 GiB, computing the geometry, building
  the NAND device and building the shard on it pass all their assertions and return.
\<close>

theorem ftl_boots:
  assumes "3 * 2 ^ 23 < cap" "cap \<le> 2 ^ 39" "\<not> v_spin sh0" "\<not> inv_spin sh0" "\<not> lm_spin sh0" "\<not> map_spin sh0"
  shows "\<exists>spp s sh. ssd_init_params cap SSD_PARTITIONS = Inr spp \<and> ssd_init pm spp = Inr s \<and>
    conv_init_ftl True (Some mem) (conv_init_params b) s sh0 = Inr sh \<and> ftl_booted sh \<and> sh_spp sh = spp"
  using assms by (rule boots)

definition blank_shard :: demand_shard where
  "blank_shard = \<lparr>sh_build = Original, sh_ssd = \<lparr>ssd_sp = undefined, ssd_ch = [], ssd_pcie = blank_model,
       ssd_write_buffer = \<lparr>buf_size = 0, buf_remaining = 0, buf_lock = False\<rparr>, ssd_spin = False, ssd_adv_spin = False, ssd_reads = 0\<rparr>,
     sh_cp = conv_init_params Original, sh_wp = first_page 0, sh_map_wp = first_page 0, sh_gc_wp = first_page 0, sh_map_gc_wp = first_page 0,
     sh_lm = \<lparr>lm_lines = [], lm_free = [], lm_victim = None, lm_full = [], lm_tt_lines = 0, lm_free_cnt = 0, lm_victim_cnt = 0, lm_full_cnt = 0\<rparr>,
     sh_wfc = \<lparr>write_credits = 0, credits_to_refill = 0\<rparr>, sh_offset = 0, sh_oob = (\<lambda>_ _. 0), sh_grain_bitmap = (\<lambda>_. False),
     sh_pg_inv_cnt = (\<lambda>_. 0), v_spin = False, inv_spin = False, lm_spin = False, map_spin = False,
     gc_pgs_this_gc = 0, map_pgs_this_gc = 0, map_gc_pgs_this_gc = 0\<rparr>"

lemma blank_locks: "\<not> v_spin blank_shard" "\<not> inv_spin blank_shard" "\<not> lm_spin blank_shard" "\<not> map_spin blank_shard"
  by (simp_all add: blank_shard_def)

theorem ftl_boots_witness:
  "\<exists>spp s sh. ssd_init_params (2 ^ 36) SSD_PARTITIONS = Inr spp \<and> ssd_init blank_model spp = Inr s \<and>
    conv_init_ftl True (Some (\<lambda>_. 0)) (conv_init_params Plus) s blank_shard = Inr sh \<and> ftl_booted sh \<and> sh_spp sh = spp"
  by (rule ftl_boots) (simp_all add: blank_locks)

lemma booted_sample: "\<exists>sh spp. ftl_booted sh \<and> ssd_init_params (2 ^ 36) SSD_PARTITIONS = Inr spp \<and> sh_spp sh = spp"
  using boots [of "2 ^ 36" blank_shard blank_model "\<lambda>_. 0" Original, OF _ _ blank_locks] by auto

subsection \<open>Line accounting\<close>

text \<open>
  \<^bold>\<open>C1.\<close>  Line accounting.  In every state reached by a lawful run (the condition \<open>True\<close> of \<open>ftl_reach\<close>: grains are
  marked valid within the pages handed out, no invalidation that spans pages starts on a line all of whose grains are
  valid, and only selected victims are freed) the free list, the full list, the victim queue, the four lines
  under a write pointer and the lines held by the collector partition the lines of the device; the three
  counters count their list; a line's \<^verbatim>\<open>pos\<close> is its index in the victim queue, and 0 outside it; and of
  every line the valid and invalid grains are counted without going negative and fit the line, a queued or held
  line has something to reclaim, and a free line is empty.
\<close>

theorem ftl_line_accounting:
  assumes "ftl_reach sh held True"
  shows "\<exists>q. lm_victim (sh_lm sh) = Some q \<and>
    distinct (lm_free (sh_lm sh) @ lm_full (sh_lm sh) @ cur_lines sh @ map (pq_d q) [1..<pq_size q]) \<and>
    held \<inter> set (lm_free (sh_lm sh) @ lm_full (sh_lm sh) @ cur_lines sh @ map (pq_d q) [1..<pq_size q]) = {} \<and>
    held \<union> set (lm_free (sh_lm sh) @ lm_full (sh_lm sh) @ cur_lines sh @ map (pq_d q) [1..<pq_size q]) = {..<blks_per_pl (sh_spp sh)} \<and>
    lm_free_cnt (sh_lm sh) = of_nat (length (lm_free (sh_lm sh))) \<and> lm_full_cnt (sh_lm sh) = of_nat (length (lm_full (sh_lm sh))) \<and>
    lm_victim_cnt (sh_lm sh) = of_nat (pqueue_size q) \<and>
    (\<forall>k\<in>{1..<pq_size q}. ln_pos (line_of sh (pq_d q k)) = k) \<and>
    (\<forall>l<blks_per_pl (sh_spp sh). (ln_pos (line_of sh l) = 0 \<longleftrightarrow> l \<notin> pq_d q ` {1..<pq_size q}) \<and>
       0 \<le> ln_vgc (line_of sh l) \<and> 0 \<le> ln_igc (line_of sh l) \<and>
       ln_vgc (line_of sh l) + ln_igc (line_of sh l) \<le> int (pgs_per_line (sh_spp sh) * sh_gpp sh) \<and>
       (l \<in> held \<or> ln_pos (line_of sh l) \<noteq> 0 \<longrightarrow> 0 < ln_igc (line_of sh l)) \<and>
       (l \<in> set (lm_free (sh_lm sh)) \<longrightarrow> ln_vgc (line_of sh l) = 0 \<and> ln_igc (line_of sh l) = 0))"
proof -
  have ok: "shard_ok sh held" using lawful_ok [OF assms] by simp
  note s = shard_okD [OF ok]
  obtain q where q: "queue_ok (sh_lm sh) q" "marks_ok (lm_lines (sh_lm sh)) (pq_elems q) {}"
    "places_ok (n_lines (sh_lm sh)) (lm_free (sh_lm sh) @ lm_full (sh_lm sh)) (pq_elems q) (set (cur_lines sh) \<union> held)"
    "lm_free_cnt (sh_lm sh) = of_nat (length (lm_free (sh_lm sh)))" "lm_full_cnt (sh_lm sh) = of_nat (length (lm_full (sh_lm sh)))"
    "lm_victim_cnt (sh_lm sh) = of_nat (pq_size q - 1 + card ({} :: nat set))"
    using s(11) by (rule lm_okE)
  let ?xs = "lm_free (sh_lm sh) @ lm_full (sh_lm sh) @ cur_lines sh @ map (pq_d q) [1..<pq_size q]"
  have E: "set (map (pq_d q) [1..<pq_size q]) = pq_elems q" "pq_d q ` {1..<pq_size q} = pq_elems q" by (simp_all add: pq_elems_def)
  have v: "lm_victim (sh_lm sh) = Some q" "inj_on (pq_d q) {1..<pq_size q}"
    "\<And>k. k \<in> {1..<pq_size q} \<Longrightarrow> ln_pos (line_of sh (pq_d q k)) = k"
    using q(1) by (auto simp: queue_ok_def pq_part_def pq_shape_def pq_placed_def victim_line_get_pos_def line_of_def)
  let ?fs = "lm_free (sh_lm sh) @ lm_full (sh_lm sh)"
  have dq: "distinct (map (pq_d q) [1..<pq_size q])" using v(2) by (simp add: distinct_map)
  have dj: "distinct ?fs" "set ?fs \<inter> set (cur_lines sh) = {}" "set ?fs \<inter> pq_elems q = {}" "set (cur_lines sh) \<inter> pq_elems q = {}"
    using q(3) unfolding places_ok_def by blast+
  have "distinct (?fs @ cur_lines sh @ map (pq_d q) [1..<pq_size q])"
    unfolding distinct_append [of ?fs] distinct_append [of "cur_lines sh"] set_append [of "cur_lines sh"] E(1) using dj dq s(5) by blast
  then have d: "distinct ?xs" by simp
  have c: "(ln_pos (line_of sh l) = 0 \<longleftrightarrow> l \<notin> pq_elems q) \<and> 0 \<le> ln_vgc (line_of sh l) \<and> 0 \<le> ln_igc (line_of sh l) \<and>
       ln_vgc (line_of sh l) + ln_igc (line_of sh l) \<le> int (pgs_per_line (sh_spp sh) * sh_gpp sh) \<and>
       (l \<in> held \<or> ln_pos (line_of sh l) \<noteq> 0 \<longrightarrow> 0 < ln_igc (line_of sh l)) \<and>
       (l \<in> set (lm_free (sh_lm sh)) \<longrightarrow> ln_vgc (line_of sh l) = 0 \<and> ln_igc (line_of sh l) = 0)"
    if "l < blks_per_pl (sh_spp sh)" for l
  proof -
    have l: "l < n_lines (sh_lm sh)" using that s(4) by simp
    have "room_of sh l \<le> line_cap sh" using shard_room [OF ok] by (simp add: room_ok_def)
    then show ?thesis using lm_ok_counts [OF s(11) l] q(2) l unfolding marks_ok_def line_of_def by auto
  qed
  have S: "set ?xs = set ?fs \<union> (set (cur_lines sh) \<union> pq_elems q)" by (simp add: pq_elems_def Un_assoc)
  have "held \<inter> (set ?fs \<union> pq_elems q) = {}" "set ?fs \<union> pq_elems q \<union> (set (cur_lines sh) \<union> held) = {..<n_lines (sh_lm sh)}"
    using q(3) unfolding places_ok_def by blast+
  then have h: "held \<inter> set ?xs = {}" and u: "held \<union> set ?xs = {..<blks_per_pl (sh_spp sh)}"
    unfolding S s(4) [symmetric] using s(6) by blast+
  have n: "lm_victim_cnt (sh_lm sh) = of_nat (pqueue_size q)" using q(6) by (simp add: pqueue_size_def)
  show ?thesis unfolding E(2)
    by (intro exI [of _ q] conjI) (rule v(1) d h u n q(4,5) | (intro ballI allI impI, erule v(3) c [folded E(2)]))+
qed

theorem ftl_line_accounting_witness:
  "\<exists>sh spp q. ssd_init_params (2 ^ 36) SSD_PARTITIONS = Inr spp \<and> ftl_reach sh {} True \<and> lm_victim (sh_lm sh) = Some q \<and>
     {} \<union> set (lm_free (sh_lm sh) @ lm_full (sh_lm sh) @ cur_lines sh @ map (pq_d q) [1..<pq_size q]) = {..<blks_per_pl spp}"
proof -
  obtain sh spp where "ftl_booted sh" "ssd_init_params (2 ^ 36) SSD_PARTITIONS = Inr spp" "sh_spp sh = spp" using booted_sample by blast
  then show ?thesis using ftl_line_accounting [OF ftl_reach.boot, of sh] ftl_reach.boot [of sh] by blast
qed

subsection \<open>Handing out pages\<close>

text \<open>
  \<^bold>\<open>C2.\<close>  How pages are handed out.  In every state of a lawful run each of the four streams has a current page.  Advancing
  the stream's write pointer moves on to the page \<open>peek_next_page\<close> announces as long as the line has one; after
  the last page of a line it takes the first page of the first free line, which leaves the free list; and it
  fails, by the assertion in \<open>get_next_free_line\<close>, exactly when that list is empty.
\<close>

theorem write_pointer_order:
  assumes "ftl_reach sh held True" "io \<in> {USER_IO, MAP_IO, GC_IO, GC_MAP_IO}"
  shows "\<exists>p. get_new_page sh io = Inr p \<and> valid_ppa (sh_spp sh) p \<and>
    (if last_pg_in_line (sh_spp sh) p then
       (case lm_free (sh_lm sh) of [] \<Rightarrow> advance_write_pointer sh io = Inl Bug_on
        | c # rest \<Rightarrow> \<exists>sh'. advance_write_pointer sh io = Inr (True, sh') \<and> lm_free (sh_lm sh') = rest \<and>
            get_new_page sh' io = Inr (mk_ppa 0 0 0 c 0))
     else \<exists>sh'. advance_write_pointer sh io = Inr (True, sh') \<and> sh_lm sh' = sh_lm sh \<and>
            get_new_page sh' io = peek_next_page (sh_spp sh) p)"
proof -
  have ok: "shard_ok sh held" "\<not> map_spin sh" using lawful_ok [OF assms(1)] by simp_all
  note s = shard_okD [OF ok(1)]
  have "wp_index io < length (wps sh)" using assms(2) by (auto simp: wp_index_def wps_def)
  then obtain w where w: "get_wp sh io = Inr w" "w \<in> set (wps sh)" by (auto simp: get_wp_nth)
  have line: "v \<in> set (wps sh') \<Longrightarrow> wp_curline v < blks_per_pl (sh_spp sh')" if "shard_ok sh' held" for sh' v
    using lm_ok_places [OF shard_okD(11) [OF that]] shard_okD(4) [OF that] by fastforce
  let ?d = "wp_digits (sh_spp sh) w" and ?p = "page_at (sh_spp sh) (wp_curline w) (wp_digits (sh_spp sh) w)"
  have d: "digits_ok (sh_spp sh) ?d" using s(7) [OF w(2)] by (simp add: wp_ok_def)
  have p: "get_new_page sh io = Inr ?p" using get_new_page_at [OF s(1) w(1) s(7) [OF w(2)] line [OF ok(1) w(2)]] .
  note pg = digits_page [OF s(2) d, of "wp_curline w"]
  have c16: "wp_curline w < 2 ^ 16" using line [OF ok(1) w(2)] addr_okD(2) [OF s(1)] by simp
  show ?thesis
  proof (cases "odometer (sh_spp sh) ?d")
    case (Some e)
    obtain sh' w' where a: "advance_write_pointer sh io = Inr (True, sh')" "shard_ok sh' held" "get_wp sh' io = Inr w'"
      "wp_curline w' = wp_curline w" "wp_digits (sh_spp sh') w' = e" "sh_lm sh' = sh_lm sh" "sh_ssd sh' = sh_ssd sh"
      "\<not> map_spin sh'" "sh_build sh' = sh_build sh"
      using ok w(1) Some by (rule advance_within)
    have w': "w' \<in> set (wps sh')" using a(3) by (auto simp: get_wp_nth)
    have "get_new_page sh' io = Inr (page_at (sh_spp sh') (wp_curline w') (wp_digits (sh_spp sh') w'))"
      using get_new_page_at [OF shard_okD(1) [OF a(2)] a(3) shard_okD(7) [OF a(2) w'] line [OF a(2) w']] .
    then have "get_new_page sh' io = peek_next_page (sh_spp sh) ?p"
      using a(4,5,7) peek_page_at [OF s(2) d c16] Some by simp
    then show ?thesis using p pg Some line [OF ok(1) w(2)] a(1,6) by auto
  next
    case None
    show ?thesis
    proof (cases "lm_free (sh_lm sh)")
      case Nil
      then show ?thesis using p pg None line [OF ok(1) w(2)] advance_across(1) [OF ok w(1) None] by auto
    next
      case (Cons c rest)
      obtain sh' w' where a: "advance_write_pointer sh io = Inr (True, sh')" "shard_ok sh' held" "get_wp sh' io = Inr w'"
        "wp_curline w' = c" "wp_digits (sh_spp sh') w' = (0, 0, 0, 0)" "lm_free (sh_lm sh') = rest" "sh_ssd sh' = sh_ssd sh"
        using advance_across(2) [OF ok w(1) None Cons] by blast
      have w': "w' \<in> set (wps sh')" using a(3) by (auto simp: get_wp_nth)
      have "c < 65536" using line [OF a(2) w'] a(4) addr_okD(2) [OF shard_okD(1) [OF a(2)]] by simp
      moreover have "get_new_page sh' io = Inr (page_at (sh_spp sh') (wp_curline w') (wp_digits (sh_spp sh') w'))"
        using get_new_page_at [OF shard_okD(1) [OF a(2)] a(3) shard_okD(7) [OF a(2) w'] line [OF a(2) w']] .
      ultimately have "get_new_page sh' io = Inr (mk_ppa 0 0 0 c 0)" using a(4,5) by (simp add: page_at_def mk_ppa_def)
      then show ?thesis using p pg None line [OF ok(1) w(2)] Cons a(1,6) by auto
    qed
  qed
qed

theorem write_pointer_order_witness:
  "\<exists>sh spp p. ssd_init_params (2 ^ 36) SSD_PARTITIONS = Inr spp \<and> ftl_reach sh {} True \<and> get_new_page sh GC_IO = Inr p \<and> valid_ppa spp p"
proof -
  obtain sh spp where "ftl_booted sh" "ssd_init_params (2 ^ 36) SSD_PARTITIONS = Inr spp" "sh_spp sh = spp" using booted_sample by blast
  then show ?thesis using write_pointer_order [OF ftl_reach.boot, of sh GC_IO] ftl_reach.boot [of sh] by blast
qed

subsection \<open>Choosing and reclaiming a victim\<close>

lemma victim_pri_le:
  assumes "0 \<le> ln_vgc (ls ! x)" "ln_vgc (ls ! x) < 2 ^ 31" "0 \<le> ln_vgc (ls ! y)" "ln_vgc (ls ! y) < 2 ^ 31"
  shows "victim_line_cmp_pri (victim_line_get_pri ls x) (victim_line_get_pri ls y) \<longleftrightarrow> ln_vgc (ls ! y) < ln_vgc (ls ! x)"
proof -
  have "uint (word_of_int v :: u64) = v" if "0 \<le> v" "v < 2 ^ 31" for v
    using that by (simp add: unsigned_of_int take_bit_int_eq_self)
  then show ?thesis using assms by (simp add: victim_line_cmp_pri_def victim_line_get_pri_def word_less_def)
qed

text \<open>The root of a heap-ordered victim queue has the fewest valid grains.\<close>

lemma heap_root_least:
  assumes "queue_ok lm q" "pqueue_is_valid q (lm_lines lm)" "pq_size q \<noteq> 1" "\<And>i. i < n_lines lm \<Longrightarrow> 0 \<le> ln_vgc (lm_lines lm ! i) \<and> ln_vgc (lm_lines lm ! i) < 2 ^ 31"
    "y \<in> pq_elems q"
  shows "ln_vgc (lm_lines lm ! pq_d q 1) \<le> ln_vgc (lm_lines lm ! y)"
proof -
  have q: "victim.handle q" "pq_inv live q (lm_lines lm)"
    using assms(1,2) by (auto simp: queue_ok_def pq_part_def pq_inv_def is_valid_heap)
  have "pq_d q 1 \<in> pq_elems q \<and> (\<forall>x\<in>pq_elems q. \<not> victim_line_cmp_pri (victim_line_get_pri (lm_lines lm) (pq_d q 1)) (victim_line_get_pri (lm_lines lm) x))"
    using victim.peek_least [OF q, of "pq_d q 1"] assms(3) by (simp add: pqueue_peek_def)
  then have r: "pq_d q 1 \<in> pq_elems q" "\<not> victim_line_cmp_pri (victim_line_get_pri (lm_lines lm) (pq_d q 1)) (victim_line_get_pri (lm_lines lm) y)"
    using assms(5) by blast+
  have l: "pq_d q 1 < n_lines lm" "y < n_lines lm" using elems_live [OF assms(1)] r(1) assms(5) by blast+
  show ?thesis using r(2) victim_pri_le [of "lm_lines lm" "pq_d q 1" y] assms(4) [OF l(1)] assms(4) [OF l(2)] by simp
qed

lemma popped_valid:
  assumes "queue_ok lm q" "pqueue_is_valid q (lm_lines lm)" "pq_size q \<noteq> 1" "lm_victim (pop_victim lm) = Some q'"
  shows "pqueue_is_valid q' (lm_lines (pop_victim lm))" "pq_elems q' = pq_elems q - {pq_d q 1}"
proof -
  have q: "victim.handle q" "pq_inv live q (lm_lines lm)" "lm_victim lm = Some q"
    using assms(1,2) by (auto simp: queue_ok_def pq_part_def pq_inv_def is_valid_heap)
  obtain q2 ls where n: "pqueue_pop (Some q) (lm_lines lm) = (Some (pq_d q 1), Some q2, ls)"
    "victim.pq_next q (lm_lines lm) (pq_elems q) (pq_elems q - {pq_d q 1}) (pq_size q - 1) q2 ls"
    using victim.pop_next [OF q(1,2) assms(3)] by blast
  then have "q2 = q'" "lm_lines (pop_victim lm) = ls" using assms(4) q(3) by (auto simp: pop_victim_def)
  then show "pqueue_is_valid q' (lm_lines (pop_victim lm))" "pq_elems q' = pq_elems q - {pq_d q 1}"
    using n(2) unfolding victim.pq_next_def pq_inv_def is_valid_heap by blast+
qed

lemma select_loop_least:
  assumes ok: "lm_ok room held out {} lm" and q: "lm_victim lm = Some q" and r: "select_loop lm busy None = Inr (v, lm')"
    and valid: "pqueue_is_valid q (lm_lines lm)" and small: "\<And>i. i < n_lines lm \<Longrightarrow> 0 \<le> ln_vgc (lm_lines lm ! i) \<and> ln_vgc (lm_lines lm ! i) < 2 ^ 31"
  shows "case v of None \<Rightarrow> pq_elems q \<subseteq> {busy}
    | Some x \<Rightarrow> x \<in> pq_elems q - {busy} \<and> (\<forall>y\<in>pq_elems q - {busy}. ln_vgc (lm_lines lm ! x) \<le> ln_vgc (lm_lines lm ! y))"
proof -
  have qk: "queue_ok lm q" using ok q by (auto simp: lm_ok_def lines_ok_def queue_ok_def)
  have sz: "pq_size q \<noteq> 0" using pq_size_pos [OF qk] by simp
  show ?thesis
  proof (cases "pq_size q = 1")
    case True
    then have "v = None" using r q by (simp add: select_loop.simps [of lm] pqueue_peek_def put_back_def)
    then show ?thesis using True by (simp add: pq_elems_def)
  next
    case False
    let ?v = "pq_d q 1"
    note pop = lm_ok_pop [OF ok q False]
    have id: "ln_id (lm_lines lm ! ?v) = ?v" using lm_ok_counts(5) [OF ok pop(4)] .
    have ve: "?v \<in> pq_elems q" using sz False by (simp add: pq_elems_def)
    note least = heap_root_least [OF qk valid False small]
    show ?thesis
    proof (cases "?v = busy")
      case nb: False
      have "v = Some ?v" using r q sz False id nb by (simp add: select_loop.simps [of lm] pqueue_peek_def put_back_def Let_def)
      then show ?thesis using ve nb least by simp
    next
      case True
      obtain q' where q': "lm_victim (pop_victim lm) = Some q'" using pop_victim_size [OF q False] by blast
      have qk': "queue_ok (pop_victim lm) q'" using pop(1) q' by (auto simp: lm_ok_def lines_ok_def queue_ok_def)
      note pv = popped_valid [OF qk valid False q']
      have n': "n_lines (pop_victim lm) = n_lines lm" using strip_length [OF pop(2)] .
      have vg: "ln_vgc (lm_lines (pop_victim lm) ! i) = ln_vgc (lm_lines lm ! i)" if "i < n_lines lm" for i
        using strip_nth(3) [OF pop(2)] that n' by simp
      have r': "select_loop (pop_victim lm) busy (Some ?v) = Inr (v, lm')"
        using r q sz False id True by (simp add: select_loop.simps [of lm] pqueue_peek_def)
      have sz': "pq_size q' \<noteq> 0" using pq_size_pos [OF qk'] by simp
      show ?thesis
      proof (cases "pq_size q' = 1")
        case e: True
        then have "v = None" using r' q' by (auto simp: select_loop.simps [of "pop_victim lm"] pqueue_peek_def bindR_eq_Inr)
        moreover have "pq_elems q' = {}" using e by (simp add: pq_elems_def)
        ultimately show ?thesis using pv(2) True by auto
      next
        case ne: False
        let ?x = "pq_d q' 1"
        have xe: "?x \<in> pq_elems q'" using sz' ne by (simp add: pq_elems_def)
        have xl: "?x < n_lines (pop_victim lm)" using elems_live [OF qk'] xe by blast
        have xid: "ln_id (lm_lines (pop_victim lm) ! ?x) = ?x" using lm_ok_counts(5) [OF pop(1) xl] .
        have xb: "?x \<noteq> busy" using xe pv(2) True by auto
        have "v = Some ?x" using r' q' sz' ne xid xb
          by (auto simp: select_loop.simps [of "pop_victim lm"] pqueue_peek_def Let_def bindR_eq_Inr)
        moreover have "ln_vgc (lm_lines lm ! ?x) \<le> ln_vgc (lm_lines lm ! y)" if "y \<in> pq_elems q - {busy}" for y
        proof -
          have y: "y \<in> pq_elems q'" using that pv(2) True by auto
          then have "y < n_lines lm" using elems_live [OF qk'] n' by auto
          then show ?thesis
            using heap_root_least [OF qk' pv(1) ne _ y] small vg n' xl by simp
        qed
        ultimately show ?thesis using xe pv(2) True by auto
      qed
    qed
  qed
qed

lemma busy_line_locked [simp]: "busy_line (sh\<lparr>lm_spin := b\<rparr>) = busy_line sh"
  by (cases "pqueue_peek (lm_victim (sh_lm sh))") (simp_all add: busy_line_def grain2lineid_def get_line_def line_of_def)

lemma select_loop_lists:
  "select_loop lm busy d = Inr (v, lm') \<Longrightarrow> lm_free lm' = lm_free lm \<and> lm_full lm' = lm_full lm"
proof (induction lm busy d rule: select_loop.induct)
  case (1 lm busy d)
  have pb: "put_back m d = Inr m' \<Longrightarrow> lm_free m' = lm_free m \<and> lm_full m' = lm_full m" for m m' d
    by (auto simp: put_back_def bindR_eq_Inr split: option.splits)
  have pv: "lm_free (pop_victim m) = lm_free m" "lm_full (pop_victim m) = lm_full m" for m
    by (simp_all add: pop_victim_def split_def Let_def)
  show ?case
  proof (cases "\<exists>q v. lm_victim lm = Some q \<and> pq_size q \<noteq> 0 \<and> pqueue_peek (Some q) = Some v \<and> ln_id (lm_lines lm ! v) = busy")
    case True
    then show ?thesis using "1.IH" "1.prems" pv by (auto simp: select_loop.simps [of lm])
  next
    case False
    then show ?thesis using "1.prems" pb pv
      by (fastforce simp: select_loop.simps [of lm] Let_def bindR_eq_Inr split: option.splits if_splits)
  qed
qed

lemma lawful_vgc:
  assumes "ftl_reach sh held True" "i < n_lines (sh_lm sh)"
  shows "0 \<le> ln_vgc (lm_lines (sh_lm sh) ! i) \<and> ln_vgc (lm_lines (sh_lm sh) ! i) < 2 ^ 31"
proof -
  have ok: "shard_ok sh held" using lawful_ok [OF assms(1)] by simp
  note s = shard_okD [OF ok]
  have "room_of sh i \<le> line_cap sh" "line_cap sh < 2 ^ 31" using shard_room [OF ok] s(3) by (auto simp: room_ok_def)
  then show ?thesis using lm_ok_counts(2-4) [OF s(11) assms(2)] by linarith
qed

text \<open>
  \<^bold>\<open>C3.\<close>  Victim selection.  In a state of a lawful run whose victim queue is heap-ordered (\<open>pqueue_is_valid\<close>; the code can lose
  that order, see \<open>FtlFlaws\<close>), \<open>select_victim_line\<close> returns; it
  answers \<^verbatim>\<open>NULL\<close> only when no line but the one stores are directed to is queued, and otherwise takes off the
  queue a line other than that one with the fewest valid grains of all of them.
\<close>

theorem select_victim_least:
  assumes "ftl_reach sh held True" "lm_victim (sh_lm sh) = Some q" "busy_line sh = Inr busy" "pqueue_is_valid q (lm_lines (sh_lm sh))"
  shows "\<exists>v sh'. select_victim_line sh = Inr (v, sh') \<and> ftl_reach sh' (held \<union> set_option v) True \<and>
    (case v of None \<Rightarrow> pq_elems q \<subseteq> {busy}
     | Some x \<Rightarrow> x \<in> pq_elems q - {busy} \<and> (\<forall>y\<in>pq_elems q - {busy}. ln_vgc (line_of sh x) \<le> ln_vgc (line_of sh y)))"
proof -
  have ok: "shard_ok sh held" using lawful_ok [OF assms(1)] by simp
  note s = shard_okD [OF ok]
  have b: "busy_line (sh\<lparr>lm_spin := True\<rparr>) = Inr busy" using assms(3) by simp
  obtain v lm' where v: "select_victim_line sh = Inr (v, sh\<lparr>lm_spin := True, sh_lm := lm', lm_spin := False\<rparr>)"
    "select_loop (sh_lm sh) busy None = Inr (v, lm')" by (rule select_with [OF ok b])
  have small: "0 \<le> ln_vgc (lm_lines (sh_lm sh) ! i) \<and> ln_vgc (lm_lines (sh_lm sh) ! i) < 2 ^ 31" if "i < n_lines (sh_lm sh)" for i
    using lawful_vgc [OF assms(1) that] .
  show ?thesis
    using v(1) ftl_reach.select [OF assms(1) v(1)] select_loop_least [OF s(11) assms(2) v(2) assms(4) small] unfolding line_of_def by blast
qed

text \<open>
  \<^bold>\<open>C4.\<close>  Garbage collection makes progress.  In a state of a lawful run, after a victim has been selected, freeing its line appends it to the free
  list, and then every stream can advance, whatever page it stands at: a full device gets going again with one
  reclaimed line.
\<close>

theorem reclaimed_line_unblocks:
  assumes "ftl_reach sh held True" "select_victim_line sh = Inr (Some x, sh1)" "g_blk p = x" "io \<in> {USER_IO, MAP_IO, GC_IO, GC_MAP_IO}"
  shows "\<exists>sh2 sh3. mark_line_free sh1 p = Inr sh2 \<and> ftl_reach sh2 held True \<and> lm_free (sh_lm sh2) = lm_free (sh_lm sh) @ [x] \<and>
    lm_free_cnt (sh_lm sh2) = of_nat (length (lm_free (sh_lm sh)) + 1) \<and> advance_write_pointer sh2 io = Inr (True, sh3)"
proof -
  have r1: "ftl_reach sh1 (held \<union> {x}) True" using ftl_reach.select [OF assms(1,2)] by simp
  have ok: "shard_ok sh held" and ok1: "shard_ok sh1 (held \<union> {x})" using lawful_ok [OF assms(1)] lawful_ok [OF r1] by simp_all
  obtain busy where b: "busy_line (sh\<lparr>lm_spin := True\<rparr>) = Inr busy"
    using assms(2) shard_okD(10) [OF ok] by (auto simp: select_victim_line_def lock_lm_def elim!: bindR_InrE)
  obtain lm' where l: "select_loop (sh_lm sh) busy None = Inr (Some x, lm')" "sh_lm sh1 = lm'" and xh: "x \<notin> held"
    by (rule select_with [OF ok b]) (use assms(2) in auto)
  obtain sh2 where f: "mark_line_free sh1 p = Inr sh2" "shard_ok sh2 (held \<union> {x} - {g_blk p})" "map_spin sh2 = map_spin sh1"
    "sh_spp sh2 = sh_spp sh1" "lm_free (sh_lm sh2) = lm_free (sh_lm sh1) @ [g_blk p]"
    by (rule mark_line_free_ok [OF ok1, of p]) (simp add: assms(3))
  have "ftl_reach sh2 (held \<union> {x} - {g_blk p}) True" using ftl_reach.line_free [OF r1 f(1)] assms(3) by simp
  moreover have "held \<union> {x} - {g_blk p} = held" using xh assms(3) by auto
  ultimately have r2: "ftl_reach sh2 held True" by simp
  have fr: "lm_free (sh_lm sh2) = lm_free (sh_lm sh) @ [x]" using f(5) select_loop_lists [OF l(1)] l(2) assms(3) by simp
  have ok2: "shard_ok sh2 held" "\<not> map_spin sh2" using lawful_ok [OF r2] by simp_all
  have "wp_index io < length (wps sh2)" using assms(4) by (auto simp: wp_index_def wps_def)
  then obtain w where w: "get_wp sh2 io = Inr w" by (auto simp: get_wp_nth)
  have "\<exists>sh3. advance_write_pointer sh2 io = Inr (True, sh3)"
  proof (cases "odometer (sh_spp sh2) (wp_digits (sh_spp sh2) w)")
    case (Some e)
    show ?thesis by (rule advance_within [OF ok2 w Some]) blast
  next
    case None
    obtain c rest where "lm_free (sh_lm sh2) = c # rest" using fr by (cases "lm_free (sh_lm sh) @ [x]") auto
    then show ?thesis using advance_across(2) [OF ok2 w None] by blast
  qed
  moreover have "lm_free_cnt (sh_lm sh2) = of_nat (length (lm_free (sh_lm sh2)))"
    using shard_okD(11) [OF ok2(1)] by (auto elim: lm_okE)
  ultimately show ?thesis using f(1) r2 fr by simp
qed

subsection \<open>A run that fills and reclaims a line\<close>

text \<open>A device of six lines of three pages, for runs that can be evaluated.\<close>

definition small_params :: ssdparams where
  "small_params = \<lparr>secsz = 512, secs_per_pg = 1, pgsz = 4096, pgs_per_flashpg = 1, flashpgs_per_blk = 3, pgs_per_oneshotpg = 1,
     oneshotpgs_per_blk = 3, pgs_per_blk = 3, blks_per_pl = 6, pls_per_lun = 1, luns_per_ch = 1, nchs = 1, cell_mode = 2,
     write_unit_size = 512, write_early_completion = False, pg_4kb_rd_lat = [0, 0, 0], pg_rd_lat = [0, 0, 0], pg_wr_lat = 0, blk_er_lat = 0,
     max_ch_xfer_size = 4096, fw_4kb_rd_lat = 0, fw_rd_lat = 0, fw_wbuf_lat0 = 0, fw_wbuf_lat1 = 0, fw_ch_xfer_lat = 0, ch_bandwidth = 800,
     pcie_bandwidth = 3360, secs_per_blk = 3, secs_per_pl = 18, secs_per_lun = 18, secs_per_ch = 18, tt_secs = 18,
     pgs_per_pl = 18, pgs_per_lun = 18, pgs_per_ch = 18, tt_pgs = 18, blks_per_lun = 6, blks_per_ch = 6,
     tt_blks = 6, secs_per_line = 3, pgs_per_line = 3, flashpgs_per_line = 3, blks_per_line = 1, tt_lines = 6, pls_per_ch = 1,
     tt_pls = 1, tt_luns = 1, write_buffer_size = 0\<rparr>"

lemmas nand_defs = get_pg_def get_blk_def get_pl_def get_lun_def get_ch_def get_line_def line_of_def set_line_def
  upd_blk_def upd_plane_def upd_pg_def set_lun_def

lemmas queue_defs = pqueue_insert_def pqueue_change_priority_def pqueue_peek_def bubble_up_def bubble_up_loop.simps percolate_down_def
  percolate_down_loop.simps maxchild_def pq_left_def pq_parent_def victim_line_get_pri_def victim_line_set_pri_def
  victim_line_get_pos_def victim_line_set_pos_def victim_line_cmp_pri_def

lemmas invalid_defs = invalidate_page_def count_invalid_def lock_inv_def lock_lm_def drop_line_def lower_line_def full_to_victim_def
  clear_grain_def mark_page_invalid_def

lemmas page_defs = ppa_to_struct_def ppa2pgidx_def valid_ppa_def peek_next_page_def check_addr_def PPA_TO_PGA_def G_IDX_def mk_ppa_def
  last_pg_in_line_def last_pg_in_wordline_def last_pg_in_ch_def last_pg_in_lun_def last_pg_in_blk_def

lemmas run_defs = advance_write_pointer_def get_wp_def count_page_def step_wp_def next_line_def retire_line_def lock_lm_def lock_map_def
  get_next_free_line_def set_wp_def is_map_io_def mark_page_valid_def mark_grain_valid_def mark_grain_invalid_def lock_v_def bump_line_def
  nand_defs queue_defs page_defs Let_def

lemmas boot_defs = init_lines_def small_params_def upt_rec pqueue_init_def prepare_write_pointer_def init_write_flow_control_def
  demand_init_grains_def get_new_page_def ssd_init_nand_lun_def ssd_init_nand_plane_def ssd_init_nand_blk_def ssd_init_nand_page_def

lemmas select_defs = select_victim_line_def busy_line_def grain2lineid_def GRAINED_UNIT_def PIECE_def pop_victim_def pqueue_pop_def put_back_def

text \<open>The device as \<open>ssd_init\<close> builds it, and its shard.\<close>

definition small_ssd :: "channel_model \<Rightarrow> channel_model \<Rightarrow> buffer \<Rightarrow> ssd" where
  "small_ssd c pc wb = \<lparr>ssd_sp = small_params, ssd_ch = [\<lparr>sc_lun = [ssd_init_nand_lun small_params], sc_nluns = 1, sc_perf_model = c\<rparr>],
      ssd_pcie = pc, ssd_write_buffer = wb, ssd_spin = False, ssd_adv_spin = False, ssd_reads = 0\<rparr>"

definition small_boot :: "build \<Rightarrow> channel_model \<Rightarrow> channel_model \<Rightarrow> buffer \<Rightarrow> demand_shard result" where
  "small_boot b c pc wb = conv_init_ftl True (Some (\<lambda>_. 0)) (conv_init_params b) (small_ssd c pc wb) (blank_shard\<lparr>sh_build := b\<rparr>)"

lemmas small_boot_defs = small_boot_def conv_init_ftl_def small_ssd_def blank_shard_def

lemma small_device:
  obtains c pc wb where "\<forall>b sh. small_boot b c pc wb = Inr sh \<longrightarrow> ftl_reach sh {} True"
proof -
  obtain c pc where c: "chmodel_init blank_model 800 = Inr c" "chmodel_init blank_model 3360 = Inr pc"
    using chmodel_init_wf [OF bandwidth_values(1-3), of blank_model] chmodel_init_wf [OF bandwidth_values(4-6), of blank_model] by blast
  obtain c1 wb where s: "ssd_init blank_model small_params = Inr (small_ssd c1 pc wb)"
    using c by (simp add: ssd_init_def ssd_init_ch_def ssd_init_pcie_def small_ssd_def) (simp add: small_params_def)
  have sp: "ssd_sp (small_ssd c1 pc wb) = small_params" by (simp add: small_ssd_def)
  have a: "addr_ok small_params" "1 < pgs_per_line small_params" by (simp_all add: small_params_def addr_ok_def geom_ok_def)
  have "ftl_reach sh {} True" if "small_boot b c1 pc wb = Inr sh" for b sh
  proof (rule ftl_reach.boot)
    have "int (pgs_per_line small_params * GRAIN_PER_PAGE b) < 2 ^ 31" using grain_per_page_pos(2) [of b] by (simp add: small_params_def)
    then show "ftl_booted sh" unfolding ftl_booted_def
      using s that a sp blank_locks unfolding small_boot_def
      by (intro exI [of _ blank_model] exI [of _ "small_ssd c1 pc wb"] exI [of _ "\<lambda>_. 0"] exI [of _ "conv_init_params b"]
          exI [of _ "blank_shard\<lparr>sh_build := b\<rparr>"]) simp
  qed
  then show thesis by (intro that) blast
qed

lemma small_run:
  "\<exists>sh3. bindR (small_boot Original c pc wb) (\<lambda>sh.
    bindR (advance_write_pointer sh USER_IO) (\<lambda>(_, sh1). bindR (advance_write_pointer sh1 USER_IO) (\<lambda>(_, sh2).
      case lm_victim (sh_lm sh2) of None \<Rightarrow> Inl Bug_on
      | Some q \<Rightarrow> bindR (assertR (pq_size q = 2) Bug_on) (\<lambda>_. bindR (busy_line (sh2\<lparr>sh_offset := 36864\<rparr>)) (\<lambda>b. bindR (assertR (b = 3) Bug_on) (\<lambda>_.
          select_victim_line (sh2\<lparr>sh_offset := 36864\<rparr>))))))) = Inr (Some 0, sh3)"
  unfolding small_boot_defs
  apply (simp add: boot_defs run_defs cong: bindR_weak)
  apply (subst mark_invalid_loop.simps)
  apply (simp add: invalid_defs run_defs select_defs small_params_def cong: bindR_weak)
  apply (subst select_loop.simps)
  apply (simp add: select_defs run_defs small_params_def cong: bindR_weak)
  done

lemma victim_sample:
  obtains sh q sh1 where "ftl_reach sh {} True" "lm_victim (sh_lm sh) = Some q" "pq_size q = 2" "busy_line sh = Inr 3"
    "select_victim_line sh = Inr (Some 0, sh1)"
proof -
  obtain c pc wb where b: "\<forall>b sh. small_boot b c pc wb = Inr sh \<longrightarrow> ftl_reach sh {} True" by (rule small_device)
  obtain sh b1 sh1 b2 sh2 q sh3 where r: "small_boot Original c pc wb = Inr sh"
    "advance_write_pointer sh USER_IO = Inr (b1, sh1)" "advance_write_pointer sh1 USER_IO = Inr (b2, sh2)" "lm_victim (sh_lm sh2) = Some q"
    "pq_size q = 2" "busy_line (sh2\<lparr>sh_offset := 36864\<rparr>) = Inr 3" "select_victim_line (sh2\<lparr>sh_offset := 36864\<rparr>) = Inr (Some 0, sh3)"
    using small_run [of c pc wb] by (auto elim!: bindR_InrE split: option.splits)
  have "ftl_reach (sh2\<lparr>sh_offset := 36864\<rparr>) {} True" using b r(1-3) by (metis ftl_reach.advance ftl_reach.offset)
  then show thesis using that [OF _ _ r(5,6,7)] r(4) by simp
qed

theorem select_victim_least_witness:
  "\<exists>sh q sh'. ftl_reach sh {} True \<and> lm_victim (sh_lm sh) = Some q \<and> pq_size q = 2 \<and> select_victim_line sh = Inr (Some 0, sh') \<and>
     0 \<in> pq_elems q - {3}"
proof -
  obtain sh q sh1 where s: "ftl_reach sh {} True" "lm_victim (sh_lm sh) = Some q" "pq_size q = 2" "busy_line sh = Inr 3"
    "select_victim_line sh = Inr (Some 0, sh1)" by (rule victim_sample)
  have "pqueue_is_valid q (lm_lines (sh_lm sh))" using s(3) by (simp add: is_valid_heap heap_upto_def)
  from select_victim_least [OF s(1,2,4) this] have "0 \<in> pq_elems q - {3}" using s(5) by auto
  then show ?thesis using s by blast
qed

theorem reclaimed_line_unblocks_witness:
  "\<exists>sh sh1 sh2 sh3. ftl_reach sh {} True \<and> select_victim_line sh = Inr (Some 0, sh1) \<and> mark_line_free sh1 (mk_ppa 0 0 0 0 0) = Inr sh2 \<and>
     lm_free (sh_lm sh2) = lm_free (sh_lm sh) @ [0] \<and> advance_write_pointer sh2 MAP_IO = Inr (True, sh3)"
proof -
  obtain sh q sh1 where s: "ftl_reach sh {} True" "select_victim_line sh = Inr (Some 0, sh1)"
    by (rule victim_sample)
  then show ?thesis using reclaimed_line_unblocks [OF s, of "mk_ppa 0 0 0 0 0" MAP_IO] by (auto simp: mk_ppa_def)
qed

end
