(* ===== verification/FtlFlaws.thy ===== *)
theory FtlFlaws
  imports FtlReach "HOL-Library.Multiset"
begin

text \<open>
  Two ways in which line management loses track of a line, stated of every state of a lawful run, each with a run
  of the six-line device that gets there.
\<close>

subsection \<open>The victim queue as a bag of lines\<close>

text \<open>
  The laws of \<open>pq_store\<close> need the queued lines to be distinct.  When a line is queued twice, what is left is that
  the sift loops permute the array and keep every \<^verbatim>\<open>pos\<close> inside it.
\<close>

definition queued :: "victim_queue \<Rightarrow> nat multiset" where
  "queued q = mset (map (pq_d q) [1..<pq_size q])"

definition loose :: "victim_queue \<Rightarrow> line list \<Rightarrow> bool" where
  "loose q ls \<longleftrightarrow> victim.handle q \<and> 1 \<le> pq_size q \<and> (\<forall>l\<in>set ls. ln_pos l < pq_size q) \<and> map ln_id ls = [0..<length ls]"

definition sifted :: "nat \<Rightarrow> victim_queue \<times> line list \<times> nat \<Rightarrow> victim_queue \<times> line list \<times> nat \<Rightarrow> bool" where
  "sifted m = (\<lambda>(q, ls, i) (q', ls', i'). loose q' ls' \<and> pq_size q' = pq_size q \<and> i' \<in> {1..<pq_size q} \<and>
     queued (pq_plug q' i' m) = queued (pq_plug q i m))"

lemma mset_hole:
  assumes "i \<in> {1..<n}" "j \<in> {1..<n}" "i \<noteq> j"
  shows "mset (map (f(i := f j, j := m)) [1..<n]) = mset (map (f(i := m)) [1..<n])"
proof -
  let ?xs = "map (f(i := m)) [1..<n]"
  have "map (f(i := f j, j := m)) [1..<n] = ?xs[j - 1 := ?xs ! (i - 1), i - 1 := ?xs ! (j - 1)]"
    using assms by (intro nth_equalityI) (auto simp: nth_list_update)
  moreover have "mset (?xs[j - 1 := ?xs ! (i - 1), i - 1 := ?xs ! (j - 1)]) = mset ?xs"
    by (rule mset_swap) (use assms in auto)
  ultimately show ?thesis by presburger
qed

lemma loose_update:
  assumes "loose q ls" "ln_id y = ln_id (ls ! e)" "ln_pos y < pq_size q"
  shows "loose q (ls[e := y])"
proof -
  have "map ln_id (ls[e := y]) = map ln_id ls" using assms(2) by (cases "e < length ls") (simp_all add: map_update list_update_same_conv list_update_beyond)
  then show ?thesis using assms set_update_subset_insert [of ls e y] unfolding loose_def by auto
qed

lemma loose_id: "loose q ls \<Longrightarrow> i < length ls \<Longrightarrow> ln_id (ls ! i) = i"
  by (metis loose_def nth_map nth_upt add_0 length_map)

lemma loose_set_pos: "loose q ls \<Longrightarrow> i < pq_size q \<Longrightarrow> loose q (victim_line_set_pos e i ls)"
  unfolding victim_line_set_pos_def by (rule loose_update) simp_all

lemma sifted_step:
  assumes "loose q ls" "i \<in> {1..<pq_size q}" "j \<in> {1..<pq_size q}" "i \<noteq> j"
  shows "sifted m (q, ls, i) (q\<lparr>pq_d := (pq_d q)(i := pq_d q j)\<rparr>, victim_line_set_pos (pq_d q j) i ls, j)"
proof -
  have "loose q (victim_line_set_pos (pq_d q j) i ls)" using assms by (intro loose_set_pos) auto
  then show ?thesis using assms mset_hole [of i "pq_size q" j "pq_d q" m] by (simp add: sifted_def queued_def loose_def)
qed

lemma sifted_trans: "sifted m x y \<Longrightarrow> sifted m y z \<Longrightarrow> sifted m x z"
  by (cases x; cases y; cases z) (auto simp: sifted_def)

lemma bubble_up_loop_sifted:
  "loose q ls \<Longrightarrow> i \<in> {1..<pq_size q} \<Longrightarrow> sifted m (q, ls, i) (bubble_up_loop q ls p i)"
proof (induction q ls p i rule: bubble_up_loop.induct)
  case (1 q ls p i)
  let ?j = "pq_parent i"
  have h: "pq_setpos q = victim_line_set_pos" using "1.prems"(1) by (simp add: loose_def)
  show ?case
  proof (cases "i > 1 \<and> pq_cmppri q (pq_getpri q ls (pq_d q ?j)) p")
    case True
    have j: "?j \<in> {1..<pq_size q}" "i \<noteq> ?j" using True "1.prems"(2) by (auto simp: pq_parent_def)
    note st = sifted_step [OF "1.prems" j]
    have "sifted m (q\<lparr>pq_d := (pq_d q)(i := pq_d q ?j)\<rparr>, victim_line_set_pos (pq_d q ?j) i ls, ?j)
        (bubble_up_loop (q\<lparr>pq_d := (pq_d q)(i := pq_d q ?j)\<rparr>) (victim_line_set_pos (pq_d q ?j) i ls) p ?j)"
      using "1.IH" [OF True refl refl] st [of m] j h by (simp add: sifted_def)
    then show ?thesis using sifted_trans [OF st] True h by (simp add: bubble_up_loop.simps [of q ls p i] Let_def)
  next
    case False
    then show ?thesis using "1.prems" by (auto simp: bubble_up_loop.simps [of q ls p i] sifted_def)
  qed
qed

lemma percolate_down_loop_sifted:
  "loose q ls \<Longrightarrow> i \<in> {1..<pq_size q} \<Longrightarrow> sifted m (q, ls, i) (percolate_down_loop q ls p i)"
proof (induction q ls p i rule: percolate_down_loop.induct)
  case (1 q ls p i)
  let ?j = "maxchild q ls i"
  have h: "pq_setpos q = victim_line_set_pos" using "1.prems"(1) by (simp add: loose_def)
  show ?case
  proof (cases "?j \<noteq> 0 \<and> pq_cmppri q p (pq_getpri q ls (pq_d q ?j))")
    case True
    have j: "?j \<in> {1..<pq_size q}" "i \<noteq> ?j" using maxchild_gt [of q ls i] True "1.prems"(2) by auto
    note st = sifted_step [OF "1.prems" j]
    have "sifted m (q\<lparr>pq_d := (pq_d q)(i := pq_d q ?j)\<rparr>, victim_line_set_pos (pq_d q ?j) i ls, ?j)
        (percolate_down_loop (q\<lparr>pq_d := (pq_d q)(i := pq_d q ?j)\<rparr>) (victim_line_set_pos (pq_d q ?j) i ls) p ?j)"
      using "1.IH" [OF refl True refl refl] st [of m] j h by (simp add: sifted_def)
    then show ?thesis using sifted_trans [OF st] True h by (simp add: percolate_down_loop.simps [of q ls p i] Let_def)
  next
    case False
    then show ?thesis using "1.prems" by (auto simp: percolate_down_loop.simps [of q ls p i] Let_def sifted_def)
  qed
qed

lemma sift_bag:
  assumes "loose q ls" "i \<in> {1..<pq_size q}" "bubble_up q ls i = (q', ls') \<or> percolate_down q ls i = (q', ls')"
  shows "loose q' ls' \<and> pq_size q' = pq_size q \<and> queued q' = queued q"
proof -
  obtain q1 l1 i1 where r: "q' = pq_plug q1 i1 (pq_d q i)" "ls' = pq_setpos q1 (pq_d q i) i1 l1" "sifted (pq_d q i) (q, ls, i) (q1, l1, i1)"
    using assms(3) bubble_up_loop_sifted [OF assms(1,2)] percolate_down_loop_sifted [OF assms(1,2)]
    by (force simp: bubble_up_def percolate_down_def pq_plug_def Let_def split_def)
  then have "loose q1 l1" "pq_size q1 = pq_size q" "i1 \<in> {1..<pq_size q}" "queued q' = queued q" by (simp_all add: sifted_def)
  moreover from this have "loose q1 (victim_line_set_pos (pq_d q i) i1 l1)" by (intro loose_set_pos) auto
  ultimately show ?thesis using r(1,2) by (simp add: loose_def)
qed

lemma change_priority_bag:
  assumes "loose q ls" "e < length ls" "ln_pos (ls ! e) \<noteq> 0" "pqueue_change_priority q ls p e = (q', ls')"
  shows "loose q' ls' \<and> pq_size q' = pq_size q \<and> queued q' = queued q"
proof -
  let ?ls = "victim_line_set_pri e p ls"
  have h: "victim.handle q" using assms(1) by (simp add: loose_def)
  have lt: "ln_pos (ls ! e) < pq_size q" using assms(1,2) by (auto simp: loose_def)
  then have l1: "loose q ?ls" unfolding victim_line_set_pri_def by (intro loose_update [OF assms(1)]) simp_all
  have i: "victim_line_get_pos ?ls e \<in> {1..<pq_size q}"
    using assms(2,3) lt by (simp add: victim_line_get_pos_def victim_line_set_pri_def)
  show ?thesis using assms(4) h
    by (intro sift_bag [OF l1 i]) (auto simp: pqueue_change_priority_def Let_def split: if_splits)
qed

lemma insert_bag:
  assumes "loose q ls" "pqueue_insert (Some q) ls e = Inr (r, q', ls')"
  obtains q1 where "q' = Some q1" "loose q1 ls'" "pq_size q1 = pq_size q + 1" "queued q1 = add_mset e (queued q)"
proof -
  let ?q = "q\<lparr>pq_size := pq_size q + 1, pq_d := (pq_d q)(pq_size q := e)\<rparr>"
  obtain q1 where q1: "q' = Some q1" "bubble_up ?q ls (pq_size q) = (q1, ls')"
    using assms(2) by (auto simp: pqueue_insert_def Let_def split_def split: if_splits)
  have l: "loose ?q ls" "pq_size q \<in> {1..<pq_size ?q}" using assms(1) by (auto simp: loose_def less_Suc_eq)
  have "map (pq_d ?q) [1..<pq_size ?q] = map (pq_d q) [1..<pq_size q] @ [e]"
    using l(2) by simp
  then have "queued ?q = add_mset e (queued q)" by (simp add: queued_def)
  then show thesis using that [OF q1(1)] sift_bag [OF l, of q1 ls'] q1(2) by simp
qed

subsection \<open>A full line is queued once per page\<close>

text \<open>One round of the invalidation loop that finds the line full, or has \<^verbatim>\<open>was_full_line\<close> left over from an earlier one.\<close>

lemma lower_line_bag:
  assumes "lm_victim lm = Some q" "loose q (lm_lines lm)" "l < n_lines lm" "lower_line lm l len = Inr lm1"
  obtains q1 where "lm_victim lm1 = Some q1" "loose q1 (lm_lines lm1)" "pq_size q1 = pq_size q" "queued q1 = queued q"
    "lm_full lm1 = lm_full lm" "lm_full_cnt lm1 = lm_full_cnt lm" "lm_victim_cnt lm1 = lm_victim_cnt lm" "n_lines lm1 = n_lines lm"
proof (cases "ln_pos (lm_lines lm ! l) = 0")
  case True
  let ?y = "(lm_lines lm ! l)\<lparr>ln_vgc := ln_vgc (lm_lines lm ! l) - int len\<rparr>"
  have e: "lm1 = lm\<lparr>lm_lines := (lm_lines lm)[l := ?y]\<rparr>" using assms(4) True by (simp add: lower_line_def set_line_def Let_def)
  have "loose q ((lm_lines lm)[l := ?y])" using assms(2) True by (intro loose_update) (auto simp: loose_def)
  then show thesis using assms(1) e by (intro that) simp_all
next
  case False
  obtain q1 ls where c: "pqueue_change_priority q (lm_lines lm) (ucast (word_of_int (ln_vgc (lm_lines lm ! l)) - of_nat len :: u32)) l = (q1, ls)"
    by fastforce
  have e: "lm1 = lm\<lparr>lm_victim := Some q1, lm_lines := ls\<rparr>" using assms(1,4) False c by (simp add: lower_line_def Let_def)
  have h: "victim.handle q" using assms(2) by (simp add: loose_def)
  have "length ls = n_lines lm" using strip_length [OF victim_views(3) [OF h c]] by (simp add: victim_line_set_pri_def)
  then show thesis using change_priority_bag [OF assms(2,3) False c] e by (intro that [of q1]) simp_all
qed

lemma full_round:
  assumes q: "lm_victim (sh_lm sh) = Some q" "loose q (lm_lines (sh_lm sh))"
    and r: "invalidate_page sh p page grain rem w0 = Inr (wfl, rem', sh')" and w: "w0 \<or> line_cap sh \<le> ln_vgc (line_of sh (g_blk p))"
  obtains q' where "wfl" "rem' = rem - min rem (sh_gpp sh - grain mod sh_gpp sh)" "0 < min rem (sh_gpp sh - grain mod sh_gpp sh)"
    "lm_victim (sh_lm sh') = Some q'" "loose q' (lm_lines (sh_lm sh'))" "queued q' = add_mset (g_blk p) (queued q)"
    "pq_size q' = pq_size q + 1" "lm_full (sh_lm sh') = removeAll (g_blk p) (lm_full (sh_lm sh))"
    "lm_full_cnt (sh_lm sh') = lm_full_cnt (sh_lm sh) - 1" "lm_victim_cnt (sh_lm sh') = lm_victim_cnt (sh_lm sh) + 1" "sh_gpp sh' = sh_gpp sh" "g_blk p < n_lines (sh_lm sh')"
proof -
  define len where "len = min rem (sh_gpp sh - grain mod sh_gpp sh)"
  let ?l = "g_blk p" and ?f = "\<lambda>x. x\<lparr>ln_igc := ln_igc x + int len\<rparr>"
  obtain l sh2 sh3 sh4 where e: "0 < len" "count_invalid (sh\<lparr>inv_spin := True\<rparr>) p len w0 = Inr (l, wfl, sh2)" "rem' = rem - len"
    "drop_line sh2 l len wfl = Inr sh3" "clear_grain sh3 p page grain len = Inr sh4" "sh' = sh4\<lparr>inv_spin := False\<rparr>"
    using r unfolding invalidate_page_def lock_inv_def len_def Let_def by (auto elim!: bindR_InrE split: if_splits)
  note cr = count_invalid_result [OF e(2)]
  have d: "l = ?l" "?l < n_lines (sh_lm sh)" "wfl" "sh_lm sh2 = set_line ?l ?f (sh_lm sh)" "sh_build sh2 = sh_build sh"
    using cr w by (auto simp: line_of_def)
  obtain lm1 lm2 where m: "lower_line (sh_lm sh2) ?l len = Inr lm1" "full_to_victim lm1 ?l = Inr lm2"
    "sh3 = sh2\<lparr>lm_spin := True, sh_lm := lm2, lm_spin := False\<rparr>"
    by (rule drop_line_result [OF e(4)]) (use d(1,3) in simp)
  let ?y = "?f (lm_lines (sh_lm sh) ! ?l)"
  have "loose q ((lm_lines (sh_lm sh))[?l := ?y])" using q(2) d(2) by (intro loose_update) (auto simp: loose_def)
  then have l2: "loose q (lm_lines (sh_lm sh2))" using d(4) by (simp add: set_line_def)
  have q2: "lm_victim (sh_lm sh2) = Some q" "?l < n_lines (sh_lm sh2)" using q(1) d(2,4) by simp_all
  obtain q1 where q1: "lm_victim lm1 = Some q1" "loose q1 (lm_lines lm1)" "pq_size q1 = pq_size q" "queued q1 = queued q"
    "lm_full lm1 = lm_full (sh_lm sh2)" "lm_full_cnt lm1 = lm_full_cnt (sh_lm sh2)" "lm_victim_cnt lm1 = lm_victim_cnt (sh_lm sh2)"
    "n_lines lm1 = n_lines (sh_lm sh2)"
    using q2(1) l2 q2(2) m(1) by (rule lower_line_bag)
  obtain c q3 ls where i: "pqueue_insert (Some q1) (lm_lines lm1) ?l = Inr (c, q3, ls)"
    "lm2 = lm1\<lparr>lm_full := removeAll ?l (lm_full lm1), lm_free := removeAll ?l (lm_free lm1), lm_full_cnt := lm_full_cnt lm1 - 1,
       lm_victim := q3, lm_lines := ls, lm_victim_cnt := lm_victim_cnt lm1 + 1\<rparr>"
    using m(2) q1(1) by (auto simp: full_to_victim_def Let_def elim!: bindR_InrE)
  obtain q' where q': "q3 = Some q'" "loose q' ls" "pq_size q' = pq_size q1 + 1" "queued q' = add_mset ?l (queued q1)"
    using q1(2) i(1) by (rule insert_bag)
  have "sh_lm sh' = lm2" "sh_build sh' = sh_build sh" using clear_grain_frame [OF e(5)] m(3) e(6) d(5) by simp_all
  moreover have "victim.handle q1" using q1(2) by (simp add: loose_def)
  then have "length ls = n_lines (sh_lm sh)" using strip_length [OF victim_views(1) [OF _ i(1)]] q1(8) d(4) by simp
  ultimately show thesis using that [of q'] d(2,3) e(1,3) q' q1 i(2) unfolding d(4) len_def by (simp add: set_line_def)
qed

lemma full_rounds:
  assumes "lm_victim (sh_lm sh) = Some q" "loose q (lm_lines (sh_lm sh))" "mark_invalid_loop sh p page grain rem wfl = Inr sh'"
    "wfl \<or> line_cap sh \<le> ln_vgc (line_of sh (g_blk p))" "k = (grain mod sh_gpp sh + rem + sh_gpp sh - 1) div sh_gpp sh"
  shows "\<exists>q'. lm_victim (sh_lm sh') = Some q' \<and> queued q' = queued q + replicate_mset k (g_blk p) \<and> pq_size q' = pq_size q + k \<and>
    lm_full (sh_lm sh') = removeAll (g_blk p) (lm_full (sh_lm sh)) \<and>
    lm_full_cnt (sh_lm sh') = lm_full_cnt (sh_lm sh) - of_nat k \<and> lm_victim_cnt (sh_lm sh') = lm_victim_cnt (sh_lm sh) + of_nat k"
  using assms
proof (induction sh p page grain rem wfl arbitrary: q k rule: mark_invalid_loop.induct)
  case (1 sh p page grain rem wfl)
  obtain wfl1 rem1 sh1 where i: "invalidate_page sh p page grain rem wfl = Inr (wfl1, rem1, sh1)"
    using "1.prems"(3) by (auto simp: mark_invalid_loop.simps [of sh] split: sum.splits)
  obtain q1 where f: "wfl1" "rem1 = rem - min rem (sh_gpp sh - grain mod sh_gpp sh)" "0 < min rem (sh_gpp sh - grain mod sh_gpp sh)"
    "lm_victim (sh_lm sh1) = Some q1" "loose q1 (lm_lines (sh_lm sh1))" "queued q1 = add_mset (g_blk p) (queued q)"
    "pq_size q1 = pq_size q + 1" "lm_full (sh_lm sh1) = removeAll (g_blk p) (lm_full (sh_lm sh))"
    "lm_full_cnt (sh_lm sh1) = lm_full_cnt (sh_lm sh) - 1" "lm_victim_cnt (sh_lm sh1) = lm_victim_cnt (sh_lm sh) + 1" "sh_gpp sh1 = sh_gpp sh"
    "g_blk p < n_lines (sh_lm sh1)"
    using "1.prems"(1,2) i "1.prems"(4) by (rule full_round)
  have g: "0 < sh_gpp sh" "grain mod sh_gpp sh < sh_gpp sh" using grain_per_page_pos(1) by simp_all
  show ?case
  proof (cases "rem1 = 0")
    case True
    then have "k = 1" using f(2,3) g unfolding "1.prems"(5) by (intro div_nat_eqI) auto
    moreover have "sh' = sh1" using "1.prems"(3) i True by (simp add: mark_invalid_loop.simps [of sh])
    ultimately show ?thesis using f by simp
  next
    case False
    obtain p1 page1 where n: "peek_next_page (sh_spp sh1) p = Inr p1" "g_blk p1 = ln_id (line_of sh1 (g_blk p))" "ppa2pgidx (sh_spp sh1) p1 = Inr page1"
      "mark_invalid_loop sh1 p1 page1 (PPA_TO_PGA (sh_build sh1) page1 0) rem1 wfl1 = Inr sh'"
      using "1.prems"(3) i False by (auto simp: mark_invalid_loop.simps [of sh] bindR_eq_Inr)
    have id: "g_blk p1 = g_blk p" using loose_id [OF f(5)] f(12) n(2) by (simp add: line_of_def)
    let ?g = "PPA_TO_PGA (sh_build sh1) page1 0" and ?k = "(rem1 + sh_gpp sh - 1) div sh_gpp sh"
    have g0: "?g mod sh_gpp sh1 = 0" by (simp add: PPA_TO_PGA_def)
    have r: "rem1 = rem - (sh_gpp sh - grain mod sh_gpp sh)" "sh_gpp sh - grain mod sh_gpp sh < rem" using f(2) False by auto
    then have "grain mod sh_gpp sh + rem + sh_gpp sh - 1 = (rem1 + sh_gpp sh - 1) + sh_gpp sh" using g False by linarith
    then have k: "k = Suc ?k" unfolding "1.prems"(5) using div_add_self2 [of "sh_gpp sh" "rem1 + sh_gpp sh - 1"] g(1) by (metis Suc_eq_plus1 not_gr_zero)
    have ih: "\<exists>q'. lm_victim (sh_lm sh') = Some q' \<and> queued q' = queued q1 + replicate_mset ?k (g_blk p1) \<and> pq_size q' = pq_size q1 + ?k \<and>
      lm_full (sh_lm sh') = removeAll (g_blk p1) (lm_full (sh_lm sh1)) \<and>
      lm_full_cnt (sh_lm sh') = lm_full_cnt (sh_lm sh1) - of_nat ?k \<and> lm_victim_cnt (sh_lm sh') = lm_victim_cnt (sh_lm sh1) + of_nat ?k"
      by (rule "1.IH" [OF i refl refl False n(1) _ n(3) f(4,5) n(4)]) (use f(1,11) g0 n(2) in simp_all)
    then show ?thesis using id f(6-10) k by (auto simp: ac_simps)
  qed
qed

lemma reach_queue:
  assumes "shard_ok sh held" "lm_victim (sh_lm sh) = Some q"
  shows "queue_ok (sh_lm sh) q" "loose q (lm_lines (sh_lm sh))" "distinct (lm_full (sh_lm sh))" "set (lm_full (sh_lm sh)) \<inter> pq_elems q = {}"
proof -
  obtain q1 where q1: "queue_ok (sh_lm sh) q1" "marks_ok (lm_lines (sh_lm sh)) (pq_elems q1) {}"
    "places_ok (n_lines (sh_lm sh)) (lm_free (sh_lm sh) @ lm_full (sh_lm sh)) (pq_elems q1) (set (cur_lines sh) \<union> held)"
    using shard_okD(11) [OF assms(1)] by (rule lm_okE)
  have e: "q1 = q" using q1(1) assms(2) by (simp add: queue_ok_def)
  show "queue_ok (sh_lm sh) q" "distinct (lm_full (sh_lm sh))" "set (lm_full (sh_lm sh)) \<inter> pq_elems q = {}"
    using q1 e by (auto simp: places_ok_def)
  note qs = q1(1) [unfolded e queue_ok_def pq_part_def pq_shape_def pq_placed_def]
  have "ln_pos (lm_lines (sh_lm sh) ! i) < pq_size q" if "i < n_lines (sh_lm sh)" for i
  proof (cases "i \<in> pq_elems q")
    case True
    then obtain k where "k \<in> {1..<pq_size q}" "i = pq_d q k" by (auto simp: pq_elems_def)
    then show ?thesis using qs by (auto simp: victim_line_get_pos_def)
  next
    case False
    then show ?thesis using q1(2) e that qs by (auto simp: marks_ok_def)
  qed
  moreover have "map ln_id (lm_lines (sh_lm sh)) = [0..<n_lines (sh_lm sh)]"
    using q1(2) by (intro nth_equalityI) (simp_all add: marks_ok_def)
  ultimately show "loose q (lm_lines (sh_lm sh))" using qs by (auto simp: loose_def in_set_conv_nth)
qed

text \<open>
  \<^bold>\<open>C6.\<close>  An overwrite that spans pages of a full line corrupts line management.  In every state of a lawful run, if all
  grains of the line of \<open>grain\<close> are valid, the range to invalidate goes beyond the page of \<open>grain\<close> and
  \<open>mark_grain_invalid\<close> returns, then \<^verbatim>\<open>was_full_line\<close> survives into the round of every further page: the line enters the
  victim queue once for each of the \<open>k \<ge> 2\<close> pages of the range, the count of full lines drops by \<open>k\<close> and the count of
  victims grows by \<open>k\<close>, although only this one line left the full list.
\<close>

theorem full_line_queued_twice:
  assumes "ftl_reach sh held True" "lm_victim (sh_lm sh) = Some q" "grain_line sh grain = Inr l" "ln_vgc (line_of sh l) = line_cap sh"
    "sh_gpp sh - grain mod sh_gpp sh < len" "mark_grain_invalid sh grain len = Inr sh'"
    "k = (grain mod sh_gpp sh + len + sh_gpp sh - 1) div sh_gpp sh"
  shows "2 \<le> k \<and> l \<in> set (lm_full (sh_lm sh)) \<and> count (queued q) l = 0 \<and> ftl_reach sh' held False \<and>
    (\<exists>q'. lm_victim (sh_lm sh') = Some q' \<and> count (queued q') l = k \<and> queued q' = queued q + replicate_mset k l) \<and>
    lm_full (sh_lm sh') = removeAll l (lm_full (sh_lm sh)) \<and> length (lm_full (sh_lm sh')) = length (lm_full (sh_lm sh)) - 1 \<and>
    lm_full_cnt (sh_lm sh') = lm_full_cnt (sh_lm sh) - of_nat k \<and> lm_victim_cnt (sh_lm sh') = lm_victim_cnt (sh_lm sh) + of_nat k"
proof -
  have ok: "shard_ok sh held" using lawful_ok [OF assms(1)] by simp
  note s = shard_okD [OF ok] and rq = reach_queue [OF ok assms(2)]
  obtain p where p: "ppa_to_struct (sh_spp sh) (G_IDX (sh_build sh) grain) = Inr p" "g_blk p = l" using assms(3) by (rule grain_lineE)
  have loop: "mark_invalid_loop sh p (G_IDX (sh_build sh) grain) grain len False = Inr sh'"
    using assms(6) p(1) by (auto simp: mark_grain_invalid_def Let_def bindR_eq_Inr)
  have "line_cap sh \<le> ln_vgc (line_of sh (g_blk p))" using assms(4) p(2) by simp
  then obtain q' where q': "lm_victim (sh_lm sh') = Some q'" "queued q' = queued q + replicate_mset k l"
    "lm_full (sh_lm sh') = removeAll l (lm_full (sh_lm sh))" "lm_full_cnt (sh_lm sh') = lm_full_cnt (sh_lm sh) - of_nat k"
    "lm_victim_cnt (sh_lm sh') = lm_victim_cnt (sh_lm sh) + of_nat k"
    using full_rounds [OF assms(2) rq(2) loop disjI2 assms(7)] p(2) by auto
  obtain wfl rem1 sh1 where "invalidate_page sh p (G_IDX (sh_build sh) grain) grain len False = Inr (wfl, rem1, sh1)"
    using loop by (auto simp: mark_invalid_loop.simps [of sh] split: sum.splits)
  then have l: "l < n_lines (sh_lm sh)" using invalidate_page_ok(7) [OF ok] p(2) by blast
  have full: "l \<in> set (lm_full (sh_lm sh))"
    by (rule full_line_listed [OF s(11) shard_room [OF ok] l]) (use assms(4) in \<open>simp add: line_of_def\<close>)
  then have "count (queued q) l = 0" using rq(4) by (auto simp: queued_def count_eq_zero_iff pq_elems_def)
  moreover have "length (removeAll l (lm_full (sh_lm sh))) = length (lm_full (sh_lm sh)) - 1"
    using full rq(3) by (metis distinct_remove1_removeAll length_remove1)
  moreover have "2 * sh_gpp sh \<le> grain mod sh_gpp sh + len + sh_gpp sh - 1"
    using assms(5) mod_less_divisor [OF grain_per_page_pos(1), of grain "sh_build sh"] by linarith
  then have "2 \<le> k" unfolding assms(7) using div_le_mono [of "2 * sh_gpp sh" _ "sh_gpp sh"] grain_per_page_pos(1) [of "sh_build sh"] by fastforce
  moreover have "\<not> invalid_lawful sh grain len" using assms(3-5) by (simp add: invalid_lawful_def)
  then have "ftl_reach sh' held False" using ftl_reach.grain_invalid [OF assms(1,6)] by simp
  ultimately show ?thesis using q' full by simp
qed

lemmas lawful_defs = valid_lawful_def grain_line_def fits_def room_of_def wps_def line_rank_def wp_digits_def

text \<open>The mapping stream hands out line 1 from end to end, then all its grains are written and the first two pages are overwritten.\<close>

definition full_run :: "demand_shard \<Rightarrow> demand_shard result" where
  "full_run sh =
    bindR (mark_page_valid sh (mk_ppa 0 0 0 1 0)) (\<lambda>sh1. bindR (advance_write_pointer sh1 MAP_IO) (\<lambda>(_, sh2).
    bindR (mark_page_valid sh2 (mk_ppa 0 0 0 1 1)) (\<lambda>sh3. bindR (advance_write_pointer sh3 MAP_IO) (\<lambda>(_, sh4).
    bindR (mark_page_valid sh4 (mk_ppa 0 0 0 1 2)) (\<lambda>sh5. bindR (advance_write_pointer sh5 MAP_IO) (\<lambda>(_, sh6).
    bindR (assertR (valid_lawful sh6 192 64) Bug_on) (\<lambda>_. bindR (mark_grain_valid sh6 192 64) (\<lambda>sh7.
    bindR (assertR (valid_lawful sh7 256 64) Bug_on) (\<lambda>_. bindR (mark_grain_valid sh7 256 64) (\<lambda>sh8.
    bindR (assertR (valid_lawful sh8 320 64) Bug_on) (\<lambda>_. mark_grain_valid sh8 320 64)))))))))))"

definition full_end :: "demand_shard \<Rightarrow> bool" where
  "full_end sh \<longleftrightarrow> sh_gpp sh = 64 \<and> grain_line sh 192 = Inr 1 \<and> ln_vgc (line_of sh 1) = line_cap sh \<and> lm_full (sh_lm sh) = [1] \<and>
     lm_victim (sh_lm sh) \<noteq> None"

lemma full_run_ok:
  "\<exists>r. bindR (small_boot Plus c pc wb) (\<lambda>sh. bindR (full_run sh) (\<lambda>sh1. bindR (assertR (full_end sh1) Bug_on) (\<lambda>_.
     mark_grain_invalid sh1 192 128))) = Inr r"
  unfolding small_boot_defs
  apply (simp add: boot_defs run_defs cong: bindR_weak)
  apply (subst mark_invalid_loop.simps)
  apply (simp add: invalid_defs run_defs full_run_def lawful_defs cong: bindR_weak)
  apply (simp add: full_end_def run_defs lawful_defs cong: bindR_weak)
  apply (subst mark_invalid_loop.simps)
  apply (simp add: invalid_defs run_defs cong: bindR_weak)
  apply (subst mark_invalid_loop.simps)
  apply (simp add: invalid_defs run_defs cong: bindR_weak)
  done

lemma lawful_marks: "ftl_reach sh held True \<Longrightarrow> mark_grain_valid sh grain len = Inr sh' \<Longrightarrow> valid_lawful sh grain len \<Longrightarrow> ftl_reach sh' held True"
  using ftl_reach.grain_valid by fastforce

lemma lawful_invalid: "ftl_reach sh held True \<Longrightarrow> mark_grain_invalid sh grain len = Inr sh' \<Longrightarrow> invalid_lawful sh grain len \<Longrightarrow> ftl_reach sh' held True"
  using ftl_reach.grain_invalid by fastforce

lemma full_run_reach: "ftl_reach sh held True \<Longrightarrow> full_run sh = Inr sh' \<Longrightarrow> ftl_reach sh' held True"
  unfolding full_run_def
  by (auto elim!: bindR_InrE) (meson lawful_marks ftl_reach.advance ftl_reach.page_valid)

theorem full_line_queued_twice_witness:
  "\<exists>sh q sh' q'. ftl_reach sh {} True \<and> lm_victim (sh_lm sh) = Some q \<and> count (queued q) 1 = 0 \<and> lm_full (sh_lm sh) = [1] \<and>
     mark_grain_invalid sh 192 128 = Inr sh' \<and> lm_victim (sh_lm sh') = Some q' \<and> count (queued q') 1 = 2 \<and>
     lm_full (sh_lm sh') = [] \<and> lm_full_cnt (sh_lm sh') = lm_full_cnt (sh_lm sh) - 2"
proof -
  obtain c pc wb where b: "\<forall>b sh. small_boot b c pc wb = Inr sh \<longrightarrow> ftl_reach sh {} True" by (rule small_device)
  obtain sh0 sh sh' where r: "small_boot Plus c pc wb = Inr sh0" "full_run sh0 = Inr sh" "full_end sh" "mark_grain_invalid sh 192 128 = Inr sh'"
    using full_run_ok [of c pc wb] by (auto elim!: bindR_InrE)
  obtain q where e: "sh_gpp sh = 64" "grain_line sh 192 = Inr 1" "ln_vgc (line_of sh 1) = line_cap sh" "lm_full (sh_lm sh) = [1]"
    "lm_victim (sh_lm sh) = Some q" using r(3) by (auto simp: full_end_def)
  have reach: "ftl_reach sh {} True" using full_run_reach b r(1,2) by blast
  show ?thesis using full_line_queued_twice [OF reach e(5,2,3) _ r(4) refl] e(1,4,5) reach r(4) by (auto simp: exI)
qed

subsection \<open>The queue is not told of grains written to a queued line\<close>

lemma mark_grain_valid_line:
  assumes "mark_grain_valid sh grain len = Inr sh2" "grain_line sh grain = Inr l"
  shows "sh_lm sh2 = set_line l (\<lambda>x. x\<lparr>ln_vgc := ln_vgc x + int len\<rparr>) (sh_lm sh)" "l < n_lines (sh_lm sh)"
  using assms unfolding mark_grain_valid_def bump_line_def lock_v_def lock_lm_def get_line_def grain_line_def
  by (auto simp: bindR_eq_Inr Let_def split: if_splits build.splits)

text \<open>
  \<^bold>\<open>C7.\<close>  The victim queue is not told when a queued line gains valid grains.  In every state of a lawful run, if \<open>len\<close>
  grains are lawfully marked valid on the line in front of the victim queue (it was queued when its last page was handed
  out, the grains of that page are counted afterwards) and another queued line \<open>y\<close> then has fewer valid grains, the
  queue is no longer heap-ordered, and victim selection, unless stores are directed to that line, takes the line in
  front although \<open>y\<close> is emptier.
\<close>

theorem stale_victim_priority:
  assumes "ftl_reach sh held True" "lm_victim (sh_lm sh) = Some q" "l = pq_d q 1" "y \<in> pq_elems q" "y \<noteq> l"
    "grain_line sh grain = Inr l" "valid_lawful sh grain len" "mark_grain_valid sh grain len = Inr sh2"
    "ln_vgc (line_of sh y) < ln_vgc (line_of sh l) + int len" "busy_line sh2 = Inr busy" "busy \<noteq> l"
  shows "ftl_reach sh2 held True \<and> lm_victim (sh_lm sh2) = Some q \<and> ln_vgc (line_of sh2 y) < ln_vgc (line_of sh2 l) \<and>
    \<not> pqueue_is_valid q (lm_lines (sh_lm sh2)) \<and> (\<exists>sh3. select_victim_line sh2 = Inr (Some l, sh3))"
proof -
  have r2: "ftl_reach sh2 held True" using ftl_reach.grain_valid [OF assms(1,8)] assms(7) by simp
  have ok: "shard_ok sh2 held" using lawful_ok [OF r2] by simp
  note s = shard_okD [OF ok] and m = mark_grain_valid_line [OF assms(8,6)]
  have q: "lm_victim (sh_lm sh2) = Some q" using m(1) assms(2) by simp
  have qk: "queue_ok (sh_lm sh2) q" using reach_queue(1) [OF ok q] .
  have less: "ln_vgc (line_of sh2 y) < ln_vgc (line_of sh2 l)"
    using assms(5,9) m by (simp add: line_of_def set_line_def)
  have n1: "pq_size q \<noteq> 1" "pq_size q \<noteq> 0" using assms(4) by (auto simp: pq_elems_def)
  have small: "0 \<le> ln_vgc (lm_lines (sh_lm sh2) ! i) \<and> ln_vgc (lm_lines (sh_lm sh2) ! i) < 2 ^ 31" if "i < n_lines (sh_lm sh2)" for i
    using lawful_vgc [OF r2 that] .
  have nv: "\<not> pqueue_is_valid q (lm_lines (sh_lm sh2))"
    using heap_root_least [OF qk _ n1(1) small assms(4)] less assms(3) by (auto simp: line_of_def)
  have "ln_id (lm_lines (sh_lm sh2) ! l) = l" using lm_ok_counts(5) [OF s(11), of l] m by simp
  then have sel: "select_loop (sh_lm sh2) busy None = Inr (v, lm') \<Longrightarrow> v = Some l" for v lm'
    using q n1 assms(3,11) by (auto simp: select_loop.simps [of "sh_lm sh2"] pqueue_peek_def put_back_def Let_def)
  have "busy_line (sh2\<lparr>lm_spin := True\<rparr>) = Inr busy" using assms(10) by simp
  then obtain v lm' where "select_victim_line sh2 = Inr (v, sh2\<lparr>lm_spin := True, sh_lm := lm', lm_spin := False\<rparr>)"
    "select_loop (sh_lm sh2) busy None = Inr (v, lm')" by (rule select_with [OF ok])
  then show ?thesis using sel r2 q less nv by blast
qed

text \<open>Line 0, with one page overwritten, is handed out to the end; line 1 too, with nothing valid left; then the last page of line 0 is
  written.\<close>

definition stale_run :: "demand_shard \<Rightarrow> demand_shard result" where
  "stale_run sh =
    bindR (advance_write_pointer sh USER_IO) (\<lambda>(_, sh1). bindR (advance_write_pointer sh1 USER_IO) (\<lambda>(_, sh2).
    bindR (mark_page_valid sh2 (mk_ppa 0 0 0 1 0)) (\<lambda>sh3. bindR (advance_write_pointer sh3 MAP_IO) (\<lambda>(_, sh4).
    bindR (assertR (valid_lawful sh4 192 64) Bug_on) (\<lambda>_. bindR (mark_grain_valid sh4 192 64) (\<lambda>sh5.
    bindR (assertR (invalid_lawful sh5 192 64) Bug_on) (\<lambda>_. bindR (mark_grain_invalid sh5 192 64) (\<lambda>sh6.
    bindR (advance_write_pointer sh6 MAP_IO) (\<lambda>(_, sh7). bindR (advance_write_pointer sh7 MAP_IO) (\<lambda>(_, sh8).
    bindR (mark_page_valid sh8 (mk_ppa 0 0 0 0 2)) (\<lambda>sh9. Inr (sh9\<lparr>sh_offset := 36864\<rparr>))))))))))))"

definition stale_end :: "demand_shard \<Rightarrow> bool" where
  "stale_end sh = (case lm_victim (sh_lm sh) of None \<Rightarrow> False | Some q \<Rightarrow> pq_size q = 3 \<and> pq_d q 1 = 0 \<and> pq_d q 2 = 1 \<and>
     grain_line sh 128 = Inr 0 \<and> valid_lawful sh 128 64 \<and> ln_vgc (line_of sh 0) = 0 \<and> ln_vgc (line_of sh 1) = 0)"

lemma stale_run_ok:
  "\<exists>r. bindR (small_boot Plus c pc wb) (\<lambda>sh. bindR (stale_run sh) (\<lambda>sh1. bindR (assertR (stale_end sh1) Bug_on) (\<lambda>_.
     bindR (mark_grain_valid sh1 128 64) (\<lambda>sh2. bindR (busy_line sh2) (\<lambda>b. assertR (b = 3) Bug_on))))) = Inr r"
  unfolding small_boot_defs
  apply (simp add: boot_defs run_defs cong: bindR_weak)
  apply (subst mark_invalid_loop.simps)
  apply (simp add: invalid_defs run_defs stale_run_def lawful_defs invalid_lawful_def cong: bindR_weak)
  apply (subst mark_invalid_loop.simps)
  apply (simp add: invalid_defs run_defs cong: bindR_weak)
  apply (simp add: stale_end_def run_defs lawful_defs select_defs cong: bindR_weak)
  done

lemma stale_run_reach:
  assumes "ftl_reach sh held True" "stale_run sh = Inr sh'"
  shows "ftl_reach sh' held True"
proof -
  obtain b1 sh1 b2 sh2 sh3 b4 sh4 sh5 sh6 b7 sh7 b8 sh8 sh9 where r: "advance_write_pointer sh USER_IO = Inr (b1, sh1)"
    "advance_write_pointer sh1 USER_IO = Inr (b2, sh2)" "mark_page_valid sh2 (mk_ppa 0 0 0 1 0) = Inr sh3" "advance_write_pointer sh3 MAP_IO = Inr (b4, sh4)"
    "mark_grain_valid sh4 192 64 = Inr sh5" "valid_lawful sh4 192 64" "mark_grain_invalid sh5 192 64 = Inr sh6" "invalid_lawful sh5 192 64"
    "advance_write_pointer sh6 MAP_IO = Inr (b7, sh7)" "advance_write_pointer sh7 MAP_IO = Inr (b8, sh8)" "mark_page_valid sh8 (mk_ppa 0 0 0 0 2) = Inr sh9"
    "sh' = sh9\<lparr>sh_offset := 36864\<rparr>"
    using assms(2) unfolding stale_run_def by (auto elim!: bindR_InrE)
  have "ftl_reach sh4 held True" using assms(1) r(1-4) by (meson ftl_reach.advance ftl_reach.page_valid)
  then have "ftl_reach sh6 held True" using r(5-8) lawful_marks lawful_invalid by blast
  then show ?thesis using r(9-12) by (metis ftl_reach.advance ftl_reach.page_valid ftl_reach.offset)
qed

theorem stale_victim_priority_witness:
  "\<exists>sh sh2 sh3. ftl_reach sh {} True \<and> mark_grain_valid sh 128 64 = Inr sh2 \<and> select_victim_line sh2 = Inr (Some 0, sh3) \<and>
     ln_vgc (line_of sh2 1) < ln_vgc (line_of sh2 0)"
proof -
  obtain c pc wb where b: "\<forall>b sh. small_boot b c pc wb = Inr sh \<longrightarrow> ftl_reach sh {} True" by (rule small_device)
  obtain sh0 sh sh2 where r: "small_boot Plus c pc wb = Inr sh0" "stale_run sh0 = Inr sh" "stale_end sh" "mark_grain_valid sh 128 64 = Inr sh2"
    "busy_line sh2 = Inr 3"
    using stale_run_ok [of c pc wb] by (auto elim!: bindR_InrE)
  obtain q where e: "lm_victim (sh_lm sh) = Some q" "pq_size q = 3" "0 = pq_d q 1" "pq_d q 2 = 1" "grain_line sh 128 = Inr 0" "valid_lawful sh 128 64"
    "ln_vgc (line_of sh 1) < ln_vgc (line_of sh 0) + int 64" using r(3) by (auto simp: stale_end_def split: option.splits)
  have reach: "ftl_reach sh {} True" using stale_run_reach b r(1,2) by blast
  have "pq_d q 2 \<in> pq_elems q" unfolding pq_elems_def using e(2) by (intro imageI) simp
  then have "1 \<in> pq_elems q" using e(4) by simp
  then show ?thesis using stale_victim_priority [OF reach e(1,3) _ _ e(5,6) r(4) e(7) r(5)] reach r(4) by auto
qed

end
