(* ===== verification/IoQueue.thy ===== *)
theory IoQueue
  imports Ssd
begin

text \<open>
  \<^verbatim>\<open>io.c\<close>: the work queues between the dispatcher and the I/O workers, and the NVMe submission and completion
  queues around them.

  Each worker owns an array of work items that are chained into two lists by their \<^verbatim>\<open>next\<close> and \<^verbatim>\<open>prev\<close>
  indices: the free items and the requests in flight.  The dispatcher takes a free item, fills it in and inserts it by
  target time; the worker walks the list, performs the I/O of an item and completes it once its target time has
  passed; the dispatcher later returns the completed items at the head of the list to the free list.

  The index \<^verbatim>\<open>-1\<close> is \<open>None\<close>; the array length is \<^verbatim>\<open>NR_MAX_PARALLEL_IO\<close> in the code.  A \<^verbatim>\<open>struct buffer *\<close>, a
  callback and its arguments are opaque numbers.  The clock, the identification of key-value commands, the
  data copy of \<^verbatim>\<open>__do_perform_io_kv\<close> and the callbacks are arguments; what they are called on is
  recorded as \<open>io_event\<close>s.  The loops along the chains take the array length as fuel and end in \<open>Diverges\<close> when
  a chain is cyclic.  The counters that only \<^verbatim>\<open>PERF_DEBUG\<close> keeps are left out.
\<close>

section \<open>Work items and workers\<close>

definition NR_MAX_PARALLEL_IO :: nat where
  "NR_MAX_PARALLEL_IO = 16384"

record io_work =
  w_sqid :: int
  w_cqid :: int
  w_sq_entry :: int
  w_command_id :: u32
  w_nsecs_start :: u64
  w_nsecs_target :: u64
  w_nsecs_enqueue :: u64
  w_is_copied :: bool
  w_is_completed :: bool
  w_status :: u32
  w_result0 :: u32
  w_result1 :: u32
  w_is_internal :: bool
  w_write_buffer :: "nat option"
  w_buffs_to_release :: nat
  w_next :: "nat option"
  w_prev :: "nat option"
  w_read :: bool
  w_len :: u64
  w_mem :: "nat option"
  w_ppa :: u64
  w_cb :: "nat option"
  w_args :: "nat option"
  w_cb_w :: "(nat \<times> nat) option"

record io_worker =
  wk_queue :: "io_work list"
  wk_free_seq :: "nat option"
  wk_free_seq_end :: "nat option"
  wk_io_seq :: "nat option"
  wk_io_seq_end :: "nat option"
  wk_latest_nsecs :: u64
  wk_id :: nat

record nvmev_result =
  r_status :: u32
  r_nsecs_target :: u64
  r_cb :: "nat option"
  r_args :: "nat option"

definition work_at :: "io_work list \<Rightarrow> nat option \<Rightarrow> io_work result" where
  "work_at q i = (case i of None \<Rightarrow> Inl Out_of_bounds
     | Some k \<Rightarrow> if k < length q then Inr (q ! k) else Inl Out_of_bounds)"

definition set_work :: "io_work list \<Rightarrow> nat option \<Rightarrow> (io_work \<Rightarrow> io_work) \<Rightarrow> io_work list result" where
  "set_work q i f = (case i of None \<Rightarrow> Inl Out_of_bounds
     | Some k \<Rightarrow> if k < length q then Inr (q[k := f (q ! k)]) else Inl Out_of_bounds)"

definition zero_work :: io_work where
  "zero_work = \<lparr>w_sqid = 0, w_cqid = 0, w_sq_entry = 0, w_command_id = 0, w_nsecs_start = 0, w_nsecs_target = 0,
     w_nsecs_enqueue = 0, w_is_copied = False, w_is_completed = False, w_status = 0, w_result0 = 0, w_result1 = 0,
     w_is_internal = False, w_write_buffer = None, w_buffs_to_release = 0, w_next = Some 0, w_prev = Some 0,
     w_read = False, w_len = 0, w_mem = None, w_ppa = 0, w_cb = None, w_args = None, w_cb_w = None\<rparr>"

text \<open>The part of \<^verbatim>\<open>NVMEV_IO_WORKER_INIT\<close> that sets up one worker with \<open>n\<close> work items.\<close>

definition io_worker_init :: "nat \<Rightarrow> nat \<Rightarrow> io_worker" where
  "io_worker_init n worker_id =
     \<lparr>wk_queue = map (\<lambda>i. zero_work\<lparr>w_next := if i = n - 1 then None else Some (i + 1),
                                    w_prev := if i = 0 then None else Some (i - 1)\<rparr>) [0..<n],
      wk_free_seq = Some 0, wk_free_seq_end = Some (n - 1), wk_io_seq = None, wk_io_seq_end = None,
      wk_latest_nsecs = 0, wk_id = worker_id\<rparr>"

section \<open>The dispatcher's side\<close>

fun find_slot :: "nat \<Rightarrow> io_work list \<Rightarrow> u64 \<Rightarrow> u64 \<Rightarrow> nat option \<Rightarrow> nat option result" where
  "find_slot fuel q latest target None = Inr None"
| "find_slot 0 q latest target (Some c) = Inl Diverges"
| "find_slot (Suc fuel) q latest target (Some c) =
     bindR (work_at q (Some c)) (\<lambda>w.
     if w_nsecs_target w \<le> latest then Inr (Some c)
     else if w_nsecs_target w \<le> target then Inr (Some c)
     else find_slot fuel q latest target (w_prev w))"

definition insert_req_sorted :: "nat \<Rightarrow> io_worker \<Rightarrow> u64 \<Rightarrow> io_worker result" where
  "insert_req_sorted entry worker nsecs_target =
     (let q = wk_queue worker in
      case wk_io_seq worker of
        None \<Rightarrow> Inr (worker\<lparr>wk_io_seq := Some entry, wk_io_seq_end := Some entry\<rparr>)
      | Some head \<Rightarrow>
          bindR (find_slot (length q) q (wk_latest_nsecs worker) nsecs_target (wk_io_seq_end worker)) (\<lambda>curr.
          if curr = None then
            bindR (set_work q (Some head) (w_prev_update (\<lambda>_. Some entry))) (\<lambda>q.
            bindR (set_work q (Some entry) (w_next_update (\<lambda>_. Some head))) (\<lambda>q.
            Inr (worker\<lparr>wk_queue := q, wk_io_seq := Some entry\<rparr>)))
          else
            bindR (work_at q curr) (\<lambda>w.
            if w_next w = None then
              bindR (set_work q (Some entry) (w_prev_update (\<lambda>_. curr))) (\<lambda>q.
              bindR (set_work q curr (w_next_update (\<lambda>_. Some entry))) (\<lambda>q.
              Inr (worker\<lparr>wk_queue := q, wk_io_seq_end := Some entry\<rparr>)))
            else
              bindR (set_work q (Some entry) (\<lambda>e. e\<lparr>w_prev := curr, w_next := w_next w\<rparr>)) (\<lambda>q.
              bindR (set_work q (w_next w) (w_prev_update (\<lambda>_. Some entry))) (\<lambda>q.
              bindR (set_work q curr (w_next_update (\<lambda>_. Some entry))) (\<lambda>q.
              Inr (worker\<lparr>wk_queue := q\<rparr>)))))))"

text \<open>
  Taking the head of a worker's free list; \<open>None\<close> is the NULL the code returns when the list is down to
  its last item.  The one-time kernel warning (\<^verbatim>\<open>WARN_ON_ONCE\<close>) the code prints then changes no state and is left out.
\<close>

definition take_free :: "io_worker \<Rightarrow> (nat option \<times> io_worker) result" where
  "take_free worker =
     bindR (work_at (wk_queue worker) (wk_free_seq worker)) (\<lambda>w.
     if (case w_next w of None \<Rightarrow> True | Some n \<Rightarrow> length (wk_queue worker) \<le> n) then Inr (None, worker)
     else Inr (wk_free_seq worker, worker\<lparr>wk_free_seq := w_next w\<rparr>))"

definition fill_request ::
  "int \<Rightarrow> int \<Rightarrow> int \<Rightarrow> u32 \<Rightarrow> u64 \<Rightarrow> u64 \<Rightarrow> nvmev_result \<Rightarrow> io_work \<Rightarrow> io_work" where
  "fill_request sqid cqid sq_entry command_id nsecs_start now ret w =
     w\<lparr>w_sqid := sqid, w_cqid := cqid, w_sq_entry := sq_entry, w_command_id := command_id,
       w_nsecs_start := nsecs_start, w_nsecs_enqueue := now, w_nsecs_target := r_nsecs_target ret,
       w_status := r_status ret, w_is_completed := False, w_is_copied := False, w_prev := None, w_next := None,
       w_cb := r_cb ret, w_args := r_args ret, w_is_internal := False\<rparr>"

definition fill_release :: "int \<Rightarrow> u64 \<Rightarrow> u64 \<Rightarrow> nat option \<Rightarrow> nat \<Rightarrow> io_work \<Rightarrow> io_work" where
  "fill_release sqid now nsecs_target write_buffer buffs_to_release w =
     w\<lparr>w_sqid := sqid, w_nsecs_start := now, w_nsecs_enqueue := now, w_nsecs_target := nsecs_target,
       w_is_completed := False, w_is_copied := True, w_prev := None, w_next := None, w_is_internal := True,
       w_write_buffer := write_buffer, w_buffs_to_release := buffs_to_release\<rparr>"

definition fill_callback ::
  "int \<Rightarrow> u64 \<Rightarrow> nat option \<Rightarrow> u64 \<Rightarrow> u64 \<Rightarrow> nat option \<Rightarrow> nat option \<Rightarrow> bool \<Rightarrow> (nat \<times> nat) option \<Rightarrow>
    io_work \<Rightarrow> io_work" where
  "fill_callback sqid nsecs_start mem ppa len cb args read cb_w w =
     w\<lparr>w_sqid := sqid, w_nsecs_start := nsecs_start, w_nsecs_enqueue := nsecs_start, w_nsecs_target := ppa,
       w_is_completed := False, w_is_copied := False, w_prev := None, w_next := None, w_cb := cb, w_args := args,
       w_cb_w := cb_w, w_read := read, w_mem := mem, w_ppa := ppa, w_len := len, w_is_internal := True,
       w_write_buffer := None, w_buffs_to_release := 0\<rparr>"

text \<open>What the three enqueueing functions do on the worker that was chosen: take, fill, insert.\<close>

definition enqueue_work :: "(io_work \<Rightarrow> io_work) \<Rightarrow> io_worker \<Rightarrow> (nat option \<times> io_worker) result" where
  "enqueue_work fill worker =
     bindR (take_free worker) (\<lambda>(entry, worker).
     case entry of
       None \<Rightarrow> Inr (None, worker)
     | Some e \<Rightarrow>
         bindR (set_work (wk_queue worker) (Some e) fill) (\<lambda>q.
         bindR (insert_req_sorted e (worker\<lparr>wk_queue := q\<rparr>) (w_nsecs_target (q ! e))) (\<lambda>worker.
         Inr (Some e, worker))))"

text \<open>
  The reclaim loop walks the completed prefix of the list in flight; the result is the last item of that
  prefix, \<open>None\<close> when the head is still in progress.
\<close>

fun reclaim_scan :: "nat \<Rightarrow> io_work list \<Rightarrow> u64 \<Rightarrow> nat option \<Rightarrow> nat option \<Rightarrow> nat option result" where
  "reclaim_scan fuel q latest last_entry None = Inr last_entry"
| "reclaim_scan 0 q latest last_entry (Some c) = Inl Diverges"
| "reclaim_scan (Suc fuel) q latest last_entry (Some c) =
     bindR (work_at q (Some c)) (\<lambda>w.
     if w_is_completed w \<and> w_is_copied w \<and> w_nsecs_target w \<le> latest
     then reclaim_scan fuel q latest (Some c) (w_next w)
     else Inr last_entry)"

definition reclaim_worker :: "io_worker \<Rightarrow> io_worker result" where
  "reclaim_worker worker =
     (let q = wk_queue worker; first_entry = wk_io_seq worker in
      bindR (reclaim_scan (length q) q (wk_latest_nsecs worker) None first_entry) (\<lambda>last_entry.
      if last_entry = None then Inr worker
      else
        bindR (work_at q last_entry) (\<lambda>w.
        bindR (if w_next w \<noteq> None then set_work q (w_next w) (w_prev_update (\<lambda>_. None)) else Inr q) (\<lambda>q.
        bindR (set_work q last_entry (w_next_update (\<lambda>_. None))) (\<lambda>q.
        bindR (set_work q first_entry (w_prev_update (\<lambda>_. wk_free_seq_end worker))) (\<lambda>q.
        bindR (set_work q (wk_free_seq_end worker) (w_next_update (\<lambda>_. first_entry))) (\<lambda>q.
        Inr (worker\<lparr>wk_queue := q, wk_io_seq := w_next w, wk_free_seq_end := last_entry\<rparr>))))))))"

section \<open>The worker's side\<close>

datatype io_event =
    Perform io_work
  | Run_cb nat "nat option"
  | Set_result "nat \<times> nat" u64 u64 u64
  | Post io_work
  | Release nat nat

text \<open>
  The surroundings of a worker: whether DMA is used, which commands are key-value commands, what the copy of
  a key-value command returns, and what a callback returns (target time, result, status).
\<close>

record io_env =
  env_dma :: bool
  env_is_kv :: "io_work \<Rightarrow> bool"
  env_perform_kv :: "io_work \<Rightarrow> u32"
  env_cb :: "nat \<Rightarrow> nat \<Rightarrow> u64 \<times> u64 \<times> u64"

definition run_internal :: "io_env \<Rightarrow> io_work \<Rightarrow> io_event list result" where
  "run_internal env w =
     (case w_cb w of
        None \<Rightarrow> Inr []
      | Some f \<Rightarrow>
          (case w_args w of
             None \<Rightarrow> Inl Bug_on
           | Some a \<Rightarrow>
               (let (target, result, status) = env_cb env f a in
                Inr (Run_cb f (Some a) #
                     (case w_cb_w w of None \<Rightarrow> [] | Some r \<Rightarrow> [Set_result r target result status])))))"

definition run_request :: "io_env \<Rightarrow> io_work list \<Rightarrow> nat \<Rightarrow> io_work \<Rightarrow> (io_work list \<times> io_event list) result" where
  "run_request env q c w =
     (if env_dma env \<or> \<not> env_is_kv env w then Inr (q, [Perform w])
      else
        bindR (set_work q (Some c) (\<lambda>v. v\<lparr>w_result0 := env_perform_kv env w, w_result1 := env_perform_kv env w\<rparr>)) (\<lambda>q.
        Inr (q, Perform w # (case w_cb w of None \<Rightarrow> [] | Some f \<Rightarrow> [Run_cb f (w_args w)]))))"

definition copy_work :: "io_env \<Rightarrow> io_work list \<Rightarrow> nat \<Rightarrow> (io_work list \<times> io_event list) result" where
  "copy_work env q c =
     bindR (work_at q (Some c)) (\<lambda>w.
     if w_is_copied w then Inr (q, [])
     else
       bindR (if w_is_internal w then bindR (run_internal env w) (\<lambda>evs. Inr (q, evs))
              else run_request env q c w) (\<lambda>(q, evs).
       bindR (set_work q (Some c) (w_is_copied_update (\<lambda>_. True))) (\<lambda>q.
       Inr (q, evs))))"

text \<open>
  The results a callback stores through \<^verbatim>\<open>cb_w\<close>, a pointer to a work item of any worker: the index of the worker
  and of the item in its array.
\<close>

definition set_result :: "u64 \<Rightarrow> u64 \<Rightarrow> u64 \<Rightarrow> io_work \<Rightarrow> io_work" where
  "set_result target result status w =
     w\<lparr>w_result0 := ucast result, w_result1 := ucast result, w_status := ucast status, w_nsecs_target := target\<rparr>"

fun write_results :: "io_event list \<Rightarrow> io_worker list \<Rightarrow> io_worker list result" where
  "write_results [] ws = Inr ws"
| "write_results (Set_result (t, e) target result status # evs) ws =
     (if t < length ws then
        bindR (set_work (wk_queue (ws ! t)) (Some e) (set_result target result status)) (\<lambda>q.
        write_results evs (ws[t := (ws ! t)\<lparr>wk_queue := q\<rparr>]))
      else Inl Out_of_bounds)"
| "write_results (ev # evs) ws = write_results evs ws"

definition complete_work :: "u64 \<Rightarrow> io_work list \<Rightarrow> nat \<Rightarrow> (io_work list \<times> io_event list) result" where
  "complete_work curr_nsecs q c =
     bindR (work_at q (Some c)) (\<lambda>w.
     if w_nsecs_target w \<le> curr_nsecs then
       bindR (set_work q (Some c) (w_is_completed_update (\<lambda>_. True))) (\<lambda>q.
       Inr (q, if w_is_internal w
               then (case w_write_buffer w of None \<Rightarrow> [] | Some b \<Rightarrow> [Release b (w_buffs_to_release w)])
               else [Post w]))
     else Inr (q, []))"

text \<open>
  One round of the inner loop of worker \<open>t\<close>: the item \<open>c\<close> at time \<open>curr_nsecs\<close>.  The result is the item to
  visit next, the workers and what happened.
\<close>

definition worker_visit ::
  "io_env \<Rightarrow> u64 \<Rightarrow> nat \<Rightarrow> nat \<Rightarrow> io_worker list \<Rightarrow> (nat option \<times> io_worker list \<times> io_event list) result" where
  "worker_visit env curr_nsecs t c ws =
     (let ws = ws[t := (ws ! t)\<lparr>wk_latest_nsecs := curr_nsecs\<rparr>] in
      bindR (work_at (wk_queue (ws ! t)) (Some c)) (\<lambda>w.
      if w_is_completed w then Inr (w_next w, ws, [])
      else
        bindR (copy_work env (wk_queue (ws ! t)) c) (\<lambda>(q, evs).
        bindR (write_results evs (ws[t := (ws ! t)\<lparr>wk_queue := q\<rparr>])) (\<lambda>ws.
        bindR (complete_work curr_nsecs (wk_queue (ws ! t)) c) (\<lambda>(q, evs').
        bindR (work_at q (Some c)) (\<lambda>w.
        Inr (w_next w, ws[t := (ws ! t)\<lparr>wk_queue := q\<rparr>], evs @ evs')))))))"

text \<open>
  A whole pass along the list in flight, the inner loop of \<^verbatim>\<open>nvmev_io_worker\<close>.  \<open>clock\<close> is the time
  read in each round.
\<close>

fun worker_pass ::
  "nat \<Rightarrow> io_env \<Rightarrow> u64 list \<Rightarrow> nat \<Rightarrow> nat option \<Rightarrow> io_worker list \<Rightarrow> (io_worker list \<times> io_event list) result" where
  "worker_pass fuel env clock t None ws = Inr (ws, [])"
| "worker_pass 0 env clock t (Some c) ws = Inl Diverges"
| "worker_pass (Suc fuel) env [] t (Some c) ws = Inl Diverges"
| "worker_pass (Suc fuel) env (now # clock) t (Some c) ws =
     bindR (worker_visit env now t c ws) (\<lambda>(curr, ws, evs).
     bindR (worker_pass fuel env clock t curr ws) (\<lambda>(ws, evs'). Inr (ws, evs @ evs')))"

section \<open>Choosing a worker\<close>

record io_dev =
  dv_workers :: "io_worker list"
  dv_turn :: nat

definition get_io_worker :: "int \<Rightarrow> io_dev \<Rightarrow> nat result" where
  "get_io_worker sqid dev =
     (if dv_workers dev = [] then Inl Div_by_zero
      else Inr (unat (word_of_int (sqid - 1) :: u32) mod length (dv_workers dev)))"

text \<open>\<open>n\<close> is \<^verbatim>\<open>NR_MAX_PARALLEL_IO\<close> in the code.\<close>

definition io_workers_init :: "nat \<Rightarrow> nat \<Rightarrow> io_dev" where
  "io_workers_init n nr = \<lparr>dv_workers = map (io_worker_init n) [0..<nr], dv_turn = 0\<rparr>"

definition on_worker :: "int \<Rightarrow> (io_work \<Rightarrow> io_work) \<Rightarrow> io_dev \<Rightarrow> ((nat \<times> nat) option \<times> io_dev) result" where
  "on_worker sqid fill dev =
     bindR (get_io_worker sqid dev) (\<lambda>turn.
     bindR (enqueue_work fill (dv_workers dev ! turn)) (\<lambda>(entry, worker).
     case entry of
       None \<Rightarrow> Inr (None, dev)
     | Some e \<Rightarrow> Inr (Some (turn, e), dev\<lparr>dv_workers := (dv_workers dev)[turn := worker],
                        dv_turn := (if turn + 1 = length (dv_workers dev) then 0 else turn + 1)\<rparr>)))"

definition enqueue_io_req ::
  "int \<Rightarrow> int \<Rightarrow> int \<Rightarrow> u32 \<Rightarrow> u64 \<Rightarrow> u64 \<Rightarrow> nvmev_result \<Rightarrow> io_dev \<Rightarrow> ((nat \<times> nat) option \<times> io_dev) result" where
  "enqueue_io_req sqid cqid sq_entry command_id nsecs_start now ret dev =
     on_worker sqid (fill_request sqid cqid sq_entry command_id nsecs_start now ret) dev"

text \<open>\<open>rnd\<close> is the random number the code draws when \<^verbatim>\<open>sqid\<close> is \<^verbatim>\<open>INT_MAX\<close>.\<close>

definition pick_sqid :: "int \<Rightarrow> nat \<Rightarrow> io_dev \<Rightarrow> int result" where
  "pick_sqid sqid rnd dev =
     (if sqid = 2147483647 then
        if dv_workers dev = [] then Inl Div_by_zero else Inr (int (rnd mod length (dv_workers dev)))
      else Inr sqid)"

definition schedule_internal_operation ::
  "int \<Rightarrow> nat \<Rightarrow> u64 \<Rightarrow> u64 \<Rightarrow> nat option \<Rightarrow> nat \<Rightarrow> io_dev \<Rightarrow> io_dev result" where
  "schedule_internal_operation sqid rnd now nsecs_target write_buffer buffs_to_release dev =
     bindR (pick_sqid sqid rnd dev) (\<lambda>sqid.
     bindR (on_worker sqid (fill_release sqid now nsecs_target write_buffer buffs_to_release) dev) (\<lambda>(_, dev).
     Inr dev))"

definition schedule_internal_operation_cb ::
  "int \<Rightarrow> nat \<Rightarrow> u64 \<Rightarrow> nat option \<Rightarrow> u64 \<Rightarrow> u64 \<Rightarrow> nat option \<Rightarrow> nat option \<Rightarrow> bool \<Rightarrow> (nat \<times> nat) option \<Rightarrow>
    io_dev \<Rightarrow> io_dev result" where
  "schedule_internal_operation_cb sqid rnd nsecs_start mem ppa len cb args read cb_w dev =
     bindR (pick_sqid sqid rnd dev) (\<lambda>sqid.
     bindR (on_worker sqid (fill_callback sqid nsecs_start mem ppa len cb args read cb_w) dev) (\<lambda>(entry, dev).
     bindR (assertR (entry \<noteq> None) Bug_on) (\<lambda>_. Inr dev)))"

fun reclaim_each :: "io_worker list \<Rightarrow> io_worker list result" where
  "reclaim_each [] = Inr []"
| "reclaim_each (w # ws) =
     bindR (reclaim_worker w) (\<lambda>w. bindR (reclaim_each ws) (\<lambda>ws. Inr (w # ws)))"

definition reclaim_completed_reqs :: "io_dev \<Rightarrow> io_dev result" where
  "reclaim_completed_reqs dev =
     bindR (reclaim_each (dv_workers dev)) (\<lambda>ws. Inr (dev\<lparr>dv_workers := ws\<rparr>))"

section \<open>Chains of work items\<close>

fun hd_opt :: "'a list \<Rightarrow> 'a option" where
  "hd_opt [] = None"
| "hd_opt (x # xs) = Some x"

definition last_opt :: "'a list \<Rightarrow> 'a option" where
  "last_opt xs = (if xs = [] then None else Some (last xs))"

text \<open>
  \<open>nseg q i xs j\<close>: following \<^verbatim>\<open>next\<close> from \<open>i\<close> visits \<open>xs\<close> and ends at \<open>j\<close>.  \<open>pchain q p xs\<close>: the \<^verbatim>\<open>prev\<close> indices
  of \<open>xs\<close> lead back to \<open>p\<close>.
\<close>

fun nseg :: "io_work list \<Rightarrow> nat option \<Rightarrow> nat list \<Rightarrow> nat option \<Rightarrow> bool" where
  "nseg q i [] j \<longleftrightarrow> i = j"
| "nseg q i (x # xs) j \<longleftrightarrow> i = Some x \<and> x < length q \<and> nseg q (w_next (q ! x)) xs j"

fun pchain :: "io_work list \<Rightarrow> nat option \<Rightarrow> nat list \<Rightarrow> bool" where
  "pchain q p [] \<longleftrightarrow> True"
| "pchain q p (x # xs) \<longleftrightarrow> w_prev (q ! x) = p \<and> pchain q (Some x) xs"

lemma last_opt_simps [simp]: "last_opt [] = None" "last_opt (xs @ [x]) = Some x"
  "last_opt xs = None \<longleftrightarrow> xs = []" "xs \<noteq> [] \<Longrightarrow> last_opt (x # xs) = last_opt xs" "last_opt [x] = Some x"
  by (auto simp: last_opt_def)

lemma last_opt_append [simp]: "ys \<noteq> [] \<Longrightarrow> last_opt (xs @ ys) = last_opt ys"
  by (simp add: last_opt_def)

lemma hd_opt_append [simp]: "hd_opt (xs @ ys) = (if xs = [] then hd_opt ys else hd_opt xs)"
  by (cases xs) auto

lemma nseg_append: "nseg q i (xs @ ys) j \<longleftrightarrow> (\<exists>k. nseg q i xs k \<and> nseg q k ys j)"
  by (induction xs arbitrary: i) auto

lemma nseg_end: "nseg q i xs None \<Longrightarrow> i = hd_opt xs"
  by (cases xs) auto

lemma nseg_bound: "nseg q i xs j \<Longrightarrow> x \<in> set xs \<Longrightarrow> x < length q"
  by (induction xs arbitrary: i) auto

lemma nseg_frame:
  assumes "nseg q i xs j" "length q' = length q" "\<And>x. x \<in> set xs \<Longrightarrow> w_next (q' ! x) = w_next (q ! x)"
  shows "nseg q' i xs j"
  using assms by (induction xs arbitrary: i) auto

lemma nseg_inner:
  "nseg q i (as @ x # bs) None \<Longrightarrow> w_next (q ! x) = hd_opt bs \<and> x < length q"
  by (auto simp: nseg_append dest: nseg_end)

lemma pchain_append: "pchain q p (xs @ ys) \<longleftrightarrow> pchain q p xs \<and> pchain q (if xs = [] then p else last_opt xs) ys"
  by (induction xs arbitrary: p) (auto simp: last_opt_def)

lemma pchain_frame:
  assumes "pchain q p xs" "\<And>x. x \<in> set xs \<Longrightarrow> w_prev (q' ! x) = w_prev (q ! x)"
  shows "pchain q' p xs"
  using assms by (induction xs arbitrary: p) auto

lemma distinct_length_bound:
  assumes "distinct xs" "\<And>x. x \<in> set xs \<Longrightarrow> x < n"
  shows "length xs \<le> n"
proof -
  have "card (set xs) \<le> card {..<n}" using assms(2) by (intro card_mono) auto
  then show ?thesis using distinct_card [OF assms(1)] by simp
qed

subsection \<open>Insertion\<close>

lemma find_slot_spec:
  "pchain q None xs \<Longrightarrow> (\<And>x. x \<in> set xs \<Longrightarrow> x < length q) \<Longrightarrow> length xs \<le> fuel \<Longrightarrow>
    \<exists>as bs. xs = as @ bs \<and> find_slot fuel q latest target (last_opt xs) = Inr (last_opt as)
      \<and> (\<forall>b \<in> set bs. latest < w_nsecs_target (q ! b) \<and> target < w_nsecs_target (q ! b))
      \<and> (as \<noteq> [] \<longrightarrow> w_nsecs_target (q ! last as) \<le> latest \<or> w_nsecs_target (q ! last as) \<le> target)"
proof (induction xs arbitrary: fuel rule: rev_induct)
  case (snoc x xs)
  obtain n where fuel: "fuel = Suc n" using snoc.prems(3) by (cases fuel) auto
  have x: "x < length q" "w_prev (q ! x) = last_opt xs" "pchain q None xs"
    using snoc.prems by (auto simp: pchain_append split: if_splits)
  show ?case
  proof (cases "w_nsecs_target (q ! x) \<le> latest \<or> w_nsecs_target (q ! x) \<le> target")
    case True
    then show ?thesis using x fuel by (intro exI [of _ "xs @ [x]"] exI [of _ "[]"]) (auto simp: work_at_def)
  next
    case False
    obtain as bs where "xs = as @ bs" "find_slot n q latest target (last_opt xs) = Inr (last_opt as)"
      "\<forall>b \<in> set bs. latest < w_nsecs_target (q ! b) \<and> target < w_nsecs_target (q ! b)"
      "as \<noteq> [] \<longrightarrow> w_nsecs_target (q ! last as) \<le> latest \<or> w_nsecs_target (q ! last as) \<le> target"
      using snoc.IH [OF x(3), of n] snoc.prems fuel by auto
    then show ?thesis using False x fuel
      by (intro exI [of _ as] exI [of _ "bs @ [x]"]) (auto simp: work_at_def)
  qed
qed simp

text \<open>\<open>q'\<close> is \<open>q\<close> with the item \<open>e\<close> linked in between \<open>as\<close> and \<open>bs\<close>.\<close>

definition linked_in :: "io_work list \<Rightarrow> io_work list \<Rightarrow> nat \<Rightarrow> nat list \<Rightarrow> nat list \<Rightarrow> bool" where
  "linked_in q q' e as bs \<longleftrightarrow> length q' = length q \<and> (\<forall>x < length q. q' ! x = (q ! x)\<lparr>
     w_next := if x = e then hd_opt bs else if Some x = last_opt as then Some e else w_next (q ! x),
     w_prev := if x = e then last_opt as else if Some x = hd_opt bs then Some e else w_prev (q ! x)\<rparr>)"

lemma linked_in_chain:
  assumes "linked_in q q' e as bs" "nseg q (hd_opt (as @ bs)) (as @ bs) None" "pchain q None (as @ bs)"
    "distinct (as @ bs)" "e \<notin> set (as @ bs)" "e < length q"
  shows "nseg q' (hd_opt (as @ e # bs)) (as @ e # bs) None" "pchain q' None (as @ e # bs)"
proof -
  obtain k where k: "nseg q (hd_opt (as @ bs)) as k" "nseg q k bs None" using assms(2) by (auto simp: nseg_append)
  then have kb: "k = hd_opt bs" by (simp add: nseg_end)
  have bound: "x < length q" if "x \<in> set (as @ bs)" for x using nseg_bound [OF assms(2)] that by simp
  have q': "w_next (q' ! x) = (if x = e then hd_opt bs else if Some x = last_opt as then Some e else w_next (q ! x))"
    "w_prev (q' ! x) = (if x = e then last_opt as else if Some x = hd_opt bs then Some e else w_prev (q ! x))"
    if "x < length q" for x using assms(1) that by (simp_all add: linked_in_def)
  have len: "length q' = length q" using assms(1) by (simp add: linked_in_def)
  have last_as: "Some x \<noteq> last_opt as" if "x \<in> set bs" for x using assms(4) that by (auto simp: last_opt_def dest: last_in_set)
  have hd_bs: "Some x \<noteq> hd_opt bs" if "x \<in> set as" for x using assms(4) that by (cases bs) auto
  have bs: "nseg q' k bs None"
    by (rule nseg_frame [OF k(2) len]) (use q' bound last_as assms(5) in auto)
  have e: "nseg q' (Some e) (e # bs) None" using bs q' [OF assms(6)] assms(6) len kb by simp
  show "nseg q' (hd_opt (as @ e # bs)) (as @ e # bs) None"
  proof (cases as rule: rev_cases)
    case (snoc as' c)
    have c: "nseg q (hd_opt as) as' (Some c)" "c < length q"
      using k(1) snoc by (auto simp: nseg_append)
    have "nseg q' (hd_opt as) as' (Some c)"
      by (rule nseg_frame [OF c(1) len]) (use q' bound snoc assms(4,5) in \<open>auto simp: last_opt_def\<close>)
    moreover have "w_next (q' ! c) = Some e" using q' [OF c(2)] snoc assms(5) by auto
    ultimately show ?thesis using e c(2) snoc len by (auto simp: nseg_append)
  qed (use e in simp)
  show "pchain q' None (as @ e # bs)"
  proof -
    have as: "pchain q' None as"
      by (rule pchain_frame [of q]) (use assms(3,5) q' bound hd_bs in \<open>auto simp: pchain_append\<close>)
    have "pchain q' (Some e) bs"
    proof (cases bs)
      case (Cons b bs')
      have "pchain q (Some b) bs'" using assms(3) Cons by (simp add: pchain_append)
      then have "pchain q' (Some b) bs'"
        by (rule pchain_frame) (use q' bound Cons assms(4,5) in auto)
      then show ?thesis using Cons q' [of b] bound assms(5) by auto
    qed simp
    then show ?thesis using as q' [OF assms(6)] by (cases "as = []") (auto simp: pchain_append)
  qed
qed

text \<open>Requests are inserted before everything that is due later than they are and not yet due now.\<close>

definition slot_ok :: "io_work list \<Rightarrow> u64 \<Rightarrow> u64 \<Rightarrow> nat list \<Rightarrow> nat list \<Rightarrow> bool" where
  "slot_ok q latest target as bs \<longleftrightarrow>
     (\<forall>b \<in> set bs. latest < w_nsecs_target (q ! b) \<and> target < w_nsecs_target (q ! b))
     \<and> (as \<noteq> [] \<longrightarrow> w_nsecs_target (q ! last as) \<le> latest \<or> w_nsecs_target (q ! last as) \<le> target)"

lemma linked_in_head:
  assumes "w_next (q ! e) = None" "w_prev (q ! e) = None" "e \<noteq> b" "e < length q" "b < length q"
  shows "linked_in q (q[b := (q ! b)\<lparr>w_prev := Some e\<rparr>, e := (q ! e)\<lparr>w_next := Some b\<rparr>]) e [] (b # bs)"
  using assms by (auto simp: linked_in_def nth_list_update)

lemma linked_in_tail:
  assumes "w_next (q ! e) = None" "w_prev (q ! e) = None" "e \<noteq> a" "e < length q" "a < length q"
  shows "linked_in q (q[e := (q ! e)\<lparr>w_prev := Some a\<rparr>, a := (q ! a)\<lparr>w_next := Some e\<rparr>]) e (as @ [a]) []"
  using assms by (auto simp: linked_in_def nth_list_update)

lemma linked_in_between:
  assumes "e \<noteq> a" "e \<noteq> b" "a \<noteq> b" "e < length q" "a < length q" "b < length q"
  shows "linked_in q (q[e := (q ! e)\<lparr>w_prev := Some a, w_next := Some b\<rparr>,
      b := (q ! b)\<lparr>w_prev := Some e\<rparr>, a := (q ! a)\<lparr>w_next := Some e\<rparr>]) e (as @ [a]) (b # bs)"
  using assms by (auto simp: linked_in_def nth_list_update)

lemma linked_in_alone:
  assumes "w_next (q ! e) = None" "w_prev (q ! e) = None"
  shows "linked_in q q e [] []"
  using assms by (auto simp: linked_in_def)

lemma insert_req_sorted_spec:
  assumes q: "q = wk_queue wk" and ios: "nseg q (wk_io_seq wk) ios None" "pchain q None ios" "distinct ios"
    and tail: "ios \<noteq> [] \<Longrightarrow> wk_io_seq_end wk = last_opt ios"
    and e: "e \<notin> set ios" "e < length q" "w_next (q ! e) = None" "w_prev (q ! e) = None"
  shows "\<exists>as bs q'. ios = as @ bs \<and> linked_in q q' e as bs \<and> slot_ok q (wk_latest_nsecs wk) target as bs
    \<and> insert_req_sorted e wk target = Inr (wk\<lparr>wk_queue := q', wk_io_seq := hd_opt (as @ e # bs),
        wk_io_seq_end := last_opt (as @ e # bs)\<rparr>)"
proof (cases "ios = []")
  case True
  then have "insert_req_sorted e wk target = Inr (wk\<lparr>wk_queue := q, wk_io_seq := Some e, wk_io_seq_end := Some e\<rparr>)"
    using ios(1) q by (simp add: insert_req_sorted_def)
  then show ?thesis using linked_in_alone [OF e(3,4)] True
    by (intro exI [of _ "[]"] exI [of _ q]) (simp add: slot_ok_def)
next
  case False
  have bound: "x < length q" if "x \<in> set ios" for x using nseg_bound [OF ios(1) that] .
  have seq: "wk_io_seq wk = hd_opt ios" using nseg_end [OF ios(1)] .
  obtain as bs where ab: "ios = as @ bs" "slot_ok q (wk_latest_nsecs wk) target as bs"
    "find_slot (length q) q (wk_latest_nsecs wk) target (wk_io_seq_end wk) = Inr (last_opt as)"
    using find_slot_spec [OF ios(2) bound distinct_length_bound [OF ios(3) bound], of "wk_latest_nsecs wk" target]
      tail [OF False] by (auto simp: slot_ok_def)
  obtain h where h: "wk_io_seq wk = Some h" using seq False by (cases ios) auto
  have upd_end: "bs \<noteq> [] \<Longrightarrow> Inr (wk\<lparr>wk_queue := q', wk_io_seq := s\<rparr>) =
      Inr (wk\<lparr>wk_queue := q', wk_io_seq := s, wk_io_seq_end := last_opt (as @ e # bs)\<rparr>)" for q' s
    using tail [OF False] ab(1) by (cases wk) auto
  have upd_seq: "as \<noteq> [] \<Longrightarrow> Inr (wk\<lparr>wk_queue := q', wk_io_seq_end := s\<rparr>) =
      Inr (wk\<lparr>wk_queue := q', wk_io_seq := hd_opt (as @ e # bs), wk_io_seq_end := s\<rparr>)" for q' s
    using seq ab(1) by (cases wk) auto
  have upd_both: "as \<noteq> [] \<Longrightarrow> bs \<noteq> [] \<Longrightarrow> Inr (wk\<lparr>wk_queue := q'\<rparr>) =
      Inr (wk\<lparr>wk_queue := q', wk_io_seq := hd_opt (as @ e # bs), wk_io_seq_end := last_opt (as @ e # bs)\<rparr>)" for q'
    using seq tail [OF False] ab(1) by (cases wk) auto
  note ins = insert_req_sorted_def work_at_def set_work_def q [symmetric] ab(3)
  consider (head) b bs' where "as = []" "bs = b # bs'" | (tail) a as' where "as = as' @ [a]" "bs = []"
    | (between) a as' b bs' where "as = as' @ [a]" "bs = b # bs'"
    using False ab(1) by (cases as rule: rev_cases; cases bs) auto
  then show ?thesis
  proof cases
    case head
    have b: "e \<noteq> b" "b < length q" using head ab(1) e(1) bound by auto
    have "insert_req_sorted e wk target = Inr (wk\<lparr>
        wk_queue := q[b := (q ! b)\<lparr>w_prev := Some e\<rparr>, e := (q ! e)\<lparr>w_next := Some b\<rparr>],
        wk_io_seq := hd_opt (as @ e # bs), wk_io_seq_end := last_opt (as @ e # bs)\<rparr>)"
      using b e(2) head by (intro trans [OF _ upd_end]) (simp_all add: ins seq ab(1))
    then show ?thesis using linked_in_head [OF e(3,4) b(1) e(2) b(2), of bs'] ab(1,2) head by blast
  next
    case tail
    have a: "e \<noteq> a" "a < length q" "w_next (q ! a) = None"
      using tail ab(1) e(1) bound nseg_inner [of q _ as' a "[]"] ios(1) by auto
    have "insert_req_sorted e wk target = Inr (wk\<lparr>
        wk_queue := q[e := (q ! e)\<lparr>w_prev := Some a\<rparr>, a := (q ! a)\<lparr>w_next := Some e\<rparr>],
        wk_io_seq := hd_opt (as @ e # bs), wk_io_seq_end := last_opt (as @ e # bs)\<rparr>)"
      using a e(2) tail by (intro trans [OF _ upd_seq]) (simp_all add: ins h)
    then show ?thesis using linked_in_tail [OF e(3,4) a(1) e(2) a(2), of as'] ab(1,2) tail by blast
  next
    case between
    have a: "e \<noteq> a" "e \<noteq> b" "a \<noteq> b" "a < length q" "b < length q" "w_next (q ! a) = Some b"
      using between ab(1) e(1) bound ios(3) nseg_inner [of q _ as' a bs] ios(1) by auto
    have "insert_req_sorted e wk target = Inr (wk\<lparr>
        wk_queue := q[e := (q ! e)\<lparr>w_prev := Some a, w_next := Some b\<rparr>, b := (q ! b)\<lparr>w_prev := Some e\<rparr>,
          a := (q ! a)\<lparr>w_next := Some e\<rparr>],
        wk_io_seq := hd_opt (as @ e # bs), wk_io_seq_end := last_opt (as @ e # bs)\<rparr>)"
      using a e(2) between by (intro trans [OF _ upd_both]) (simp_all add: ins h)
    then show ?thesis using linked_in_between [OF a(1-3) e(2) a(4,5), of as' bs'] ab(1,2) between by blast
  qed
qed

section \<open>Well-formed workers\<close>

text \<open>
  The items of a worker are those in flight, \<open>ios\<close>, and the free ones: \<open>fresh\<close> were never used and
  \<open>reused\<close> have been completed and returned.  A worker is never without a free item.
\<close>

definition worker_ok :: "io_worker \<Rightarrow> nat list \<Rightarrow> nat list \<Rightarrow> nat list \<Rightarrow> bool" where
  "worker_ok wk ios fresh reused \<longleftrightarrow>
     nseg (wk_queue wk) (wk_io_seq wk) ios None \<and> pchain (wk_queue wk) None ios
     \<and> (ios \<noteq> [] \<longrightarrow> wk_io_seq_end wk = last_opt ios)
     \<and> nseg (wk_queue wk) (wk_free_seq wk) (fresh @ reused) None \<and> fresh @ reused \<noteq> []
     \<and> wk_free_seq_end wk = last_opt (fresh @ reused)
     \<and> distinct (ios @ fresh @ reused) \<and> set (ios @ fresh @ reused) = {..<length (wk_queue wk)}
     \<and> (\<forall>x \<in> set reused. w_is_completed (wk_queue wk ! x))"

lemma worker_okD:
  assumes "worker_ok wk ios fresh reused"
  shows "nseg (wk_queue wk) (wk_io_seq wk) ios None" "pchain (wk_queue wk) None ios"
    "ios \<noteq> [] \<Longrightarrow> wk_io_seq_end wk = last_opt ios"
    "nseg (wk_queue wk) (wk_free_seq wk) (fresh @ reused) None" "fresh @ reused \<noteq> []"
    "wk_free_seq_end wk = last_opt (fresh @ reused)" "distinct (ios @ fresh @ reused)"
    "set (ios @ fresh @ reused) = {..<length (wk_queue wk)}" "x \<in> set reused \<Longrightarrow> w_is_completed (wk_queue wk ! x)"
  using assms unfolding worker_ok_def by simp_all

text \<open>Everything in a work item but its links.\<close>

definition unlinked :: "io_work \<Rightarrow> io_work" where
  "unlinked w = w\<lparr>w_next := None, w_prev := None\<rparr>"

lemma unlinked_eqD:
  assumes "unlinked v = unlinked w"
  shows "w_is_completed v = w_is_completed w" "w_is_copied v = w_is_copied w" "w_is_internal v = w_is_internal w"
    "w_sqid v = w_sqid w" "w_sq_entry v = w_sq_entry w" "w_command_id v = w_command_id w"
    "w_cb v = w_cb w" "w_args v = w_args w" "w_cb_w v = w_cb_w w" "w_nsecs_target v = w_nsecs_target w"
  using assms by (cases v; cases w; simp add: unlinked_def)+

lemma unlinked_links [simp]: "unlinked (w\<lparr>w_next := n, w_prev := p\<rparr>) = unlinked w"
  "unlinked (w\<lparr>w_next := n\<rparr>) = unlinked w" "unlinked (w\<lparr>w_prev := p\<rparr>) = unlinked w"
  by (simp_all add: unlinked_def)

lemma linked_in_unlinked: "linked_in q q' e as bs \<Longrightarrow> x < length q \<Longrightarrow> unlinked (q' ! x) = unlinked (q ! x)"
  by (simp add: linked_in_def)

subsection \<open>Enqueueing\<close>

lemma take_free_spec:
  assumes "worker_ok wk ios fresh reused" "fresh @ reused = e # fs"
  shows "take_free wk = Inr (if fs = [] then (None, wk) else (Some e, wk\<lparr>wk_free_seq := hd_opt fs\<rparr>))"
proof -
  note ok = worker_okD [OF assms(1)]
  have e: "wk_free_seq wk = Some e" "e < length (wk_queue wk)" "w_next (wk_queue wk ! e) = hd_opt fs"
    using ok(4) assms(2) by (auto simp: nseg_end)
  have "f < length (wk_queue wk)" if "fs = f # fs'" for f fs'
    using nseg_bound [OF ok(4), of f] assms(2) that by auto
  then show ?thesis using e by (cases fs) (auto simp: take_free_def work_at_def)
qed

text \<open>What filling in a free item guarantees.\<close>

definition fills :: "(io_work \<Rightarrow> io_work) \<Rightarrow> bool" where
  "fills f \<longleftrightarrow> (\<forall>w. w_next (f w) = None \<and> w_prev (f w) = None \<and> \<not> w_is_completed (f w))"

lemma fills_intros [simp, intro]: "fills (fill_request sqid cqid sqe cid start now ret)"
  "fills (fill_release sqid now target wb n)" "fills (fill_callback sqid start mem ppa len cb args rd cb_w)"
  by (simp_all add: fills_def fill_request_def fill_release_def fill_callback_def)

lemma enqueue_work_full:
  assumes "worker_ok wk ios fresh reused" "fresh @ reused = [e]"
  shows "enqueue_work fill wk = Inr (None, wk)"
  using take_free_spec [OF assms] by (simp add: enqueue_work_def)

lemma enqueue_work_spec:
  assumes "worker_ok wk ios fresh reused" "fresh @ reused = e # fs" "fs \<noteq> []" "fills fill"
  shows "\<exists>as bs wk' fresh' reused'. enqueue_work fill wk = Inr (Some e, wk') \<and> ios = as @ bs
    \<and> fresh' @ reused' = fs \<and> set reused \<subseteq> insert e (set reused') \<and> worker_ok wk' (as @ e # bs) fresh' reused'
    \<and> length (wk_queue wk') = length (wk_queue wk) \<and> wk_latest_nsecs wk' = wk_latest_nsecs wk
    \<and> (\<forall>x < length (wk_queue wk). unlinked (wk_queue wk' ! x) =
         unlinked (if x = e then fill (wk_queue wk ! e) else wk_queue wk ! x))
    \<and> slot_ok (wk_queue wk) (wk_latest_nsecs wk) (w_nsecs_target (fill (wk_queue wk ! e))) as bs"
proof -
  note ok = worker_okD [OF assms(1)]
  define q where "q = (wk_queue wk)[e := fill (wk_queue wk ! e)]"
  define wk1 where "wk1 = wk\<lparr>wk_free_seq := hd_opt fs, wk_queue := q\<rparr>"
  have e: "e < length (wk_queue wk)" "e \<notin> set ios" "e \<notin> set fs" using ok(7,8) assms(2) by auto
  have q: "length q = length (wk_queue wk)" "\<And>x. x < length q \<Longrightarrow> q ! x = (if x = e then fill (wk_queue wk ! e) else wk_queue wk ! x)"
    by (auto simp: q_def nth_list_update)
  have bound: "x < length q" if "x \<in> set (ios @ fresh @ reused)" for x using ok(8) that q(1) by auto
  have same: "q ! x = wk_queue wk ! x" if "x \<in> set ios" for x using q bound [of x] e(2) that by auto
  have ios: "nseg q (wk_io_seq wk1) ios None" "pchain q None ios"
    using nseg_frame [OF ok(1) q(1)] pchain_frame [OF ok(2), of q] by (simp_all add: same wk1_def)
  have e1: "w_next (q ! e) = None" "w_prev (q ! e) = None" "e < length q"
    using assms(4) q e(1) by (auto simp: fills_def)
  have fs: "nseg (wk_queue wk) (hd_opt fs) fs None" using ok(4) assms(2) nseg_end by fastforce
  have ios_seq: "ios \<noteq> [] \<Longrightarrow> wk_io_seq_end wk1 = last_opt ios" using ok(3) by (simp add: wk1_def)
  have "q = wk_queue wk1" "distinct ios" using ok(7) by (simp_all add: wk1_def)
  from insert_req_sorted_spec [OF this(1) ios this(2) ios_seq e(2) e1(3,1,2), of "w_nsecs_target (q ! e)"]
  obtain as bs q' where ab: "ios = as @ bs" "linked_in q q' e as bs"
    "slot_ok q (wk_latest_nsecs wk1) (w_nsecs_target (q ! e)) as bs"
    "insert_req_sorted e wk1 (w_nsecs_target (q ! e)) =
       Inr (wk1\<lparr>wk_queue := q', wk_io_seq := hd_opt (as @ e # bs), wk_io_seq_end := last_opt (as @ e # bs)\<rparr>)"
    by blast
  define wk2 where "wk2 = wk1\<lparr>wk_queue := q', wk_io_seq := hd_opt (as @ e # bs), wk_io_seq_end := last_opt (as @ e # bs)\<rparr>"
  define fresh' where "fresh' = tl fresh"
  define reused' where "reused' = (if fresh = [] then tl reused else reused)"
  have free: "fresh' @ reused' = fs" "set reused \<subseteq> insert e (set reused')" "set reused' \<subseteq> set reused"
    using assms(2) by (cases fresh; cases reused; auto simp: fresh'_def reused'_def)+
  have len: "length q' = length q" using ab(2) by (simp add: linked_in_def)
  have data: "unlinked (q' ! x) = unlinked (if x = e then fill (wk_queue wk ! e) else wk_queue wk ! x)"
    if "x < length (wk_queue wk)" for x
    using linked_in_unlinked [OF ab(2), of x] that q by simp
  have nxt: "w_next (q' ! x) = w_next (wk_queue wk ! x)" if "x \<in> set fs" for x
    using ab(1,2) that e(3) q bound [of x] ok(7) assms(2)
    by (auto simp: linked_in_def last_opt_def dest: last_in_set)
  have dist: "distinct (as @ bs)" using ok(7) ab(1) by auto
  have "nseg q' (hd_opt fs) fs None" by (rule nseg_frame [OF fs]) (use len q nxt in auto)
  moreover have "nseg q' (hd_opt (as @ e # bs)) (as @ e # bs) None" "pchain q' None (as @ e # bs)"
    using linked_in_chain [OF ab(2) _ _ dist _ e1(3)] ios e(2) nseg_end [OF ios(1)] unfolding ab(1) by simp_all
  moreover have "w_is_completed (q' ! x)" if "x \<in> set reused'" for x
    using ok(9) [of x] free(1,3) that e(3) unlinked_eqD(1) [OF data [of x]] bound [of x] q(1) by auto
  moreover have "wk_free_seq_end wk = last_opt fs" using ok(6) assms(2,3) by (simp add: last_opt_def)
  moreover have "distinct ((as @ e # bs) @ fs)" "set ((as @ e # bs) @ fs) = {..<length q'}"
    using ok(7,8) assms(2) ab(1) len q(1) by auto
  ultimately have "worker_ok wk2 (as @ e # bs) fresh' reused'"
    using assms(3) unfolding worker_ok_def free(1) by (simp add: wk2_def wk1_def)
  moreover have "enqueue_work fill wk = Inr (Some e, wk2)"
    using take_free_spec [OF assms(1,2)] assms(3) e(1) ab(4)
    by (simp add: enqueue_work_def set_work_def q_def wk1_def wk2_def)
  moreover have "slot_ok (wk_queue wk) (wk_latest_nsecs wk) (w_nsecs_target (fill (wk_queue wk ! e))) as bs"
    using ab(1,3) q e bound by (auto simp: slot_ok_def wk1_def split: if_splits)
  ultimately show ?thesis using ab(1) free data len q(1)
    by (intro exI [of _ as] exI [of _ bs] exI [of _ wk2] exI [of _ fresh'] exI [of _ reused'])
      (simp add: wk2_def wk1_def)
qed

subsection \<open>Reclaiming\<close>

definition reclaimable :: "io_worker \<Rightarrow> nat \<Rightarrow> bool" where
  "reclaimable wk x \<longleftrightarrow> (let w = wk_queue wk ! x in
     w_is_completed w \<and> w_is_copied w \<and> w_nsecs_target w \<le> wk_latest_nsecs wk)"

lemma reclaim_scan_spec:
  assumes "nseg (wk_queue wk) i xs None" "length xs \<le> fuel"
  shows "reclaim_scan fuel (wk_queue wk) (wk_latest_nsecs wk) l i =
    Inr (if takeWhile (reclaimable wk) xs = [] then l else last_opt (takeWhile (reclaimable wk) xs))"
  using assms
proof (induction xs arbitrary: fuel i l)
  case (Cons x xs)
  then obtain n where "fuel = Suc n" by (cases fuel) auto
  moreover have "reclaimable wk x \<longleftrightarrow> w_is_completed (wk_queue wk ! x) \<and> w_is_copied (wk_queue wk ! x)
      \<and> w_nsecs_target (wk_queue wk ! x) \<le> wk_latest_nsecs wk"
    by (simp add: reclaimable_def Let_def)
  ultimately show ?case using Cons by (auto simp: work_at_def last_opt_def)
qed (cases fuel; auto)

text \<open>\<open>q'\<close> is \<open>q\<close> with the segment \<open>rs\<close>, followed by \<open>ks\<close>, moved behind the free item \<open>f\<close>.\<close>

definition moved :: "io_work list \<Rightarrow> io_work list \<Rightarrow> nat list \<Rightarrow> nat list \<Rightarrow> nat \<Rightarrow> bool" where
  "moved q q' rs ks f \<longleftrightarrow> length q' = length q \<and> (\<forall>x < length q. q' ! x = (q ! x)\<lparr>
     w_next := if x = last rs then None else if x = f then hd_opt rs else w_next (q ! x),
     w_prev := if x = hd rs then Some f else if Some x = hd_opt ks then None else w_prev (q ! x)\<rparr>)"

lemma moved_free:
  assumes "moved q q' rs ks f" "nseg q i (fs @ [f]) None" "nseg q j (rs @ ks) None" "rs \<noteq> []"
    "distinct (rs @ ks @ fs @ [f])"
  shows "nseg q' i (fs @ [f] @ rs) None"
proof -
  obtain rs0 l where rs: "rs = rs0 @ [l]" using assms(4) by (cases rs rule: rev_cases) auto
  have bound: "x < length q" if "x \<in> set (fs @ [f] @ rs)" for x
    using nseg_bound [OF assms(2)] nseg_bound [OF assms(3)] that by auto
  have q': "length q' = length q" "\<And>x. x < length q \<Longrightarrow>
      w_next (q' ! x) = (if x = last rs then None else if x = f then hd_opt rs else w_next (q ! x))"
    using assms(1) by (simp_all add: moved_def)
  have "nseg q i fs (Some f)" "nseg q j rs0 (Some l)" using assms(2,3) rs by (auto simp: nseg_append)
  then have "nseg q' i fs (Some f)" "nseg q' j rs0 (Some l)"
    using assms(5) bound q' rs by (auto intro!: nseg_frame [of q _ _ _ q'])
  moreover have "j = hd_opt rs" using assms(3,4) by (cases rs) auto
  moreover have "w_next (q' ! f) = hd_opt rs" "w_next (q' ! l) = None" using q'(2) bound assms(5) rs by auto
  ultimately show ?thesis using bound rs q'(1) by (auto simp: nseg_append)
qed

lemma moved_rest:
  assumes "moved q q' rs ks f" "nseg q j (rs @ ks) None" "pchain q None (rs @ ks)" "rs \<noteq> []"
    "distinct (rs @ ks @ [f])"
  shows "nseg q' (hd_opt ks) ks None" "pchain q' None ks"
proof -
  obtain k where k: "nseg q k ks None" using assms(2) by (auto simp: nseg_append)
  have bound: "x < length q" if "x \<in> set ks" for x using nseg_bound [OF k] that by simp
  have notin: "x \<noteq> last rs" "x \<noteq> hd rs" "x \<noteq> f" if "x \<in> set ks" for x
    using assms(4,5) that by (auto simp: disjoint_iff)
  have q': "length q' = length q" "\<And>x. x \<in> set ks \<Longrightarrow> w_next (q' ! x) = w_next (q ! x)"
    "\<And>x. x \<in> set ks \<Longrightarrow> w_prev (q' ! x) = (if Some x = hd_opt ks then None else w_prev (q ! x))"
    using assms(1) bound notin by (auto simp: moved_def)
  show "nseg q' (hd_opt ks) ks None" using nseg_frame [OF k, of q'] q' nseg_end [OF k] by simp
  show "pchain q' None ks"
  proof (cases ks)
    case (Cons x ks')
    have "pchain q (Some x) ks'" using assms(3) Cons by (simp add: pchain_append)
    then have "pchain q' (Some x) ks'" by (rule pchain_frame) (use q'(3) Cons assms(5) in auto)
    then show ?thesis using Cons q'(3) [of x] by simp
  qed simp
qed

lemma moved_update:
  assumes "r < length q" "l < length q" "f < length q" "r \<noteq> f" "l \<noteq> f" "\<And>k. hd_opt ks = Some k \<Longrightarrow> k \<noteq> r \<and> k < length q"
    "hd rs = r" "last rs = l" "hd_opt rs = Some r"
    "q1 = (case hd_opt ks of None \<Rightarrow> q | Some k \<Rightarrow> q[k := (q ! k)\<lparr>w_prev := None\<rparr>])"
    "q2 = q1[l := (q1 ! l)\<lparr>w_next := None\<rparr>]" "q3 = q2[r := (q2 ! r)\<lparr>w_prev := Some f\<rparr>]"
  shows "moved q (q3[f := (q3 ! f)\<lparr>w_next := Some r\<rparr>]) rs ks f"
  unfolding moved_def assms(7-12) using assms(1-6)
  by (auto simp: nth_list_update split: option.split)

lemma reclaim_worker_spec:
  assumes "worker_ok wk ios fresh reused" "rs = takeWhile (reclaimable wk) ios" "ks = dropWhile (reclaimable wk) ios"
  shows "\<exists>wk'. reclaim_worker wk = Inr wk' \<and> worker_ok wk' ks fresh (reused @ rs)
    \<and> length (wk_queue wk') = length (wk_queue wk) \<and> wk_latest_nsecs wk' = wk_latest_nsecs wk
    \<and> (\<forall>x < length (wk_queue wk). unlinked (wk_queue wk' ! x) = unlinked (wk_queue wk ! x))"
proof (cases "rs = []")
  case True
  note ok = worker_okD [OF assms(1)]
  have "reclaim_worker wk = Inr wk"
    using reclaim_scan_spec [OF ok(1), of "length (wk_queue wk)"] True assms(2) ok(7) nseg_bound [OF ok(1)]
    by (simp add: reclaim_worker_def distinct_length_bound)
  moreover have "ks = ios" using True assms(2,3) takeWhile_dropWhile_id [of "reclaimable wk" ios] by simp
  ultimately show ?thesis using assms(1) True by simp
next
  case False
  note ok = worker_okD [OF assms(1)]
  have split: "ios = rs @ ks" using assms(2,3) by simp
  obtain fs f where f: "fresh @ reused = fs @ [f]" using ok(5) by (cases "fresh @ reused" rule: rev_cases) auto
  obtain r where r: "hd_opt rs = Some r" "hd rs = r" "r \<in> set rs" using False by (cases rs) auto
  have l: "last rs \<in> set rs" using False by simp
  have scan: "reclaim_scan (length (wk_queue wk)) (wk_queue wk) (wk_latest_nsecs wk) None (wk_io_seq wk) = Inr (Some (last rs))"
    using reclaim_scan_spec [OF ok(1), of "length (wk_queue wk)" None] False assms(2) ok(7) nseg_bound [OF ok(1)]
    by (simp add: distinct_length_bound last_opt_def)
  have bound: "x < length (wk_queue wk)" if "x \<in> set (ios @ fresh @ reused)" for x using ok(8) that by auto
  have dist: "distinct (rs @ ks @ fs @ [f])" using ok(7) f split by (auto simp del: set_append dest!: arg_cong [where f = set])
  have "ios = butlast rs @ last rs # ks" using split False
    by (metis append_butlast_last_id append.assoc append_Cons append_Nil)
  then have nxt: "w_next (wk_queue wk ! last rs) = hd_opt ks"
    using nseg_inner [of "wk_queue wk" "wk_io_seq wk" "butlast rs" "last rs" ks] ok(1) by simp
  define q1 where "q1 = (case hd_opt ks of None \<Rightarrow> wk_queue wk | Some k \<Rightarrow> (wk_queue wk)[k := (wk_queue wk ! k)\<lparr>w_prev := None\<rparr>])"
  define q2 where "q2 = q1[last rs := (q1 ! last rs)\<lparr>w_next := None\<rparr>]"
  define q3 where "q3 = q2[r := (q2 ! r)\<lparr>w_prev := Some f\<rparr>]"
  define q4 where "q4 = q3[f := (q3 ! f)\<lparr>w_next := Some r\<rparr>]"
  have lens: "length q1 = length (wk_queue wk)" "length q2 = length (wk_queue wk)" "length q3 = length (wk_queue wk)"
    by (auto simp: q1_def q2_def q3_def split: option.split)
  have in_all: "r \<in> set (ios @ fresh @ reused)" "last rs \<in> set (ios @ fresh @ reused)" "f \<in> set (ios @ fresh @ reused)"
    using r l split f by (auto dest!: arg_cong [where f = set])
  have ks: "k \<noteq> r \<and> k < length (wk_queue wk)" if "hd_opt ks = Some k" for k
    using that r(3) dist bound [of k] split by (cases ks) auto
  have moved: "moved (wk_queue wk) q4 rs ks f" unfolding q4_def
    by (rule moved_update [OF bound bound bound _ _ ks r(2) refl r(1) q1_def q2_def q3_def])
      (use in_all r(3) l dist in auto)
  have free: "nseg q4 (wk_free_seq wk) (fs @ [f] @ rs) None"
    using moved_free [OF moved _ _ False dist] ok(1,4) f split by simp
  have rest: "nseg q4 (hd_opt ks) ks None" "pchain q4 None ks"
    using moved_rest [OF moved ok(1)[unfolded split] ok(2)[unfolded split] False] dist by auto
  have data: "length q4 = length (wk_queue wk)" "\<And>x. x < length q4 \<Longrightarrow> unlinked (q4 ! x) = unlinked (wk_queue wk ! x)"
    using moved by (auto simp: moved_def)
  define wk' where "wk' = wk\<lparr>wk_queue := q4, wk_io_seq := hd_opt ks, wk_free_seq_end := Some (last rs)\<rparr>"
  have "reclaim_worker wk = Inr wk'"
    using scan bound [OF in_all(1)] bound [OF in_all(2)] bound [OF in_all(3)] lens r(1) nseg_end [OF ok(1)] ok(6) f split ks False
    by (auto simp: reclaim_worker_def work_at_def set_work_def nxt Let_def q1_def q2_def q3_def q4_def wk'_def
        split: option.splits)
  moreover have "worker_ok wk' ks fresh (reused @ rs)"
  proof -
    have free': "fresh @ reused @ rs = fs @ [f] @ rs" using f by simp
    have "w_is_completed (q4 ! x)" if x: "x \<in> set (reused @ rs)" for x
    proof -
      have "w_is_completed (wk_queue wk ! x)"
        using x ok(9) [of x] set_takeWhileD [of x "reclaimable wk" ios] assms(2)
        by (auto simp only: reclaimable_def Let_def set_append Un_iff)
      moreover have "x < length q4" using bound [of x] x split data(1) by auto
      ultimately show ?thesis using unlinked_eqD(1) [OF data(2)] by simp
    qed
    moreover have "ks \<noteq> [] \<Longrightarrow> wk_io_seq_end wk = last_opt ks" using ok(3) split by simp
    moreover have "last_opt (fresh @ reused @ rs) = Some (last rs)" using False by (simp add: last_opt_def)
    moreover have "distinct (ks @ fresh @ reused @ rs)" "set (ks @ fresh @ reused @ rs) = {..<length q4}"
      using ok(7,8) split data(1) by auto
    ultimately show ?thesis
      using free rest False unfolding worker_ok_def by (simp add: wk'_def free')
  qed
  ultimately show ?thesis using data by (auto simp: wk'_def)
qed

end
