(* ===== verification/IoReach.thy ===== *)
theory IoReach
  imports IoQueue "HOL-Library.Multiset"
begin

text \<open>
  The dispatcher and the I/O workers of \<^verbatim>\<open>io.c\<close> running together.  A step is one call of the dispatcher on a
  worker's queue, the start of a worker's pass, one round of its inner loop, or one turn of the reclaim loop;
  the steps of the dispatcher and of the workers interleave in any order.  The shared operations are taken as
  atomic.  The system remembers, per worker, the item its pass is at, the requests it was given and
  the completions it posted.
\<close>

type_synonym request = "int \<times> int \<times> u32"

definition request_of :: "io_work \<Rightarrow> request" where
  "request_of w = (w_sqid w, w_sq_entry w, w_command_id w)"

fun posts :: "io_event list \<Rightarrow> io_work list" where
  "posts [] = []"
| "posts (Post w # evs) = w # posts evs"
| "posts (_ # evs) = posts evs"

record io_sys =
  sy_dev :: io_dev
  sy_pc :: "nat \<Rightarrow> nat option"
  sy_sent :: "nat \<Rightarrow> request list"
  sy_posted :: "nat \<Rightarrow> (u64 \<times> io_work) list"

datatype io_op =
    Request int int int u32 u64 u64 nvmev_result
  | Internal int nat u64 u64 "nat option" nat
  | Internal_cb int nat u64 "nat option" u64 u64 "nat option" "nat option" bool "(nat \<times> nat) option"
  | Start nat
  | Visit nat u64
  | Reclaim nat

fun io_exec :: "io_env \<Rightarrow> io_op \<Rightarrow> io_sys \<Rightarrow> io_sys result" where
  "io_exec env (Request sqid cqid sqe cid start now ret) s =
     bindR (enqueue_io_req sqid cqid sqe cid start now ret (sy_dev s)) (\<lambda>(r, dev).
     Inr (case r of
        None \<Rightarrow> s\<lparr>sy_dev := dev\<rparr>
      | Some (t, e) \<Rightarrow> s\<lparr>sy_dev := dev, sy_sent := (sy_sent s)(t := (sqid, sqe, cid) # sy_sent s t)\<rparr>))"
| "io_exec env (Internal sqid rnd now target wb n) s =
     bindR (schedule_internal_operation sqid rnd now target wb n (sy_dev s)) (\<lambda>dev. Inr (s\<lparr>sy_dev := dev\<rparr>))"
| "io_exec env (Internal_cb sqid rnd start mem ppa len cb args rd cb_w) s =
     bindR (schedule_internal_operation_cb sqid rnd start mem ppa len cb args rd cb_w (sy_dev s)) (\<lambda>dev.
     Inr (s\<lparr>sy_dev := dev\<rparr>))"
| "io_exec env (Start t) s =
     Inr (s\<lparr>sy_pc := (sy_pc s)(t := if sy_pc s t = None then wk_io_seq (dv_workers (sy_dev s) ! t) else sy_pc s t)\<rparr>)"
| "io_exec env (Visit t now) s =
     (case sy_pc s t of
        None \<Rightarrow> Inr s
      | Some c \<Rightarrow>
          bindR (worker_visit env now t c (dv_workers (sy_dev s))) (\<lambda>(c', ws, evs).
          Inr (s\<lparr>sy_dev := (sy_dev s)\<lparr>dv_workers := ws\<rparr>, sy_pc := (sy_pc s)(t := c'),
                 sy_posted := (sy_posted s)(t := map (Pair now) (posts evs) @ sy_posted s t)\<rparr>)))"
| "io_exec env (Reclaim t) s =
     bindR (reclaim_worker (dv_workers (sy_dev s) ! t)) (\<lambda>wk.
     Inr (s\<lparr>sy_dev := (sy_dev s)\<lparr>dv_workers := (dv_workers (sy_dev s))[t := wk]\<rparr>\<rparr>))"

definition io_boot :: "nat \<Rightarrow> nat \<Rightarrow> io_sys" where
  "io_boot n nr = \<lparr>sy_dev = io_workers_init n nr, sy_pc = \<lambda>_. None, sy_sent = \<lambda>_. [], sy_posted = \<lambda>_. []\<rparr>"

text \<open>
  The steps the code can take: workers exist, a callback is scheduled with its arguments, and a
  \<^verbatim>\<open>cb_w\<close> points to a work item.
\<close>

fun op_ok :: "nat \<Rightarrow> nat \<Rightarrow> io_op \<Rightarrow> bool" where
  "op_ok n nr (Internal_cb sqid rnd start mem ppa len cb args rd cb_w) \<longleftrightarrow>
     (cb \<noteq> None \<longrightarrow> args \<noteq> None) \<and> (case cb_w of None \<Rightarrow> True | Some (t, e) \<Rightarrow> t < nr \<and> e < n)"
| "op_ok n nr (Start t) \<longleftrightarrow> t < nr"
| "op_ok n nr (Visit t now) \<longleftrightarrow> t < nr"
| "op_ok n nr (Reclaim t) \<longleftrightarrow> t < nr"
| "op_ok n nr _ \<longleftrightarrow> True"

inductive io_reach :: "io_env \<Rightarrow> nat \<Rightarrow> nat \<Rightarrow> io_sys \<Rightarrow> bool" for env n nr where
  boot: "io_reach env n nr (io_boot n nr)"
| step: "io_reach env n nr s \<Longrightarrow> op_ok n nr op \<Longrightarrow> io_exec env op s = Inr s' \<Longrightarrow> io_reach env n nr s'"

section \<open>The invariant\<close>

text \<open>The items reached from an index, for reading a worker's lists off its array.\<close>

fun chain :: "nat \<Rightarrow> io_work list \<Rightarrow> nat option \<Rightarrow> nat list" where
  "chain (Suc k) q (Some x) = (if x < length q then x # chain k q (w_next (q ! x)) else [])"
| "chain k q i = []"

definition in_flight :: "io_worker \<Rightarrow> nat list" where
  "in_flight wk = chain (length (wk_queue wk)) (wk_queue wk) (wk_io_seq wk)"

definition free_items :: "io_worker \<Rightarrow> nat list" where
  "free_items wk = chain (length (wk_queue wk)) (wk_queue wk) (wk_free_seq wk)"

definition is_pending :: "io_work \<Rightarrow> bool" where
  "is_pending w \<longleftrightarrow> \<not> w_is_completed w \<and> \<not> w_is_internal w"

definition waiting :: "io_work list \<Rightarrow> nat list \<Rightarrow> request multiset" where
  "waiting q xs = mset (map (\<lambda>x. request_of (q ! x)) (filter (\<lambda>x. is_pending (q ! x)) xs))"

definition item_ok :: "nat \<Rightarrow> nat \<Rightarrow> io_work \<Rightarrow> bool" where
  "item_ok n nr w \<longleftrightarrow>
     (w_is_completed w \<longrightarrow> w_is_copied w) \<and> (w_is_internal w \<and> \<not> w_is_copied w \<and> w_cb w \<noteq> None \<longrightarrow> w_args w \<noteq> None)
     \<and> (case w_cb_w w of None \<Rightarrow> True | Some (t, e) \<Rightarrow> t < nr \<and> e < n)"

definition posted_ok :: "u64 \<times> io_work \<Rightarrow> bool" where
  "posted_ok p \<longleftrightarrow> (case p of (now, w) \<Rightarrow> w_nsecs_target w \<le> now \<and> w_is_copied w \<and> \<not> w_is_internal w)"

definition wsys_inv ::
  "nat \<Rightarrow> nat \<Rightarrow> io_worker \<Rightarrow> nat option \<Rightarrow> request list \<Rightarrow> (u64 \<times> io_work) list \<Rightarrow>
    nat list \<Rightarrow> nat list \<Rightarrow> nat list \<Rightarrow> bool" where
  "wsys_inv n nr wk pc sent posted ios fresh reused \<longleftrightarrow>
     worker_ok wk ios fresh reused \<and> length (wk_queue wk) = n
     \<and> (\<forall>c. pc = Some c \<longrightarrow> c \<in> set ios \<union> set reused)
     \<and> (\<forall>x < n. item_ok n nr (wk_queue wk ! x)) \<and> (\<forall>p \<in> set posted. posted_ok p)
     \<and> mset sent = mset (map (request_of \<circ> snd) posted) + waiting (wk_queue wk) ios"

definition wsys_ok ::
  "nat \<Rightarrow> nat \<Rightarrow> io_worker \<Rightarrow> nat option \<Rightarrow> request list \<Rightarrow> (u64 \<times> io_work) list \<Rightarrow> bool" where
  "wsys_ok n nr wk pc sent posted \<longleftrightarrow> (\<exists>ios fresh reused. wsys_inv n nr wk pc sent posted ios fresh reused)"

lemma wsys_okI [intro?]:
  assumes "worker_ok wk ios fresh reused" "length (wk_queue wk) = n"
    "\<And>c. pc = Some c \<Longrightarrow> c \<in> set ios \<union> set reused" "\<And>x. x < n \<Longrightarrow> item_ok n nr (wk_queue wk ! x)"
    "\<And>p. p \<in> set posted \<Longrightarrow> posted_ok p"
    "mset sent = mset (map (request_of \<circ> snd) posted) + waiting (wk_queue wk) ios"
  shows "wsys_ok n nr wk pc sent posted"
  unfolding wsys_ok_def wsys_inv_def by (intro exI conjI allI impI ballI) (rule assms, assumption?)+

lemma wsys_invD:
  assumes "wsys_inv n nr wk pc sent posted ios fresh reused"
  shows "worker_ok wk ios fresh reused" "length (wk_queue wk) = n"
    "pc = Some c \<Longrightarrow> c \<in> set ios \<union> set reused" "x < n \<Longrightarrow> item_ok n nr (wk_queue wk ! x)"
    "p \<in> set posted \<Longrightarrow> posted_ok p"
    "mset sent = mset (map (request_of \<circ> snd) posted) + waiting (wk_queue wk) ios"
  using assms by (simp_all add: wsys_inv_def)

lemma chain_nseg: "nseg q i xs None \<Longrightarrow> length xs \<le> k \<Longrightarrow> chain k q i = xs"
proof (induction xs arbitrary: i k)
  case (Cons x xs)
  then show ?case by (cases k) auto
qed auto

lemma worker_ok_chains:
  assumes "worker_ok wk ios fresh reused"
  shows "in_flight wk = ios" "free_items wk = fresh @ reused"
proof -
  note ok = worker_okD [OF assms]
  have "length ios \<le> length (wk_queue wk)" "length (fresh @ reused) \<le> length (wk_queue wk)"
    using ok(7) nseg_bound [OF ok(1)] nseg_bound [OF ok(4)]
    by (intro distinct_length_bound, simp, blast)+
  then show "in_flight wk = ios" "free_items wk = fresh @ reused"
    using chain_nseg [OF ok(1)] chain_nseg [OF ok(4)] by (simp_all add: in_flight_def free_items_def)
qed

subsection \<open>Boot\<close>

lemma nseg_upt:
  assumes "i \<le> n" "length q = n" "\<And>x. x < n \<Longrightarrow> w_next (q ! x) = (if x = n - 1 then None else Some (x + 1))"
  shows "nseg q (if i = n then None else Some i) [i..<n] None"
  using assms(1)
proof (induction rule: inc_induct)
  case (step k)
  then show ?case using assms(2) assms(3) [of k] by (auto simp: upt_rec [of k] split: if_splits)
qed simp

lemma worker_ok_init: "0 < n \<Longrightarrow> worker_ok (io_worker_init n i) [] [0..<n] []"
  using nseg_upt [of 0 n "wk_queue (io_worker_init n i)"]
  by (auto simp: worker_ok_def io_worker_init_def last_opt_def)

lemma wsys_ok_init: "0 < n \<Longrightarrow> wsys_ok n nr (io_worker_init n i) None [] []"
  by (rule wsys_okI [OF worker_ok_init])
    (auto simp: io_worker_init_def waiting_def item_ok_def zero_work_def)

subsection \<open>Dispatcher steps\<close>

lemma waiting_cong:
  assumes "\<And>x. x \<in> set xs \<Longrightarrow> is_pending (q' ! x) = is_pending (q ! x) \<and> (is_pending (q ! x) \<longrightarrow> request_of (q' ! x) = request_of (q ! x))"
  shows "waiting q' xs = waiting q xs"
  using assms by (induction xs) (auto simp: waiting_def)

lemma waiting_append [simp]: "waiting q (xs @ ys) = waiting q xs + waiting q ys"
  by (simp add: waiting_def)

lemma waiting_Cons [simp]: "waiting q (x # xs) = (if is_pending (q ! x) then {#request_of (q ! x)#} else {#}) + waiting q xs"
  by (simp add: waiting_def)

lemma waiting_Nil [simp]: "waiting q [] = {#}"
  by (simp add: waiting_def)

lemma unlinked_same:
  assumes "unlinked v = unlinked w"
  shows "is_pending v = is_pending w" "request_of v = request_of w" "item_ok n nr v = item_ok n nr w"
  using unlinked_eqD [OF assms] by (simp_all add: is_pending_def request_of_def item_ok_def)

lemma waiting_unlinked:
  assumes "\<And>x. x \<in> set xs \<Longrightarrow> unlinked (q' ! x) = unlinked (q ! x)"
  shows "waiting q' xs = waiting q xs"
  using unlinked_same(1,2) [OF assms] by (intro waiting_cong) blast

lemma wsys_ok_enqueue:
  assumes "wsys_ok n nr wk pc sent posted" "fills fill" "\<And>w. item_ok n nr w \<Longrightarrow> item_ok n nr (fill w)"
    "\<And>w. w_is_internal (fill w) = internal" "\<And>w. \<not> internal \<Longrightarrow> request_of (fill w) = k"
  shows "if length (free_items wk) = 1 then enqueue_work fill wk = Inr (None, wk)
    else \<exists>e wk'. enqueue_work fill wk = Inr (Some e, wk') \<and> wsys_ok n nr wk' pc (if internal then sent else k # sent) posted"
proof -
  obtain ios fresh reused where "wsys_inv n nr wk pc sent posted ios fresh reused"
    using assms(1) by (auto simp: wsys_ok_def)
  note ok = wsys_invD [OF this]
  obtain e fs where e: "fresh @ reused = e # fs" using worker_okD(5) [OF ok(1)] by (cases "fresh @ reused") auto
  show ?thesis
  proof (cases "fs = []")
    case True
    then show ?thesis using enqueue_work_full [OF ok(1), of e] e worker_ok_chains [OF ok(1)] by simp
  next
    case False
    obtain as bs wk' fresh' reused' where s: "enqueue_work fill wk = Inr (Some e, wk')" "ios = as @ bs"
      "set reused \<subseteq> insert e (set reused')" "worker_ok wk' (as @ e # bs) fresh' reused'"
      "length (wk_queue wk') = n"
      "\<And>x. x < n \<Longrightarrow> unlinked (wk_queue wk' ! x) = unlinked (if x = e then fill (wk_queue wk ! e) else wk_queue wk ! x)"
      using enqueue_work_spec [OF ok(1) e False assms(2)] ok(2) by blast
    have en: "e < n" "e \<notin> set ios" and ios: "x \<in> set ios \<Longrightarrow> x < n" for x
      using worker_okD(7,8) [OF ok(1)] e ok(2) by auto
    have "waiting (wk_queue wk') xs = waiting (wk_queue wk) xs" if "set xs \<subseteq> set ios" for xs
    proof (rule waiting_unlinked)
      fix x assume "x \<in> set xs"
      then have "x \<in> set ios" using that by blast
      then show "unlinked (wk_queue wk' ! x) = unlinked (wk_queue wk ! x)" using s(6) [of x] ios en(2) by auto
    qed
    moreover have "is_pending (wk_queue wk' ! e) \<longleftrightarrow> \<not> internal" "\<not> internal \<Longrightarrow> request_of (wk_queue wk' ! e) = k"
      using unlinked_same(1,2) [OF s(6) [OF en(1)]] assms(2,4,5) by (auto simp: is_pending_def fills_def)
    ultimately have "waiting (wk_queue wk') (as @ e # bs) = waiting (wk_queue wk) ios + (if internal then {#} else {#k#})"
      using s(2) by simp
    moreover have "item_ok n nr (wk_queue wk' ! x)" if "x < n" for x
      using unlinked_same(3) [OF s(6) [OF that]] ok(4) assms(3) that en(1) by simp
    ultimately have "wsys_ok n nr wk' pc (if internal then sent else k # sent) posted"
      using ok(3,5,6) s(2,3,5) by (intro wsys_okI [OF s(4)]) auto
    then show ?thesis using s(1) False e worker_ok_chains(2) [OF ok(1)] by auto
  qed
qed

lemma wsys_ok_reclaim:
  assumes "wsys_ok n nr wk pc sent posted"
  shows "\<exists>wk'. reclaim_worker wk = Inr wk' \<and> wsys_ok n nr wk' pc sent posted"
proof -
  obtain ios fresh reused where "wsys_inv n nr wk pc sent posted ios fresh reused"
    using assms(1) by (auto simp: wsys_ok_def)
  note ok = wsys_invD [OF this]
  define rs where "rs = takeWhile (reclaimable wk) ios"
  define ks where "ks = dropWhile (reclaimable wk) ios"
  obtain wk' where s: "reclaim_worker wk = Inr wk'" "worker_ok wk' ks fresh (reused @ rs)"
    "length (wk_queue wk') = n" "\<And>x. x < n \<Longrightarrow> unlinked (wk_queue wk' ! x) = unlinked (wk_queue wk ! x)"
    using reclaim_worker_spec [OF ok(1) rs_def ks_def] ok(2) by auto
  have ios: "ios = rs @ ks" by (simp add: rs_def ks_def)
  have bound: "x < n" if "x \<in> set ios" for x using worker_okD(8) [OF ok(1)] ok(2) that by auto
  have "waiting (wk_queue wk) rs = {#}"
    by (auto simp: waiting_def rs_def is_pending_def reclaimable_def Let_def filter_empty_conv dest!: set_takeWhileD)
  moreover have "waiting (wk_queue wk') ks = waiting (wk_queue wk) ks"
    using ios bound s(4) by (intro waiting_unlinked) simp
  ultimately have "wsys_ok n nr wk' pc sent posted"
    using ok(3-6) ios s(3) unlinked_same(3) [OF s(4)] by (intro wsys_okI [OF s(2)]) auto
  then show ?thesis using s(1) by blast
qed

subsection \<open>Worker steps\<close>

text \<open>An update of work items that leaves alone their links, their identity and whether they are completed.\<close>

definition touches :: "io_work list \<Rightarrow> io_work list \<Rightarrow> bool" where
  "touches q q' \<longleftrightarrow> length q' = length q \<and> (\<forall>x < length q. let v = q ! x; w = q' ! x in
     w_next w = w_next v \<and> w_prev w = w_prev v \<and> w_is_completed w = w_is_completed v
     \<and> w_is_internal w = w_is_internal v \<and> request_of w = request_of v \<and> w_cb w = w_cb v \<and> w_args w = w_args v
     \<and> w_cb_w w = w_cb_w v \<and> (w_is_copied v \<longrightarrow> w_is_copied w))"

lemma touches_at:
  assumes "touches q q'" "x < length q"
  shows "w_next (q' ! x) = w_next (q ! x) \<and> w_prev (q' ! x) = w_prev (q ! x)
    \<and> w_is_completed (q' ! x) = w_is_completed (q ! x) \<and> w_is_internal (q' ! x) = w_is_internal (q ! x)
    \<and> request_of (q' ! x) = request_of (q ! x) \<and> w_cb (q' ! x) = w_cb (q ! x) \<and> w_args (q' ! x) = w_args (q ! x)
    \<and> w_cb_w (q' ! x) = w_cb_w (q ! x) \<and> (w_is_copied (q ! x) \<longrightarrow> w_is_copied (q' ! x))"
  using assms by (simp add: touches_def Let_def)

lemma touchesD:
  assumes "touches q q'"
  shows "length q' = length q" "x < length q \<Longrightarrow> w_next (q' ! x) = w_next (q ! x)"
    "x < length q \<Longrightarrow> w_prev (q' ! x) = w_prev (q ! x)"
    "x < length q \<Longrightarrow> w_is_completed (q' ! x) = w_is_completed (q ! x)"
    "x < length q \<Longrightarrow> w_is_internal (q' ! x) = w_is_internal (q ! x)"
    "x < length q \<Longrightarrow> request_of (q' ! x) = request_of (q ! x)"
    "x < length q \<Longrightarrow> item_ok n nr (q ! x) \<Longrightarrow> item_ok n nr (q' ! x)"
    "x < length q \<Longrightarrow> is_pending (q' ! x) = is_pending (q ! x)"
    "x < length q \<Longrightarrow> w_is_copied (q ! x) \<Longrightarrow> w_is_copied (q' ! x)"
proof -
  show "length q' = length q" using assms by (simp add: touches_def)
  show "item_ok n nr (q' ! x)" if "x < length q" "item_ok n nr (q ! x)"
    using touches_at [OF assms that(1)] that(2) by (simp add: item_ok_def) blast
qed (use touches_at [OF assms] in \<open>simp_all add: is_pending_def\<close>)

lemma touches_refl [simp]: "touches q q"
  by (simp add: touches_def Let_def)

lemma touches_trans [trans]: "touches q q' \<Longrightarrow> touches q' q'' \<Longrightarrow> touches q q''"
  by (simp add: touches_def Let_def)

lemma touches_update:
  assumes "w_next w = w_next (q ! c)" "w_prev w = w_prev (q ! c)" "w_is_completed w = w_is_completed (q ! c)"
    "w_is_internal w = w_is_internal (q ! c)" "request_of w = request_of (q ! c)" "w_cb w = w_cb (q ! c)"
    "w_args w = w_args (q ! c)" "w_cb_w w = w_cb_w (q ! c)" "w_is_copied (q ! c) \<Longrightarrow> w_is_copied w"
  shows "touches q (q[c := w])"
  unfolding touches_def Let_def
proof (intro conjI allI impI)
  fix x assume "x < length q"
  then have "q[c := w] ! x = (if x = c then w else q ! x)" by (simp add: nth_list_update)
  note at = this
  show "w_next (q[c := w] ! x) = w_next (q ! x)" "w_prev (q[c := w] ! x) = w_prev (q ! x)"
    "w_is_completed (q[c := w] ! x) = w_is_completed (q ! x)" "w_is_internal (q[c := w] ! x) = w_is_internal (q ! x)"
    "request_of (q[c := w] ! x) = request_of (q ! x)" "w_cb (q[c := w] ! x) = w_cb (q ! x)"
    "w_args (q[c := w] ! x) = w_args (q ! x)" "w_cb_w (q[c := w] ! x) = w_cb_w (q ! x)"
    using assms by (simp_all only: at split: if_split) simp_all
  show "w_is_copied (q[c := w] ! x)" if "w_is_copied (q ! x)" using assms(9) that unfolding at by (cases "x = c") simp_all
qed simp

lemma worker_ok_frame:
  assumes "worker_ok wk ios fresh reused" "length q' = length (wk_queue wk)"
    "\<And>x. x < length q' \<Longrightarrow> w_next (q' ! x) = w_next (wk_queue wk ! x) \<and> w_prev (q' ! x) = w_prev (wk_queue wk ! x)
      \<and> (w_is_completed (wk_queue wk ! x) \<longrightarrow> w_is_completed (q' ! x))"
  shows "worker_ok (wk\<lparr>wk_queue := q'\<rparr>) ios fresh reused"
proof -
  note ok = worker_okD [OF assms(1)]
  have bound: "x < length q'" if "x \<in> set ios \<or> x \<in> set fresh \<or> x \<in> set reused" for x
    using ok(8) that assms(2) by auto
  have "nseg q' (wk_io_seq wk) ios None" "pchain q' None ios" "nseg q' (wk_free_seq wk) (fresh @ reused) None"
    using assms(3) bound
    by (intro nseg_frame [OF ok(1) assms(2)] nseg_frame [OF ok(4) assms(2)] pchain_frame [OF ok(2)]; simp)+
  then show ?thesis using ok(3,5-8) assms(2) assms(3) [OF bound] ok(9) unfolding worker_ok_def by simp
qed

lemma wsys_ok_touches:
  assumes "wsys_ok n nr wk pc sent posted" "touches (wk_queue wk) q'"
  shows "wsys_ok n nr (wk\<lparr>wk_queue := q'\<rparr>) pc sent posted"
proof -
  obtain ios fresh reused where "wsys_inv n nr wk pc sent posted ios fresh reused"
    using assms(1) by (auto simp: wsys_ok_def)
  note ok = wsys_invD [OF this]
  note t = touchesD [OF assms(2)]
  have "waiting q' ios = waiting (wk_queue wk) ios"
    using nseg_bound [OF worker_okD(1) [OF ok(1)]] by (intro waiting_cong) (simp add: t(6,8))
  moreover have "worker_ok (wk\<lparr>wk_queue := q'\<rparr>) ios fresh reused"
    by (rule worker_ok_frame [OF ok(1)]) (simp_all add: t(1-4))
  ultimately show ?thesis using ok(2-6) t(1,7) by (intro wsys_okI) auto
qed

lemma wsys_ok_latest: "wsys_ok n nr (wk\<lparr>wk_latest_nsecs := now\<rparr>) pc sent posted = wsys_ok n nr wk pc sent posted"
  by (simp add: wsys_ok_def wsys_inv_def worker_ok_def)

fun event_ok :: "nat \<Rightarrow> nat \<Rightarrow> io_event \<Rightarrow> bool" where
  "event_ok n nr (Set_result (t, e) target result status) \<longleftrightarrow> t < nr \<and> e < n"
| "event_ok n nr _ \<longleftrightarrow> True"

lemma copy_work_spec:
  assumes "c < length q" "item_ok n nr (q ! c)"
  shows "\<exists>q' evs. copy_work env q c = Inr (q', evs) \<and> touches q q' \<and> w_is_copied (q' ! c) \<and> posts evs = []
    \<and> (\<forall>ev \<in> set evs. event_ok n nr ev) \<and> w_nsecs_target (q' ! c) = w_nsecs_target (q ! c)"
proof (cases "w_is_copied (q ! c)")
  case True
  then show ?thesis using assms(1) by (simp add: copy_work_def work_at_def)
next
  case False
  show ?thesis
  proof (cases "w_is_internal (q ! c)")
    case True
    obtain evs where evs: "run_internal env (q ! c) = Inr evs" "posts evs = []" "\<forall>ev \<in> set evs. event_ok n nr ev"
      using assms(2) True False
      by (cases "w_cb (q ! c)"; cases "w_args (q ! c)"; cases "w_cb_w (q ! c)";
          cases "env_cb env (the (w_cb (q ! c))) (the (w_args (q ! c)))")
        (auto simp: run_internal_def item_ok_def)
    have "touches q (q[c := (q ! c)\<lparr>w_is_copied := True\<rparr>])"
      by (rule touches_update) (simp_all add: request_of_def)
    then show ?thesis using evs assms(1) True False by (simp add: copy_work_def work_at_def set_work_def)
  next
    case req: False
    have "\<exists>w evs. run_request env q c (q ! c) = Inr (q[c := w], evs) \<and> posts evs = [] \<and> (\<forall>ev \<in> set evs. event_ok n nr ev)
        \<and> (w = q ! c \<or> w = (q ! c)\<lparr>w_result0 := env_perform_kv env (q ! c), w_result1 := env_perform_kv env (q ! c)\<rparr>)"
    proof (cases "env_dma env \<or> \<not> env_is_kv env (q ! c)")
      case True
      then show ?thesis by (intro exI [of _ "q ! c"]) (simp add: run_request_def)
    next
      case False
      then show ?thesis using assms(1) by (cases "w_cb (q ! c)") (auto simp: run_request_def set_work_def)
    qed
    then obtain w evs where w: "run_request env q c (q ! c) = Inr (q[c := w], evs)" "posts evs = []"
      "\<forall>ev \<in> set evs. event_ok n nr ev"
      "w = q ! c \<or> w = (q ! c)\<lparr>w_result0 := env_perform_kv env (q ! c), w_result1 := env_perform_kv env (q ! c)\<rparr>"
      by blast
    have "touches q (q[c := w\<lparr>w_is_copied := True\<rparr>])"
      by (rule touches_update) (use w(4) in \<open>auto simp: request_of_def\<close>)
    then show ?thesis using w assms(1) False req by (auto simp: copy_work_def work_at_def set_work_def)
  qed
qed

text \<open>The workers before and after results were stored: only work items were touched.\<close>

definition all_touch :: "io_worker list \<Rightarrow> io_worker list \<Rightarrow> bool" where
  "all_touch ws ws' \<longleftrightarrow> length ws' = length ws
     \<and> (\<forall>t < length ws. ws' ! t = (ws ! t)\<lparr>wk_queue := wk_queue (ws' ! t)\<rparr>
          \<and> touches (wk_queue (ws ! t)) (wk_queue (ws' ! t)))"

lemma all_touch_refl [simp]: "all_touch ws ws"
  by (simp add: all_touch_def)

lemma all_touch_trans:
  assumes "all_touch ws ws'" "all_touch ws' ws''"
  shows "all_touch ws ws''"
  unfolding all_touch_def
proof (intro conjI allI impI)
  fix t assume t: "t < length ws"
  have 1: "ws' ! t = (ws ! t)\<lparr>wk_queue := wk_queue (ws' ! t)\<rparr>" "touches (wk_queue (ws ! t)) (wk_queue (ws' ! t))"
    using assms(1) t by (auto simp only: all_touch_def)
  have 2: "ws'' ! t = (ws' ! t)\<lparr>wk_queue := wk_queue (ws'' ! t)\<rparr>" "touches (wk_queue (ws' ! t)) (wk_queue (ws'' ! t))"
    using assms t by (auto simp only: all_touch_def)
  show "ws'' ! t = (ws ! t)\<lparr>wk_queue := wk_queue (ws'' ! t)\<rparr>" by (subst 2(1), subst 1(1)) simp
  show "touches (wk_queue (ws ! t)) (wk_queue (ws'' ! t))" by (rule touches_trans [OF 1(2) 2(2)])
qed (use assms in \<open>simp add: all_touch_def\<close>)

lemma all_touch_update:
  assumes "touches (wk_queue (ws ! t)) q"
  shows "all_touch ws (ws[t := (ws ! t)\<lparr>wk_queue := q\<rparr>])"
proof (cases "t < length ws")
  case True
  then show ?thesis using assms by (auto simp: all_touch_def nth_list_update)
qed (simp add: list_update_beyond)

lemma set_result_touches: "touches q (q[e := set_result target result status (q ! e)])"
  by (rule touches_update) (simp_all add: set_result_def request_of_def)

lemma write_results_spec:
  assumes "length ws = nr" "\<And>t. t < nr \<Longrightarrow> length (wk_queue (ws ! t)) = n" "\<forall>ev \<in> set evs. event_ok n nr ev"
  shows "\<exists>ws'. write_results evs ws = Inr ws' \<and> all_touch ws ws'"
  using assms
proof (induction evs ws rule: write_results.induct)
  case (2 t e target result status evs ws)
  define q where "q = (wk_queue (ws ! t))[e := set_result target result status (wk_queue (ws ! t) ! e)]"
  define ws1 where "ws1 = ws[t := (ws ! t)\<lparr>wk_queue := q\<rparr>]"
  have te: "t < length ws" "e < length (wk_queue (ws ! t))" using 2(2-4) by auto
  have touch: "all_touch ws ws1" unfolding ws1_def q_def by (intro all_touch_update set_result_touches)
  have set: "set_work (wk_queue (ws ! t)) (Some e) (set_result target result status) = Inr q"
    using te(2) by (simp add: set_work_def q_def)
  have "length (wk_queue (ws1 ! u)) = n" if "u < nr" for u
    using 2(3) te(1) that by (auto simp: ws1_def q_def nth_list_update)
  then obtain ws' where "write_results evs ws1 = Inr ws'" "all_touch ws1 ws'"
    using 2(1) [OF te(1) set] 2(2,4) by (auto simp: ws1_def)
  then show ?case using te(1) set all_touch_trans [OF touch] by (auto simp: ws1_def)
qed simp_all

lemma next_in_chain:
  assumes "nseg q i (xs @ ys) None" "c \<in> set ys" "w_next (q ! c) = Some d"
  shows "d \<in> set ys"
proof -
  obtain as bs where ys: "ys = as @ c # bs" using assms(2) by (auto dest: split_list)
  then have "w_next (q ! c) = hd_opt bs" using nseg_inner [of q i "xs @ as" c bs] assms(1) by simp
  then show ?thesis using assms(3) ys by (cases bs) auto
qed

lemma wsys_ok_next:
  assumes "wsys_ok n nr wk (Some c) sent posted"
  shows "c < n" "wsys_ok n nr wk (w_next (wk_queue wk ! c)) sent posted"
proof -
  obtain ios fresh reused where "wsys_inv n nr wk (Some c) sent posted ios fresh reused"
    using assms(1) by (auto simp: wsys_ok_def)
  note ok = wsys_invD [OF this]
  have c: "c \<in> set ios \<or> c \<in> set reused" using ok(3) by auto
  show "c < n" using c ok(2) worker_okD(8) [OF ok(1)] by auto
  have "d \<in> set ios \<union> set reused" if "w_next (wk_queue wk ! c) = Some d" for d
    using c next_in_chain [OF _ _ that, of _ "[]" ios] next_in_chain [OF _ _ that, of _ fresh reused]
      worker_okD(1,4) [OF ok(1)] by auto
  then show "wsys_ok n nr wk (w_next (wk_queue wk ! c)) sent posted"
    by (intro wsys_okI [OF ok(1,2) _ ok(4,5,6)])
qed

lemma wsys_ok_complete:
  assumes "wsys_ok n nr wk (Some c) sent posted" "\<not> w_is_completed (wk_queue wk ! c)" "w_is_copied (wk_queue wk ! c)"
  shows "\<exists>q evs. complete_work now (wk_queue wk) c = Inr (q, evs)
    \<and> wsys_ok n nr (wk\<lparr>wk_queue := q\<rparr>) (Some c) sent (map (Pair now) (posts evs) @ posted)"
proof (cases "w_nsecs_target (wk_queue wk ! c) \<le> now")
  case False
  then show ?thesis using wsys_ok_next(1) [OF assms(1)] assms(1)
    by (auto simp: complete_work_def work_at_def wsys_ok_def wsys_inv_def)
next
  case True
  obtain ios fresh reused where "wsys_inv n nr wk (Some c) sent posted ios fresh reused"
    using assms(1) by (auto simp: wsys_ok_def)
  note ok = wsys_invD [OF this]
  define w where "w = wk_queue wk ! c"
  define q where "q = (wk_queue wk)[c := w\<lparr>w_is_completed := True\<rparr>]"
  define evs where "evs = (if w_is_internal w
      then (case w_write_buffer w of None \<Rightarrow> [] | Some b \<Rightarrow> [Release b (w_buffs_to_release w)]) else [Post w])"
  have c: "c < n" "c \<in> set ios" using ok(3) worker_okD(9) [OF ok(1)] assms(2) wsys_ok_next(1) [OF assms(1)] by auto
  have len: "length q = n" using ok(2) by (simp add: q_def)
  have q: "q ! x = (if x = c then w\<lparr>w_is_completed := True\<rparr> else wk_queue wk ! x)" if "x < n" for x
    using that c ok(2) by (auto simp: q_def nth_list_update)
  have evs: "complete_work now (wk_queue wk) c = Inr (q, evs)" "posts evs = (if w_is_internal w then [] else [w])"
    using c ok(2) True by (auto simp: complete_work_def work_at_def set_work_def q_def evs_def w_def split: option.split)
  obtain as bs where ab: "ios = as @ c # bs" using c(2) by (auto dest: split_list)
  have others: "waiting q xs = waiting (wk_queue wk) xs" if "set xs \<subseteq> set ios - {c}" for xs
  proof (rule waiting_cong)
    fix x assume "x \<in> set xs"
    then have "x \<in> set ios" "x \<noteq> c" using that by auto
    then show "is_pending (q ! x) = is_pending (wk_queue wk ! x)
        \<and> (is_pending (wk_queue wk ! x) \<longrightarrow> request_of (q ! x) = request_of (wk_queue wk ! x))"
      using nseg_bound [OF worker_okD(1) [OF ok(1)]] ok(2) by (simp add: q)
  qed
  have "c \<notin> set as" "c \<notin> set bs" using worker_okD(7) [OF ok(1)] ab by auto
  then have "waiting (wk_queue wk) ios = mset (map request_of (posts evs)) + waiting q ios"
    using others [of as] others [of bs] ab c(1) q [of c] assms(2) evs(2) by (auto simp: is_pending_def w_def)
  moreover have "worker_ok (wk\<lparr>wk_queue := q\<rparr>) ios fresh reused"
    by (rule worker_ok_frame [OF ok(1)]) (simp_all add: len ok(2) q w_def)
  moreover have "item_ok n nr (q ! x)" if "x < n" for x
    using ok(4) [OF that] q [OF that] assms(3) by (auto simp: item_ok_def w_def)
  moreover have "posted_ok (now, v)" if "v \<in> set (posts evs)" for v
    using that evs(2) True assms(3) by (auto simp: posted_ok_def w_def split: if_splits)
  ultimately have "wsys_ok n nr (wk\<lparr>wk_queue := q\<rparr>) (Some c) sent (map (Pair now) (posts evs) @ posted)"
    using ok(2,3,5,6) by (intro wsys_okI [where ios = ios and fresh = fresh and reused = reused])
      (auto simp: q_def comp_def)
  then show ?thesis using evs(1) by blast
qed

lemma posts_append [simp]: "posts (xs @ ys) = posts xs @ posts ys"
  by (induction xs rule: posts.induct) auto

definition all_ok ::
  "nat \<Rightarrow> nat \<Rightarrow> io_worker list \<Rightarrow> (nat \<Rightarrow> nat option) \<Rightarrow> (nat \<Rightarrow> request list) \<Rightarrow> (nat \<Rightarrow> (u64 \<times> io_work) list) \<Rightarrow> bool" where
  "all_ok n nr ws pc sent posted \<longleftrightarrow> length ws = nr \<and> (\<forall>t < nr. wsys_ok n nr (ws ! t) (pc t) (sent t) (posted t))"

lemma all_okD:
  assumes "all_ok n nr ws pc sent posted"
  shows "length ws = nr" "t < nr \<Longrightarrow> wsys_ok n nr (ws ! t) (pc t) (sent t) (posted t)"
  using assms by (auto simp: all_ok_def)

lemma all_ok_update:
  assumes "all_ok n nr ws pc sent posted" "wsys_ok n nr wk pc' sent' posted'" "t < nr"
  shows "all_ok n nr (ws[t := wk]) (pc(t := pc')) (sent(t := sent')) (posted(t := posted'))"
  using assms by (auto simp: all_ok_def nth_list_update)

lemma all_ok_set:
  assumes "all_ok n nr ws pc sent posted" "wsys_ok n nr wk (pc t) (sent t) (posted t)" "t < nr"
  shows "all_ok n nr (ws[t := wk]) pc sent posted"
  using all_ok_update [OF assms] by simp

lemma all_ok_touch:
  assumes "all_ok n nr ws pc sent posted" "all_touch ws ws'"
  shows "all_ok n nr ws' pc sent posted"
  unfolding all_ok_def
proof (intro conjI allI impI)
  fix t assume t: "t < nr"
  then have "ws' ! t = (ws ! t)\<lparr>wk_queue := wk_queue (ws' ! t)\<rparr>" "touches (wk_queue (ws ! t)) (wk_queue (ws' ! t))"
    using assms by (auto simp only: all_touch_def all_ok_def)
  then show "wsys_ok n nr (ws' ! t) (pc t) (sent t) (posted t)"
    using wsys_ok_touches [OF all_okD(2) [OF assms(1) t]] by metis
qed (use assms in \<open>simp add: all_ok_def all_touch_def\<close>)

lemma wsys_ok_items:
  assumes "wsys_ok n nr wk pc sent posted"
  shows "length (wk_queue wk) = n" "x < n \<Longrightarrow> item_ok n nr (wk_queue wk ! x)"
  using assms by (auto simp: wsys_ok_def wsys_inv_def)

lemma worker_visit_ok:
  assumes "all_ok n nr ws pc sent posted" "t < nr" "pc t = Some c"
  shows "\<exists>c' ws' evs. worker_visit env now t c ws = Inr (c', ws', evs)
    \<and> all_ok n nr ws' (pc(t := c')) sent (posted(t := map (Pair now) (posts evs) @ posted t))"
proof -
  define ws0 where "ws0 = ws[t := (ws ! t)\<lparr>wk_latest_nsecs := now\<rparr>]"
  have ok0: "all_ok n nr ws0 pc sent posted" unfolding ws0_def
    by (rule all_ok_set [OF assms(1) _ assms(2)]) (simp add: wsys_ok_latest all_okD(2) [OF assms(1,2)])
  define q where "q = wk_queue (ws0 ! t)"
  have w0: "wsys_ok n nr (ws0 ! t) (Some c) (sent t) (posted t)" using all_okD(2) [OF ok0 assms(2)] assms(3) by simp
  have c: "c < length q" using wsys_ok_next(1) [OF w0] wsys_ok_items(1) [OF w0] by (simp add: q_def)
  show ?thesis
  proof (cases "w_is_completed (q ! c)")
    case True
    then have "worker_visit env now t c ws = Inr (w_next (q ! c), ws0, [])"
      using c by (simp add: worker_visit_def ws0_def [symmetric] q_def [symmetric] work_at_def)
    moreover have "all_ok n nr ws0 (pc(t := w_next (q ! c))) sent (posted(t := posted t))"
      using all_ok_update [OF ok0 wsys_ok_next(2) [OF w0] assms(2)] by (simp add: q_def)
    ultimately show ?thesis by fastforce
  next
    case False
    obtain q1 evs where q1: "copy_work env q c = Inr (q1, evs)" "touches q q1" "w_is_copied (q1 ! c)" "posts evs = []"
      "\<forall>ev \<in> set evs. event_ok n nr ev"
      using copy_work_spec [OF c wsys_ok_items(2) [OF w0 wsys_ok_next(1) [OF w0], folded q_def], of env] by auto
    define ws1 where "ws1 = ws0[t := (ws0 ! t)\<lparr>wk_queue := q1\<rparr>]"
    have touch1: "all_touch ws0 ws1" unfolding ws1_def using q1(2) by (intro all_touch_update) (simp add: q_def)
    have ok1: "all_ok n nr ws1 pc sent posted" by (rule all_ok_touch [OF ok0 touch1])
    obtain ws2 where ws2: "write_results evs ws1 = Inr ws2" "all_touch ws1 ws2"
      using write_results_spec [OF all_okD(1) [OF ok1] wsys_ok_items(1) [OF all_okD(2) [OF ok1]] q1(5)] by blast
    have ok2: "all_ok n nr ws2 pc sent posted" by (rule all_ok_touch [OF ok1 ws2(2)])
    have w2: "wsys_ok n nr (ws2 ! t) (Some c) (sent t) (posted t)" using all_okD(2) [OF ok2 assms(2)] assms(3) by simp
    have t: "t < length ws0" "t < length ws1" using all_okD(1) [OF ok0] all_okD(1) [OF ok1] assms(2) by simp_all
    have touch2: "touches q1 (wk_queue (ws2 ! t))" using ws2(2) t by (auto simp: all_touch_def ws1_def)
    have "\<not> w_is_completed (wk_queue (ws2 ! t) ! c)" "w_is_copied (wk_queue (ws2 ! t) ! c)"
      using touchesD(4,9) [OF touch2] touchesD(1,4) [OF q1(2)] q1(3) c False by auto
    from wsys_ok_complete [OF w2 this, of now]
    obtain q3 evs' where q3: "complete_work now (wk_queue (ws2 ! t)) c = Inr (q3, evs')"
      "wsys_ok n nr ((ws2 ! t)\<lparr>wk_queue := q3\<rparr>) (Some c) (sent t) (map (Pair now) (posts evs') @ posted t)"
      by blast
    note w3 = wsys_ok_next [OF q3(2)] wsys_ok_items(1) [OF q3(2)]
    have "worker_visit env now t c ws = Inr (w_next (q3 ! c), ws2[t := (ws2 ! t)\<lparr>wk_queue := q3\<rparr>], evs @ evs')"
      using c False q1(1) ws2(1) q3(1) w3(1,3)
      by (simp add: worker_visit_def ws0_def [symmetric] q_def [symmetric] ws1_def [symmetric] work_at_def)
    moreover have "all_ok n nr (ws2[t := (ws2 ! t)\<lparr>wk_queue := q3\<rparr>]) (pc(t := w_next (q3 ! c))) sent
        (posted(t := map (Pair now) (posts (evs @ evs')) @ posted t))"
      using all_ok_update [OF ok2 w3(2) assms(2)] q1(4) by simp
    ultimately show ?thesis by blast
  qed
qed

subsection \<open>All steps\<close>

text \<open>A worker that is down to its last free item accepts no work.\<close>

definition is_full :: "io_worker \<Rightarrow> bool" where
  "is_full wk \<longleftrightarrow> length (free_items wk) = 1"

lemma on_worker_ok:
  assumes "all_ok n nr (dv_workers dev) pc sent posted" "0 < nr" "get_io_worker sqid dev = Inr t"
    "fills fill" "\<And>w. item_ok n nr w \<Longrightarrow> item_ok n nr (fill w)"
    "\<And>w. w_is_internal (fill w) = internal" "\<And>w. \<not> internal \<Longrightarrow> request_of (fill w) = k"
  shows "if is_full (dv_workers dev ! t) then on_worker sqid fill dev = Inr (None, dev)
    else \<exists>e dev'. on_worker sqid fill dev = Inr (Some (t, e), dev')
      \<and> all_ok n nr (dv_workers dev') pc (if internal then sent else sent(t := k # sent t)) posted"
proof -
  have t: "t < nr" using assms(1-3) by (auto simp: all_ok_def get_io_worker_def split: if_splits)
  note enq = wsys_ok_enqueue [OF all_okD(2) [OF assms(1) t] assms(4-7), simplified is_full_def [symmetric]]
  show ?thesis
  proof (cases "is_full (dv_workers dev ! t)")
    case True
    then show ?thesis using enq assms(3) by (simp add: on_worker_def)
  next
    case False
    then obtain e wk where e: "enqueue_work fill (dv_workers dev ! t) = Inr (Some e, wk)"
      "wsys_ok n nr wk (pc t) (if internal then sent t else k # sent t) (posted t)" using enq by auto
    have "all_ok n nr ((dv_workers dev)[t := wk]) pc (if internal then sent else sent(t := k # sent t)) posted"
      using all_ok_update [OF assms(1) e(2) t] by (cases internal) simp_all
    then show ?thesis using False e(1) assms(3) by (simp add: on_worker_def)
  qed
qed

definition sys_ok :: "nat \<Rightarrow> nat \<Rightarrow> io_sys \<Rightarrow> bool" where
  "sys_ok n nr s \<longleftrightarrow> all_ok n nr (dv_workers (sy_dev s)) (sy_pc s) (sy_sent s) (sy_posted s)"

lemma sys_ok_boot: "0 < n \<Longrightarrow> sys_ok n nr (io_boot n nr)"
  by (simp add: sys_ok_def all_ok_def io_boot_def io_workers_init_def wsys_ok_init)

lemma pick_worker:
  assumes "dv_workers dev \<noteq> []"
  obtains sqid' t where "pick_sqid sqid rnd dev = Inr sqid'" "get_io_worker sqid' dev = Inr t"
  using assms by (cases "sqid = 2147483647") (auto simp: pick_sqid_def get_io_worker_def)

lemma item_ok_fills:
  "item_ok n nr w \<Longrightarrow> item_ok n nr (fill_request sqid cqid sqe cid start now ret w)"
  "item_ok n nr w \<Longrightarrow> item_ok n nr (fill_release sqid now target wb m w)"
  "op_ok n nr (Internal_cb sqid rnd start mem ppa len cb args rd cb_w) \<Longrightarrow>
    item_ok n nr (fill_callback sqid' start mem ppa len cb args rd cb_w w)"
  by (auto simp: item_ok_def fill_request_def fill_release_def fill_callback_def split: option.splits)

text \<open>
  The worker an internal operation goes to.  Scheduling a callback on a full worker is the one step that
  fails.
\<close>

definition goes_to :: "int \<Rightarrow> nat \<Rightarrow> io_dev \<Rightarrow> nat result" where
  "goes_to sqid rnd dev = bindR (pick_sqid sqid rnd dev) (\<lambda>sqid. get_io_worker sqid dev)"

fun refused :: "io_op \<Rightarrow> io_dev \<Rightarrow> bool" where
  "refused (Internal_cb sqid rnd start mem ppa len cb args rd cb_w) dev \<longleftrightarrow>
     (case goes_to sqid rnd dev of Inl _ \<Rightarrow> False | Inr t \<Rightarrow> is_full (dv_workers dev ! t))"
| "refused _ dev \<longleftrightarrow> False"

lemma io_exec_ok:
  assumes ok: "sys_ok n nr s" and nr: "0 < nr" and op: "op_ok n nr op"
  shows "if refused op (sy_dev s) then io_exec env op s = Inl Bug_on
    else \<exists>s'. io_exec env op s = Inr s' \<and> sys_ok n nr s'"
proof (cases op)
  case (Request sqid cqid sqe cid start now ret)
  have "dv_workers (sy_dev s) \<noteq> []" using ok nr by (auto simp: sys_ok_def all_ok_def)
  then obtain t where t: "get_io_worker sqid (sy_dev s) = Inr t" by (simp add: get_io_worker_def)
  have "request_of (fill_request sqid cqid sqe cid start now ret w) = (sqid, sqe, cid)"
    "w_is_internal (fill_request sqid cqid sqe cid start now ret w) = False" for w
    by (simp_all add: request_of_def fill_request_def)
  note on = on_worker_ok [OF ok [unfolded sys_ok_def] nr t fills_intros(1) item_ok_fills(1) this(2) this(1)]
  show ?thesis using on ok Request
    by (auto simp: enqueue_io_req_def sys_ok_def split: if_splits)
next
  case (Internal sqid rnd now target wb m)
  have "dv_workers (sy_dev s) \<noteq> []" using ok nr by (auto simp: sys_ok_def all_ok_def)
  then obtain sqid' t where t: "pick_sqid sqid rnd (sy_dev s) = Inr sqid'" "get_io_worker sqid' (sy_dev s) = Inr t"
    by (rule pick_worker)
  have "w_is_internal (fill_release sqid' now target wb m w) = True" for w by (simp add: fill_release_def)
  note on = on_worker_ok [where k = "(0, 0, 0)", OF ok [unfolded sys_ok_def] nr t(2) fills_intros(2) item_ok_fills(2) this, simplified]
  show ?thesis using on ok Internal t
    by (auto simp: schedule_internal_operation_def sys_ok_def split: if_splits)
next
  case (Internal_cb sqid rnd start mem ppa len cb args rd cb_w)
  have "dv_workers (sy_dev s) \<noteq> []" using ok nr by (auto simp: sys_ok_def all_ok_def)
  then obtain sqid' t where t: "pick_sqid sqid rnd (sy_dev s) = Inr sqid'" "get_io_worker sqid' (sy_dev s) = Inr t"
    by (rule pick_worker)
  have "w_is_internal (fill_callback sqid' start mem ppa len cb args rd cb_w w) = True" for w
    by (simp add: fill_callback_def)
  note on = on_worker_ok [where k = "(0, 0, 0)", OF ok [unfolded sys_ok_def] nr t(2) fills_intros(3)
      item_ok_fills(3) [OF op [unfolded Internal_cb]] this, simplified]
  show ?thesis using on ok Internal_cb t
    by (auto simp: schedule_internal_operation_cb_def goes_to_def sys_ok_def split: if_splits)
next
  case (Start t)
  then have t: "t < nr" using op by simp
  note w = all_okD(2) [OF ok [unfolded sys_ok_def] t]
  have "wsys_ok n nr (dv_workers (sy_dev s) ! t) (wk_io_seq (dv_workers (sy_dev s) ! t)) (sy_sent s t) (sy_posted s t)"
    using w by (auto simp: wsys_ok_def wsys_inv_def) (metis hd_opt.simps list.set_intros(1) nseg_end worker_okD(1) not_Cons_self option.inject neq_Nil_conv option.distinct(1))
  then show ?thesis using ok Start t w
    by (auto simp: sys_ok_def all_ok_def)
next
  case (Visit t now)
  then have t: "t < nr" using op by simp
  show ?thesis
  proof (cases "sy_pc s t")
    case (Some c)
    then show ?thesis using worker_visit_ok [OF ok [unfolded sys_ok_def] t Some, of env now] Visit
      by (auto simp: sys_ok_def)
  qed (use ok Visit in simp)
next
  case (Reclaim t)
  then have t: "t < nr" using op by simp
  obtain wk where "reclaim_worker (dv_workers (sy_dev s) ! t) = Inr wk"
    "wsys_ok n nr wk (sy_pc s t) (sy_sent s t) (sy_posted s t)"
    using wsys_ok_reclaim [OF all_okD(2) [OF ok [unfolded sys_ok_def] t]] by blast
  then show ?thesis using Reclaim all_ok_set [OF ok [unfolded sys_ok_def] _ t] by (simp add: sys_ok_def)
qed

lemma io_reach_ok: "io_reach env n nr s \<Longrightarrow> 0 < n \<Longrightarrow> 0 < nr \<Longrightarrow> sys_ok n nr s"
proof (induction rule: io_reach.induct)
  case (step s op s')
  then show ?case using io_exec_ok [of n nr s op env] by (auto split: if_splits)
qed (rule sys_ok_boot)

section \<open>A whole pass\<close>

text \<open>What a visit at time \<open>now\<close> does to a work item.\<close>

definition visited :: "u64 \<Rightarrow> io_work \<Rightarrow> io_work \<Rightarrow> bool" where
  "visited now v w \<longleftrightarrow> w_next w = w_next v \<and> w_prev w = w_prev v \<and> w_is_internal w = w_is_internal v
     \<and> request_of w = request_of v \<and> w_nsecs_target w = w_nsecs_target v \<and> w_is_copied w
     \<and> (w_is_completed w \<longleftrightarrow> w_is_completed v \<or> w_nsecs_target v \<le> now)"

lemma copy_work_local:
  assumes "c < length q" "item_ok n nr (q ! c)" "w_cb_w (q ! c) = None"
  shows "\<exists>w evs. copy_work env q c = Inr (q[c := w], evs) \<and> w_is_copied w \<and> posts evs = [] \<and> (\<forall>ws. write_results evs ws = Inr ws)
    \<and> w_next w = w_next (q ! c) \<and> w_prev w = w_prev (q ! c) \<and> w_is_internal w = w_is_internal (q ! c)
    \<and> request_of w = request_of (q ! c) \<and> w_nsecs_target w = w_nsecs_target (q ! c) \<and> w_is_completed w = w_is_completed (q ! c)"
proof (cases "w_is_copied (q ! c)")
  case True
  then show ?thesis using assms(1) by (intro exI [of _ "q ! c"]) (simp add: copy_work_def work_at_def)
next
  case False
  show ?thesis
  proof (cases "w_is_internal (q ! c)")
    case True
    obtain evs where "run_internal env (q ! c) = Inr evs" "posts evs = []" "\<forall>ws. write_results evs ws = Inr ws"
      using assms(2,3) True False
      by (cases "w_cb (q ! c)"; cases "w_args (q ! c)"; cases "env_cb env (the (w_cb (q ! c))) (the (w_args (q ! c)))")
        (auto simp: run_internal_def item_ok_def)
    then show ?thesis using assms(1) True False
      by (intro exI [of _ "(q ! c)\<lparr>w_is_copied := True\<rparr>"]) (simp add: copy_work_def work_at_def set_work_def request_of_def)
  next
    case req: False
    define v where "v = (if env_dma env \<or> \<not> env_is_kv env (q ! c) then q ! c
      else (q ! c)\<lparr>w_result0 := env_perform_kv env (q ! c), w_result1 := env_perform_kv env (q ! c)\<rparr>)"
    show ?thesis using assms(1) False req
      by (cases "w_cb (q ! c)"; intro exI [of _ "v\<lparr>w_is_copied := True\<rparr>"])
        (auto simp: copy_work_def work_at_def set_work_def run_request_def request_of_def v_def)
  qed
qed

lemma worker_visit_local:
  assumes t: "t < length ws" and q: "q = wk_queue (ws ! t)" and c: "c < length q" "item_ok n nr (q ! c)" "w_cb_w (q ! c) = None"
  shows "\<exists>w evs. worker_visit env now t c ws =
      Inr (w_next (q ! c), ws[t := (ws ! t)\<lparr>wk_latest_nsecs := now, wk_queue := q[c := w]\<rparr>], evs)
    \<and> visited now (q ! c) w
    \<and> map request_of (posts evs) = (if is_pending (q ! c) \<and> w_nsecs_target (q ! c) \<le> now then [request_of (q ! c)] else [])"
proof (cases "w_is_completed (q ! c)")
  case True
  have same: "(ws ! t)\<lparr>wk_latest_nsecs := now, wk_queue := q\<rparr> = (ws ! t)\<lparr>wk_latest_nsecs := now\<rparr>"
    using q by (cases "ws ! t") simp
  then show ?thesis using t c True by (intro exI [of _ "q ! c"] exI [of _ "[]"])
    (simp add: worker_visit_def work_at_def visited_def item_ok_def is_pending_def q [symmetric], simp only: same)
next
  case False
  obtain w evs where w: "copy_work env q c = Inr (q[c := w], evs)" "w_is_copied w" "posts evs = []"
    "\<forall>ws. write_results evs ws = Inr ws" "w_next w = w_next (q ! c)" "w_prev w = w_prev (q ! c)"
    "w_is_internal w = w_is_internal (q ! c)" "request_of w = request_of (q ! c)"
    "w_nsecs_target w = w_nsecs_target (q ! c)" "w_is_completed w = w_is_completed (q ! c)"
    using copy_work_local [OF c, of env] by blast
  have visit: "worker_visit env now t c ws = bindR (complete_work now (q[c := w]) c) (\<lambda>(q', evs').
      bindR (work_at q' (Some c)) (\<lambda>v. Inr (w_next v, ws[t := (ws ! t)\<lparr>wk_latest_nsecs := now, wk_queue := q'\<rparr>], evs @ evs')))"
    using t c False w(1,4) by (simp add: worker_visit_def work_at_def q [symmetric])
  show ?thesis
  proof (cases "w_nsecs_target (q ! c) \<le> now")
    case True
    then show ?thesis unfolding visit using c w(2,3,5-10) False
      by (intro exI [of _ "w\<lparr>w_is_completed := True\<rparr>"])
        (auto simp: complete_work_def work_at_def set_work_def visited_def request_of_def is_pending_def split: option.split)
  next
    case False
    then show ?thesis unfolding visit using c w(2,3,5-10) \<open>\<not> w_is_completed (q ! c)\<close>
      by (intro exI [of _ w]) (simp add: complete_work_def work_at_def visited_def)
  qed
qed

lemma worker_pass_spec:
  assumes "nseg (wk_queue (ws ! t)) i xs None" "distinct xs" "t < length ws" "length xs \<le> fuel" "length xs \<le> length clock"
    "\<And>x. x \<in> set xs \<Longrightarrow> item_ok n nr (wk_queue (ws ! t) ! x) \<and> w_cb_w (wk_queue (ws ! t) ! x) = None"
  shows "\<exists>q now evs. worker_pass fuel env clock t i ws = Inr (ws[t := (ws ! t)\<lparr>wk_latest_nsecs := now, wk_queue := q\<rparr>], evs)
    \<and> length q = length (wk_queue (ws ! t)) \<and> (\<forall>x. x \<notin> set xs \<longrightarrow> q ! x = wk_queue (ws ! t) ! x)
    \<and> (\<forall>x \<in> set xs. \<exists>now \<in> set clock. visited now (wk_queue (ws ! t) ! x) (q ! x))
    \<and> now \<in> insert (wk_latest_nsecs (ws ! t)) (set clock) \<and> (xs \<noteq> [] \<longrightarrow> now \<in> set clock)
    \<and> waiting (wk_queue (ws ! t)) xs = mset (map request_of (posts evs)) + waiting q xs"
  using assms
proof (induction xs arbitrary: fuel clock i ws)
  case Nil
  have "ws[t := (ws ! t)\<lparr>wk_latest_nsecs := wk_latest_nsecs (ws ! t), wk_queue := wk_queue (ws ! t)\<rparr>] = ws" by simp
  then show ?case using Nil(1) by (intro exI [of _ "wk_queue (ws ! t)"] exI [of _ "wk_latest_nsecs (ws ! t)"]) simp
next
  case (Cons c xs)
  define q0 where "q0 = wk_queue (ws ! t)"
  obtain k where k: "fuel = Suc k" using Cons.prems(4) by (cases fuel) auto
  obtain now clk where clk: "clock = now # clk" using Cons.prems(5) by (cases clock) auto
  have c: "c < length q0" "item_ok n nr (q0 ! c)" "w_cb_w (q0 ! c) = None" "i = Some c" "nseg q0 (w_next (q0 ! c)) xs None"
    using Cons.prems(1,6) by (auto simp: q0_def)
  obtain w evs where w: "worker_visit env now t c ws =
      Inr (w_next (q0 ! c), ws[t := (ws ! t)\<lparr>wk_latest_nsecs := now, wk_queue := q0[c := w]\<rparr>], evs)"
    "visited now (q0 ! c) w"
    "map request_of (posts evs) = (if is_pending (q0 ! c) \<and> w_nsecs_target (q0 ! c) \<le> now then [request_of (q0 ! c)] else [])"
    using worker_visit_local [OF Cons.prems(3) q0_def c(1-3), of env now] by blast
  define ws1 where "ws1 = ws[t := (ws ! t)\<lparr>wk_latest_nsecs := now, wk_queue := q0[c := w]\<rparr>]"
  have at: "ws1 ! t = (ws ! t)\<lparr>wk_latest_nsecs := now, wk_queue := q0[c := w]\<rparr>" "t < length ws1"
    using Cons.prems(3) by (simp_all add: ws1_def)
  have cx: "c \<notin> set xs" "distinct xs" using Cons.prems(2) by simp_all
  have "w_next (q0[c := w] ! x) = w_next (q0 ! x)" "x \<in> set xs \<Longrightarrow> q0[c := w] ! x = q0 ! x" for x
    using w(2) c(1) cx(1) by (cases "x = c"; auto simp: visited_def)+
  note same = this
  have nseg: "nseg (wk_queue (ws1 ! t)) (w_next (q0 ! c)) xs None"
    by (rule nseg_frame [OF c(5)]) (simp_all add: at same)
  have "item_ok n nr (wk_queue (ws1 ! t) ! x) \<and> w_cb_w (wk_queue (ws1 ! t) ! x) = None" if "x \<in> set xs" for x
    using Cons.prems(6) [of x] that same(2) by (simp add: at q0_def)
  then have "\<exists>q now evs. worker_pass k env clk t (w_next (q0 ! c)) ws1 = Inr (ws1[t := (ws1 ! t)\<lparr>wk_latest_nsecs := now, wk_queue := q\<rparr>], evs)
    \<and> length q = length (wk_queue (ws1 ! t)) \<and> (\<forall>x. x \<notin> set xs \<longrightarrow> q ! x = wk_queue (ws1 ! t) ! x)
    \<and> (\<forall>x \<in> set xs. \<exists>now \<in> set clk. visited now (wk_queue (ws1 ! t) ! x) (q ! x))
    \<and> now \<in> insert (wk_latest_nsecs (ws1 ! t)) (set clk) \<and> (xs \<noteq> [] \<longrightarrow> now \<in> set clk)
    \<and> waiting (wk_queue (ws1 ! t)) xs = mset (map request_of (posts evs)) + waiting q xs"
    using Cons.prems(4,5) k clk by (intro Cons.IH [OF nseg cx(2) at(2)]) auto
  then obtain q now' evs' where q: "worker_pass k env clk t (w_next (q0 ! c)) ws1 =
        Inr (ws1[t := (ws ! t)\<lparr>wk_latest_nsecs := now', wk_queue := q\<rparr>], evs')"
      "length q = length q0" "\<forall>x. x \<notin> set xs \<longrightarrow> q ! x = q0[c := w] ! x"
      "\<forall>x \<in> set xs. \<exists>now \<in> set clk. visited now (q0[c := w] ! x) (q ! x)" "now' \<in> insert now (set clk)"
      "waiting (q0[c := w]) xs = mset (map request_of (posts evs')) + waiting q xs"
    unfolding at(1) by (elim exE conjE) (rule that, simp_all)
  have "worker_pass fuel env clock t i ws =
      Inr (ws[t := (ws ! t)\<lparr>wk_latest_nsecs := now', wk_queue := q\<rparr>], evs @ evs')"
    using w(1) q(1) by (simp add: k clk c(4) ws1_def [symmetric]) (simp add: ws1_def at(1))
  moreover have "waiting q0 (c # xs) = mset (map request_of (posts (evs @ evs'))) + waiting q (c # xs)"
  proof -
    have "waiting (q0[c := w]) xs = waiting q0 xs" by (rule waiting_cong) (simp add: same(2))
    moreover have "q ! c = w" using q(3) cx(1) c(1) by simp
    ultimately show ?thesis using q(6) w(2,3) by (auto simp: visited_def is_pending_def)
  qed
  moreover have "\<exists>now \<in> set clock. visited now (q0 ! x) (q ! x)" if "x \<in> set (c # xs)" for x
    using that q(3) cx(1) bspec [OF q(4), of x] same(2) [of x] w(2) c(1) clk by (cases "x = c") auto
  moreover have "now' \<in> set clock" using q(5) clk by simp
  moreover have "q ! x = q0 ! x" if "x \<notin> set (c # xs)" for x using that q(3) by simp
  ultimately show ?case using q(2) unfolding q0_def by (intro exI [of _ q] exI [of _ now'] exI [of _ "evs @ evs'"]) simp
qed

section \<open>Properties\<close>

lemma io_reach_worker:
  assumes "io_reach env n nr s" "0 < n" "0 < nr" "t < nr" "wk = dv_workers (sy_dev s) ! t"
  obtains fresh reused where "wsys_inv n nr wk (sy_pc s t) (sy_sent s t) (sy_posted s t) (in_flight wk) fresh reused"
    "free_items wk = fresh @ reused"
proof -
  have "wsys_ok n nr wk (sy_pc s t) (sy_sent s t) (sy_posted s t)"
    using io_reach_ok [OF assms(1-3)] assms(4,5) by (auto simp: sys_ok_def all_ok_def)
  then obtain ios fresh reused where i: "wsys_inv n nr wk (sy_pc s t) (sy_sent s t) (sy_posted s t) ios fresh reused"
    by (auto simp: wsys_ok_def)
  then show ?thesis using worker_ok_chains [OF wsys_invD(1) [OF i]] that by simp
qed

lemma mset_upt_eq: "distinct xs \<Longrightarrow> set xs = {..<n} \<Longrightarrow> mset xs = mset [0..<n]"
  using set_eq_iff_mset_eq_distinct [of xs "[0..<n]"] by (simp add: lessThan_atLeast0)

text \<open>
  \<^bold>\<open>C9.\<close>  However the dispatcher, the workers and the reclaimer interleave, the two lists of a worker always
  hold each work item exactly once, the free list is never empty, both tail indices are right and the
  \<^verbatim>\<open>prev\<close> indices of the list in flight mirror its \<^verbatim>\<open>next\<close> indices.
\<close>

theorem io_work_lists_partition:
  assumes "io_reach env n nr s" "0 < n" "0 < nr" "t < nr" "wk = dv_workers (sy_dev s) ! t"
  shows "mset (in_flight wk @ free_items wk) = mset [0..<n] \<and> free_items wk \<noteq> []
    \<and> wk_free_seq_end wk = last_opt (free_items wk) \<and> (in_flight wk \<noteq> [] \<longrightarrow> wk_io_seq_end wk = last_opt (in_flight wk))
    \<and> pchain (wk_queue wk) None (in_flight wk)"
proof -
  obtain fresh reused where i: "wsys_inv n nr wk (sy_pc s t) (sy_sent s t) (sy_posted s t) (in_flight wk) fresh reused"
    and f: "free_items wk = fresh @ reused" using io_reach_worker [OF assms] .
  note ok = worker_okD [OF wsys_invD(1) [OF i]]
  have "mset (in_flight wk @ free_items wk) = mset [0..<n]"
    using ok(7,8) wsys_invD(2) [OF i] f by (intro mset_upt_eq) simp_all
  then show ?thesis using ok(2,3,5,6) f by simp
qed

text \<open>
  \<^bold>\<open>C10.\<close>  In every reachable state every step of the dispatcher, of the workers and of the reclaimer returns: no
  index leaves the array, no list walk runs forever and no assertion fails.  The one exception is scheduling a
  callback on a worker that is down to its last free item, which hits \<^verbatim>\<open>BUG_ON(!worker)\<close>.
\<close>

theorem io_steps_return:
  assumes "io_reach env n nr s" "0 < n" "0 < nr" "op_ok n nr op"
  shows "if refused op (sy_dev s) then io_exec env op s = Inl Bug_on else \<exists>s'. io_exec env op s = Inr s'"
  using io_exec_ok [OF io_reach_ok [OF assms(1-3)] assms(3,4), of env] by auto

text \<open>
  \<^bold>\<open>C8.\<close>  Every request a worker accepted is posted to a completion queue at most once: the requests accepted are,
  with multiplicity, those posted and those still in flight and not completed.  Nothing is posted before its
  target time or before its data were copied.
\<close>

theorem io_requests_conserved:
  assumes "io_reach env n nr s" "0 < n" "0 < nr" "t < nr" "wk = dv_workers (sy_dev s) ! t"
  shows "mset (sy_sent s t) = mset (map (request_of \<circ> snd) (sy_posted s t)) + waiting (wk_queue wk) (in_flight wk)
    \<and> (\<forall>(now, w) \<in> set (sy_posted s t). w_nsecs_target w \<le> now \<and> w_is_copied w)"
proof -
  obtain fresh reused where i: "wsys_inv n nr wk (sy_pc s t) (sy_sent s t) (sy_posted s t) (in_flight wk) fresh reused"
    using io_reach_worker [OF assms] .
  show ?thesis using wsys_invD(5,6) [OF i] by (fastforce simp: posted_ok_def)
qed

text \<open>
  \<^bold>\<open>C11.\<close>  A pass of a worker over its list ends and completes every item whose target time has come when the
  pass starts.  When all of them are due, it posts every request that was waiting, and reclaiming then
  returns all items to the free list.  (Results that callbacks store into other items may move target times, so
  the items have no \<^verbatim>\<open>cb_w\<close>, as everywhere in \<^verbatim>\<open>demand_ftl.c\<close>.)
\<close>

theorem io_pass_completes:
  assumes "io_reach env n nr s" "0 < n" "0 < nr" "t < nr" "ws = dv_workers (sy_dev s)" "wk = ws ! t"
    "length (in_flight wk) \<le> length clock" "\<forall>x \<in> set (in_flight wk). w_cb_w (wk_queue wk ! x) = None"
  shows "\<exists>ws' evs. worker_pass n env clock t (wk_io_seq wk) ws = Inr (ws', evs)
    \<and> (\<forall>x \<in> set (in_flight wk). (\<forall>now \<in> set clock. w_nsecs_target (wk_queue wk ! x) \<le> now)
        \<longrightarrow> w_is_completed (wk_queue (ws' ! t) ! x))
    \<and> ((\<forall>x \<in> set (in_flight wk). \<forall>now \<in> set clock. w_nsecs_target (wk_queue wk ! x) \<le> now)
        \<longrightarrow> mset (map request_of (posts evs)) = waiting (wk_queue wk) (in_flight wk)
          \<and> (\<exists>wk'. reclaim_worker (ws' ! t) = Inr wk' \<and> in_flight wk' = [] \<and> mset (free_items wk') = mset [0..<n]))"
proof -
  obtain fresh reused where i: "wsys_inv n nr wk (sy_pc s t) (sy_sent s t) (sy_posted s t) (in_flight wk) fresh reused"
    and f: "free_items wk = fresh @ reused" using io_reach_worker [OF assms(1-4)] assms(5,6) by metis
  note ok = wsys_invD [OF i] and wok = worker_okD [OF wsys_invD(1) [OF i]]
  have t: "t < length ws" using io_reach_ok [OF assms(1-3)] assms(4,5) by (simp add: sys_ok_def all_ok_def)
  have bound: "x < n" if "x \<in> set (in_flight wk)" for x using nseg_bound [OF wok(1) that] ok(2) by simp
  have dist: "distinct (in_flight wk)" using wok(7) by simp
  have len: "length (in_flight wk) \<le> n" by (rule distinct_length_bound [OF dist bound])
  have "item_ok n nr (wk_queue wk ! x) \<and> w_cb_w (wk_queue wk ! x) = None" if "x \<in> set (in_flight wk)" for x
    using ok(4) bound assms(8) that by simp
  from worker_pass_spec [of ws t "wk_io_seq wk" "in_flight wk" n clock n nr env, folded assms(6), OF wok(1) dist t len assms(7) this]
  obtain q now evs where q: "worker_pass n env clock t (wk_io_seq wk) ws = Inr (ws[t := wk\<lparr>wk_latest_nsecs := now, wk_queue := q\<rparr>], evs)"
    "length q = length (wk_queue wk)" "\<forall>x. x \<notin> set (in_flight wk) \<longrightarrow> q ! x = wk_queue wk ! x"
    "\<forall>x \<in> set (in_flight wk). \<exists>now \<in> set clock. visited now (wk_queue wk ! x) (q ! x)"
    "in_flight wk \<noteq> [] \<longrightarrow> now \<in> set clock"
    "waiting (wk_queue wk) (in_flight wk) = mset (map request_of (posts evs)) + waiting q (in_flight wk)"
    by blast
  have finished: "w_is_completed (q ! x)" if "x \<in> set (in_flight wk)" "\<forall>now \<in> set clock. w_nsecs_target (wk_queue wk ! x) \<le> now" for x
    using bspec [OF q(4) that(1)] that(2) by (auto simp: visited_def)
  define wk1 where "wk1 = wk\<lparr>wk_latest_nsecs := now, wk_queue := q\<rparr>"
  have "worker_ok (wk\<lparr>wk_queue := q\<rparr>) (in_flight wk) fresh reused"
  proof (rule worker_ok_frame [OF ok(1)])
    fix x assume "x < length q"
    show "w_next (q ! x) = w_next (wk_queue wk ! x) \<and> w_prev (q ! x) = w_prev (wk_queue wk ! x)
      \<and> (w_is_completed (wk_queue wk ! x) \<longrightarrow> w_is_completed (q ! x))"
      using q(3) bspec [OF q(4), of x] by (cases "x \<in> set (in_flight wk)") (auto simp: visited_def)
  qed (rule q(2))
  then have ok1: "worker_ok wk1 (in_flight wk) fresh reused" by (simp add: wk1_def worker_ok_def)
  have drained: "mset (map request_of (posts evs)) = waiting (wk_queue wk) (in_flight wk)
      \<and> (\<exists>wk'. reclaim_worker wk1 = Inr wk' \<and> in_flight wk' = [] \<and> mset (free_items wk') = mset [0..<n])"
    if due: "\<forall>x \<in> set (in_flight wk). \<forall>now \<in> set clock. w_nsecs_target (wk_queue wk ! x) \<le> now"
  proof
    have none: "waiting q (in_flight wk) = {#}"
      using finished due by (auto simp: waiting_def filter_empty_conv is_pending_def)
    show "mset (map request_of (posts evs)) = waiting (wk_queue wk) (in_flight wk)" using q(6) none by simp
    have "reclaimable wk1 x" if "x \<in> set (in_flight wk)" for x
      using bspec [OF q(4) that] q(5) due that by (auto simp: reclaimable_def wk1_def visited_def)
    then have "in_flight wk = takeWhile (reclaimable wk1) (in_flight wk)" "[] = dropWhile (reclaimable wk1) (in_flight wk)"
      by (metis takeWhile_eq_all_conv, metis dropWhile_eq_Nil_conv)
    note all = this
    obtain wk' where wk': "reclaim_worker wk1 = Inr wk'" "worker_ok wk' [] fresh (reused @ in_flight wk)"
      "length (wk_queue wk') = length (wk_queue wk1)"
      using reclaim_worker_spec [OF ok1 all] by auto
    have "mset (free_items wk') = mset [0..<n]"
      using worker_ok_chains(2) [OF wk'(2)] worker_okD(7,8) [OF wk'(2)] wk'(3) q(2) ok(2)
      by (intro mset_upt_eq) (simp_all add: wk1_def)
    then show "\<exists>wk'. reclaim_worker wk1 = Inr wk' \<and> in_flight wk' = [] \<and> mset (free_items wk') = mset [0..<n]"
      using wk'(1) worker_ok_chains(1) [OF wk'(2)] by blast
  qed
  show ?thesis using q(1) t finished drained
    by (intro exI [of _ "ws[t := wk1]"] exI [of _ evs]) (simp add: wk1_def)
qed

text \<open>The order of the list in flight: among the items not yet due, by target time.\<close>

definition ordered :: "io_worker \<Rightarrow> bool" where
  "ordered wk \<longleftrightarrow> sorted_wrt (\<lambda>a b. w_nsecs_target (wk_queue wk ! a) \<le> wk_latest_nsecs wk
     \<or> w_nsecs_target (wk_queue wk ! a) \<le> w_nsecs_target (wk_queue wk ! b)) (in_flight wk)"

lemma sorted_wrt_slot:
  fixes f :: "'a \<Rightarrow> 'b :: linorder"
  assumes "sorted_wrt (\<lambda>a b. f a \<le> l \<or> f a \<le> f b) (as @ bs)" "\<forall>b \<in> set bs. l < f b \<and> f e < f b"
    "as \<noteq> [] \<longrightarrow> f (last as) \<le> l \<or> f (last as) \<le> f e"
  shows "sorted_wrt (\<lambda>a b. f a \<le> l \<or> f a \<le> f b) (as @ e # bs)"
proof -
  have "f a \<le> l \<or> f a \<le> f e" if "a \<in> set as" for a
  proof (cases as rule: rev_cases)
    case (snoc as' z)
    then show ?thesis using assms(1,3) that by (auto simp: sorted_wrt_append)
  qed (use that in simp)
  then show ?thesis using assms(1,2) by (auto simp: sorted_wrt_append less_imp_le)
qed

lemma sorted_wrt_cong:
  assumes "\<And>x. x \<in> set xs \<Longrightarrow> f x = g x"
  shows "sorted_wrt (\<lambda>a b. P (f a) (f b)) xs = sorted_wrt (\<lambda>a b. P (g a) (g b)) xs"
  using assms by (induction xs) auto

text \<open>
  \<^bold>\<open>C12.\<close>  The dispatcher inserts a request into a worker's list in front of exactly the tail of items that are due
  later than it and not yet due, so the items not yet due stay sorted by target time, first come first served
  among equals.
\<close>

theorem io_insert_ordered:
  assumes "io_reach env n nr s" "0 < n" "0 < nr" "t < nr" "wk = dv_workers (sy_dev s) ! t" "ordered wk"
    "enqueue_io_req sqid cqid sqe cid start now ret (sy_dev s) = Inr (Some (t, e), dev')" "wk' = dv_workers dev' ! t"
  shows "ordered wk' \<and> (\<exists>as bs. in_flight wk = as @ bs \<and> in_flight wk' = as @ e # bs
    \<and> w_nsecs_target (wk_queue wk' ! e) = r_nsecs_target ret
    \<and> (\<forall>b \<in> set bs. r_nsecs_target ret < w_nsecs_target (wk_queue wk' ! b) \<and> wk_latest_nsecs wk' < w_nsecs_target (wk_queue wk' ! b)))"
proof -
  obtain fresh reused where i: "wsys_inv n nr wk (sy_pc s t) (sy_sent s t) (sy_posted s t) (in_flight wk) fresh reused"
    using io_reach_worker [OF assms(1-5)] .
  note ok = wsys_invD [OF i]
  define fill where "fill = fill_request sqid cqid sqe cid start now ret"
  have enq: "enqueue_work fill wk = Inr (Some e, wk')"
    using assms(4,5,7,8) io_reach_ok [OF assms(1-3)]
    by (auto simp: enqueue_io_req_def on_worker_def fill_def bindR_eq_Inr sys_ok_def all_ok_def split: option.splits prod.splits)
  obtain e' fs where e': "fresh @ reused = e' # fs" using worker_okD(5) [OF ok(1)] by (cases "fresh @ reused") auto
  have fs: "fs \<noteq> []" using enqueue_work_full [OF ok(1), of e' fill] e' enq by auto
  have fills: "fills fill" by (simp add: fill_def)
  from enqueue_work_spec [OF ok(1) e' fs fills]
  obtain as bs wk2 fresh' reused' where v: "enqueue_work fill wk = Inr (Some e', wk2)" "in_flight wk = as @ bs"
    "worker_ok wk2 (as @ e' # bs) fresh' reused'" "wk_latest_nsecs wk2 = wk_latest_nsecs wk"
    "\<forall>x < length (wk_queue wk). unlinked (wk_queue wk2 ! x) =
       unlinked (if x = e' then fill (wk_queue wk ! e') else wk_queue wk ! x)"
    "slot_ok (wk_queue wk) (wk_latest_nsecs wk) (w_nsecs_target (fill (wk_queue wk ! e'))) as bs"
    by blast
  have "e' = e" "wk2 = wk'" using v(1) enq by simp_all
  note u = v(2) v(3) [unfolded this] this(1) v(4) [unfolded this] v(5) [unfolded this ok(2)] v(6) [unfolded this]
  have free: "e \<in> set (fresh @ reused)" using e' u(3) by simp
  have disj: "set (as @ bs) \<inter> set (fresh @ reused) = {}" using worker_okD(7) [OF ok(1)] unfolding u(1) by (simp, blast)
  have n: "x < n" "x \<noteq> e" if x: "x \<in> set (as @ bs)" for x
  proof -
    show "x < n" using nseg_bound [OF worker_okD(1) [OF ok(1)], of x] x ok(2) unfolding u(1) by simp
    show "x \<noteq> e" using disj x free by blast
  qed
  have en: "e < n" using nseg_bound [OF worker_okD(4) [OF ok(1)] free] ok(2) by simp
  define f where "f = (\<lambda>x. w_nsecs_target (wk_queue wk' ! x))"
  have f: "f x = w_nsecs_target (wk_queue wk ! x)" if "x \<in> set (as @ bs)" for x
    using unlinked_eqD(10) [OF mp [OF spec [OF u(5), of x]]] n [OF that] by (simp add: f_def)
  have fe: "f e = r_nsecs_target ret"
    using unlinked_eqD(10) [OF mp [OF spec [OF u(5), of e]]] en by (simp add: f_def fill_def fill_request_def)
  have slot: "\<forall>b \<in> set bs. wk_latest_nsecs wk < f b \<and> f e < f b"
    "as \<noteq> [] \<longrightarrow> f (last as) \<le> wk_latest_nsecs wk \<or> f (last as) \<le> f e"
    using u(6) f fe by (auto simp: slot_ok_def fill_def fill_request_def)
  have "sorted_wrt (\<lambda>a b. f a \<le> wk_latest_nsecs wk \<or> f a \<le> f b) (as @ bs)"
    using assms(6) sorted_wrt_cong [of "as @ bs" f "\<lambda>x. w_nsecs_target (wk_queue wk ! x)"
        "\<lambda>a b. a \<le> wk_latest_nsecs wk \<or> a \<le> b"] f
    by (simp add: ordered_def u(1))
  from sorted_wrt_slot [OF this slot] have "ordered wk'"
    using worker_ok_chains(1) [OF u(2)] u(4) by (simp add: ordered_def f_def)
  then show ?thesis using u(1,4) worker_ok_chains(1) [OF u(2)] slot(1) fe by (auto simp: f_def)
qed

text \<open>
  \<^bold>\<open>C18.\<close>  A request for a worker that is down to its last free item is dropped without a trace: \<^verbatim>\<open>__enqueue_io_req\<close>
  returns NULL, which its caller ignores, and no completion will ever be posted.  In the same way a scheduled
  release of write buffer space is lost.
\<close>

theorem io_request_dropped:
  assumes "io_reach env n nr s" "0 < n" "0 < nr" "get_io_worker sqid (sy_dev s) = Inr t" "is_full (dv_workers (sy_dev s) ! t)"
    "sqid \<noteq> 2147483647"
  shows "io_exec env (Request sqid cqid sqe cid start now ret) s = Inr s \<and> io_exec env (Internal sqid rnd now target wb m) s = Inr s"
proof -
  have ok: "all_ok n nr (dv_workers (sy_dev s)) (sy_pc s) (sy_sent s) (sy_posted s)"
    using io_reach_ok [OF assms(1-3)] by (simp add: sys_ok_def)
  then have t: "t < nr" using assms(3,4) by (auto simp: all_ok_def get_io_worker_def split: if_splits)
  obtain fresh reused e where "worker_ok (dv_workers (sy_dev s) ! t) (in_flight (dv_workers (sy_dev s) ! t)) fresh reused"
    "fresh @ reused = [e]"
    using io_reach_worker [OF assms(1-3) t refl] wsys_invD(1) assms(5) unfolding is_full_def
    by (metis One_nat_def length_0_conv length_Suc_conv)
  then have "enqueue_work fill (dv_workers (sy_dev s) ! t) = Inr (None, dv_workers (sy_dev s) ! t)" for fill
    by (rule enqueue_work_full)
  then have "on_worker sqid fill (sy_dev s) = Inr (None, sy_dev s)" for fill
    using assms(4) by (simp add: on_worker_def)
  then show ?thesis using assms(6) by (simp add: enqueue_io_req_def schedule_internal_operation_def pick_sqid_def)
qed

section \<open>A concrete run\<close>

definition demo_env :: io_env where
  "demo_env = \<lparr>env_dma = False, env_is_kv = \<lambda>_. True, env_perform_kv = \<lambda>_. 5, env_cb = \<lambda>_ _. (0, 0, 0)\<rparr>"

definition demo_op :: io_op where
  "demo_op = Request 1 1 0 7 10 10 \<lparr>r_status = 0, r_nsecs_target = 20, r_cb = None, r_args = None\<rparr>"

definition demo_sys :: "nat \<Rightarrow> io_sys" where
  "demo_sys n = projr (io_exec demo_env demo_op (io_boot n 1))"

lemma demo_reach: "0 < n \<Longrightarrow> io_reach demo_env n 1 (demo_sys n)"
  using io_exec_ok [OF sys_ok_boot, of n 1 demo_op demo_env] io_reach.step [OF io_reach.boot, of n 1 demo_op demo_env]
  by (auto simp: demo_sys_def demo_op_def)

lemma demo_worker:
  "in_flight (dv_workers (sy_dev (demo_sys 3)) ! 0) = [0]" "free_items (dv_workers (sy_dev (demo_sys 3)) ! 0) = [1, 2]"
  "sy_sent (demo_sys 3) 0 = [(1, 0, 7)]" "w_nsecs_target (wk_queue (dv_workers (sy_dev (demo_sys 3)) ! 0) ! 0) = 20"
  "w_cb_w (wk_queue (dv_workers (sy_dev (demo_sys 3)) ! 0) ! 0) = None"
  "is_full (dv_workers (sy_dev (demo_sys 2)) ! 0)" "get_io_worker 1 (sy_dev (demo_sys 2)) = Inr 0"
  by code_simp+

definition demo_ret :: nvmev_result where
  "demo_ret = \<lparr>r_status = 0, r_nsecs_target = 15, r_cb = None, r_args = None\<rparr>"

definition demo_dev :: io_dev where
  "demo_dev = snd (projr (enqueue_io_req 1 1 1 8 11 11 demo_ret (sy_dev (demo_sys 3))))"

lemma demo_enqueue:
  "enqueue_io_req 1 1 1 8 11 11 demo_ret (sy_dev (demo_sys 3)) = Inr (Some (0, 1), demo_dev)"
  "ordered (dv_workers (sy_dev (demo_sys 3)) ! 0)"
  by code_simp+

theorem io_work_lists_partition_witness:
  "mset (in_flight (dv_workers (sy_dev (demo_sys 3)) ! 0) @ free_items (dv_workers (sy_dev (demo_sys 3)) ! 0)) = mset [0..<3]
    \<and> in_flight (dv_workers (sy_dev (demo_sys 3)) ! 0) = [0]"
  using io_work_lists_partition [OF demo_reach, of 3 0 "dv_workers (sy_dev (demo_sys 3)) ! 0"] demo_worker(1) by simp

theorem io_steps_return_witness: "\<exists>s'. io_exec demo_env (Visit 0 30) (demo_sys 3) = Inr s'"
  using io_steps_return [OF demo_reach, of 3 "Visit 0 30"] by simp

theorem io_requests_conserved_witness:
  "mset (sy_sent (demo_sys 3) 0) = mset (map (request_of \<circ> snd) (sy_posted (demo_sys 3) 0))
      + waiting (wk_queue (dv_workers (sy_dev (demo_sys 3)) ! 0)) [0] \<and> sy_sent (demo_sys 3) 0 = [(1, 0, 7)]"
  using io_requests_conserved [OF demo_reach, of 3 0 "dv_workers (sy_dev (demo_sys 3)) ! 0"] demo_worker(1,3) by simp

theorem io_pass_completes_witness:
  "\<exists>ws' evs wk'. worker_pass 3 demo_env [30] 0 (wk_io_seq (dv_workers (sy_dev (demo_sys 3)) ! 0)) (dv_workers (sy_dev (demo_sys 3))) = Inr (ws', evs)
    \<and> reclaim_worker (ws' ! 0) = Inr wk' \<and> in_flight wk' = []"
  using io_pass_completes [OF demo_reach, of 3 0 "dv_workers (sy_dev (demo_sys 3))" "dv_workers (sy_dev (demo_sys 3)) ! 0" "[30]"]
    demo_worker(1,4,5) by auto

theorem io_insert_ordered_witness:
  "ordered (dv_workers demo_dev ! 0) \<and> in_flight (dv_workers demo_dev ! 0) = [1, 0]"
proof -
  have "ordered (dv_workers demo_dev ! 0)"
    using io_insert_ordered [OF demo_reach _ _ _ refl demo_enqueue(2,1) refl] by simp
  moreover have "in_flight (dv_workers demo_dev ! 0) = [1, 0]" by code_simp
  ultimately show ?thesis by blast
qed

theorem io_request_dropped_witness:
  "io_exec demo_env (Request 1 1 1 8 11 11 demo_ret) (demo_sys 2) = Inr (demo_sys 2)"
  using io_request_dropped [OF demo_reach _ _ demo_worker(7,6)] by simp

end
