(* ===== verification/NvmeQueues.thy ===== *)
theory NvmeQueues
  imports IoReach
begin

unbundle bit_operations_syntax

text \<open>
  The NVMe queues around the I/O workers: completion queues as \<^verbatim>\<open>__fill_cq_result\<close> of \<^verbatim>\<open>io.c\<close> and
  \<^verbatim>\<open>__make_cq_entry_results\<close> of \<^verbatim>\<open>admin.c\<close> fill them and as the host driver of \<^verbatim>\<open>drivers/kernel_v5.10.37/pci.c\<close>
  drains them, queue creation and deletion, and the doorbell handlers \<^verbatim>\<open>nvmev_proc_io_sq\<close> and
  \<^verbatim>\<open>nvmev_proc_io_cq\<close>.

  A queue is the memory the device maps for it, whole pages of 4096 bytes, as a list of entries; an index past the
  mapped pages is \<open>Out_of_bounds\<close>.  A completion entry has 16 bytes and a command 64.  The interrupt vector and the
  locks of a completion queue are left out: filling an entry is split at the point where \<^verbatim>\<open>entry_lock\<close> is taken.
\<close>

section \<open>Completion queues\<close>

record nvme_completion =
  ce_result0 :: u32
  ce_result1 :: u32
  ce_sq_head :: u16
  ce_sq_id :: u16
  ce_command_id :: u16
  ce_status :: u16

definition NR_CQE_PER_PAGE :: nat where
  "NR_CQE_PER_PAGE = 256"

definition NR_SQE_PER_PAGE :: nat where
  "NR_SQE_PER_PAGE = 64"

definition NR_MAX_IO_QUEUE :: nat where
  "NR_MAX_IO_QUEUE = 72"

record completion_queue =
  cq_qid :: int
  cq_irq_enabled :: bool
  cq_interrupt_ready :: bool
  cq_phys_contig :: bool
  cq_queue_size :: int
  cq_phase :: int
  cq_cq_head :: int
  cq_cq_tail :: int
  cq_cq :: "nvme_completion list"

definition entry_at :: "'a list \<Rightarrow> int \<Rightarrow> 'a result" where
  "entry_at xs i = (if 0 \<le> i \<and> nat i < length xs then Inr (xs ! nat i) else Inl Out_of_bounds)"

text \<open>The entry that \<^verbatim>\<open>__fill_cq_result\<close> writes for a work item, with the phase of the queue.\<close>

definition cqe_of :: "io_work \<Rightarrow> int \<Rightarrow> nvme_completion" where
  "cqe_of w phase = \<lparr>ce_result0 = w_result0 w, ce_result1 = w_result1 w, ce_sq_head = word_of_int (w_sq_entry w),
     ce_sq_id = word_of_int (w_sqid w), ce_command_id = ucast (w_command_id w),
     ce_status = ucast ((word_of_int phase :: u32) OR push_bit 1 (w_status w))\<rparr>"

text \<open>
  \<^verbatim>\<open>__fill_cq_result\<close> from the point where it holds \<^verbatim>\<open>entry_lock\<close>; the head was read before.  (The command the
  code also looks up there is not used.)
\<close>

definition fill_cq_locked :: "io_work \<Rightarrow> int \<Rightarrow> completion_queue \<Rightarrow> completion_queue result" where
  "fill_cq_locked w cq_head cq =
     bindR (entry_at (cq_cq cq) cq_head) (\<lambda>_.
     let cq = cq\<lparr>cq_cq := (cq_cq cq)[nat cq_head := cqe_of w (cq_phase cq)]\<rparr>; cq_head = cq_head + 1 in
     Inr (if cq_head = cq_queue_size cq
          then cq\<lparr>cq_phase := (if cq_phase cq = 0 then 1 else 0), cq_cq_head := 0, cq_interrupt_ready := True\<rparr>
          else cq\<lparr>cq_cq_head := cq_head, cq_interrupt_ready := True\<rparr>))"

definition fill_cq_result :: "io_work \<Rightarrow> completion_queue \<Rightarrow> completion_queue result" where
  "fill_cq_result w cq = fill_cq_locked w (cq_cq_head cq) cq"

section \<open>The admin queue\<close>

record admin_queue =
  aq_phase :: int
  aq_sq_depth :: int
  aq_cq_depth :: int
  aq_cq_head :: int
  aq_nvme_cq :: "nvme_completion list"

type_synonym admin_result = "int \<times> u16 \<times> u16 \<times> u32 \<times> u32"

text \<open>An admin completion: the entry of the submission queue, its command id, the status and the results.\<close>

fun admin_cqe :: "admin_result \<Rightarrow> int \<Rightarrow> nvme_completion" where
  "admin_cqe (eid, command_id, ret, result0, result1) phase =
     \<lparr>ce_result0 = result0, ce_result1 = result1, ce_sq_head = word_of_int eid, ce_sq_id = 0,
      ce_command_id = command_id, ce_status = ucast ((word_of_int phase :: u32) OR push_bit 1 (ucast ret))\<rparr>"

definition make_cq_entry_results :: "admin_result \<Rightarrow> admin_queue \<Rightarrow> admin_queue result" where
  "make_cq_entry_results r queue =
     bindR (entry_at (aq_nvme_cq queue) (aq_cq_head queue)) (\<lambda>_.
     let cq_head = aq_cq_head queue + 1;
         queue = queue\<lparr>aq_nvme_cq := (aq_nvme_cq queue)[nat (aq_cq_head queue) := admin_cqe r (aq_phase queue)]\<rparr> in
     Inr (if cq_head = aq_cq_depth queue
          then queue\<lparr>aq_phase := (if aq_phase queue = 0 then 1 else 0), aq_cq_head := 0\<rparr>
          else queue\<lparr>aq_cq_head := cq_head\<rparr>))"

section \<open>Queue management and admin commands\<close>

text \<open>What the device reads of a command: its id and, for reads and writes, the number of blocks less one.\<close>

record nvme_command =
  nc_command_id :: u16
  nc_length :: u16

record sq_stat =
  st_nr_dispatched :: u32
  st_nr_dispatch :: u32
  st_nr_in_flight :: u32
  st_max_nr_in_flight :: u32
  st_total_io :: u64

record submission_queue =
  sq_qid :: int
  sq_cqid :: int
  sq_priority :: int
  sq_phys_contig :: bool
  sq_queue_size :: int
  sq_stat :: sq_stat
  sq_sq :: "nvme_command list"

text \<open>
  The part of \<^verbatim>\<open>struct nvmev_dev\<close> the dispatcher works on.  \<open>nd_sqes\<close> and \<open>nd_cqes\<close> have \<^verbatim>\<open>NR_MAX_IO_QUEUE + 1\<close> elements;
  doorbells are functions of their index;
  \<open>nd_nr_ns\<close> is the length of the array of namespaces.
\<close>

record nvme_dev =
  nd_admin_q :: admin_queue
  nd_sqes :: "submission_queue option list"
  nd_cqes :: "completion_queue option list"
  nd_nr_sq :: u32
  nd_nr_cq :: u32
  nd_dbs :: "nat \<Rightarrow> u32"
  nd_old_dbs :: "nat \<Rightarrow> u32"
  nd_nr_ns :: u32

text \<open>
  Admin commands with the fields the device reads.  The memory at \<^verbatim>\<open>prp1\<close> of a queue to create is given as its
  entries.  The contents of identify and log pages, written to host memory, are left out; what the device reads for them is
  not: an array of namespaces and two static log pages of 512 and 4096 bytes.
\<close>

datatype admin_cmd =
    Delete_sq u16
  | Create_sq u16 u16 u16 u16 "nvme_command list"
  | Get_log_page u8 u16 u16
  | Delete_cq u16
  | Create_cq u16 u16 u16 "nvme_completion list"
  | Identify u32 u32
  | Abort_cmd
  | Set_features u32 u32
  | Get_features u32
  | Async_event
  | Other_admin u8

definition set_queue :: "'q option list \<Rightarrow> nat \<Rightarrow> 'q option \<Rightarrow> 'q option list result" where
  "set_queue qs i q = (if i < length qs then Inr (qs[i := q]) else Inl Out_of_bounds)"

definition admin_create_cq :: "u16 \<Rightarrow> u16 \<Rightarrow> u16 \<Rightarrow> nvme_completion list \<Rightarrow> nvme_dev \<Rightarrow> nvme_dev result" where
  "admin_create_cq cqid cq_flags qsize prp dev =
     (let queue_size = uint qsize + 1;
          num_pages = (nat queue_size * 16 + 4095) div 4096;
          cq = \<lparr>cq_qid = uint cqid, cq_irq_enabled = (cq_flags AND 2 \<noteq> 0), cq_interrupt_ready = False,
                cq_phys_contig = (cq_flags AND 1 \<noteq> 0), cq_queue_size = queue_size, cq_phase = 1, cq_cq_head = 0,
                cq_cq_tail = - 1, cq_cq = take (num_pages * NR_CQE_PER_PAGE) prp\<rparr>;
          dbs_idx = unat cqid * 2 + 1 in
      bindR (set_queue (nd_cqes dev) (unat cqid) (Some cq)) (\<lambda>cqes.
      Inr (dev\<lparr>nd_cqes := cqes, nd_dbs := (nd_dbs dev)(dbs_idx := 0), nd_old_dbs := (nd_old_dbs dev)(dbs_idx := 0)\<rparr>)))"

definition admin_delete_cq :: "u16 \<Rightarrow> nvme_dev \<Rightarrow> nvme_dev result" where
  "admin_delete_cq qid dev =
     bindR (set_queue (nd_cqes dev) (unat qid) None) (\<lambda>cqes. Inr (dev\<lparr>nd_cqes := cqes\<rparr>))"

definition zero_stat :: sq_stat where
  "zero_stat = \<lparr>st_nr_dispatched = 0, st_nr_dispatch = 0, st_nr_in_flight = 0, st_max_nr_in_flight = 0, st_total_io = 0\<rparr>"

definition admin_create_sq :: "u16 \<Rightarrow> u16 \<Rightarrow> u16 \<Rightarrow> u16 \<Rightarrow> nvme_command list \<Rightarrow> nvme_dev \<Rightarrow> nvme_dev result" where
  "admin_create_sq sqid cqid sq_flags qsize prp dev =
     (let queue_size = uint qsize + 1;
          num_pages = (nat queue_size * 64 + 4095) div 4096;
          sq = \<lparr>sq_qid = uint sqid, sq_cqid = uint cqid, sq_priority = uint (sq_flags AND 0xFFFE),
                sq_phys_contig = (sq_flags AND 1 \<noteq> 0), sq_queue_size = queue_size, sq_stat = zero_stat,
                sq_sq = take (num_pages * NR_SQE_PER_PAGE) prp\<rparr>;
          dbs_idx = unat sqid * 2 in
      bindR (set_queue (nd_sqes dev) (unat sqid) (Some sq)) (\<lambda>sqes.
      Inr (dev\<lparr>nd_sqes := sqes, nd_dbs := (nd_dbs dev)(dbs_idx := 0), nd_old_dbs := (nd_old_dbs dev)(dbs_idx := 0)\<rparr>)))"

definition admin_delete_sq :: "u16 \<Rightarrow> nvme_dev \<Rightarrow> nvme_dev result" where
  "admin_delete_sq qid dev =
     bindR (set_queue (nd_sqes dev) (unat qid) None) (\<lambda>sqes. Inr (dev\<lparr>nd_sqes := sqes\<rparr>))"

text \<open>
  Log pages are copied with the length the host asks for, from static structures for the SMART log (2) and the effects
  log (5); any other page is only cleared.  Identifying a namespace (\<^verbatim>\<open>cns\<close> 0 and 3) reads \<^verbatim>\<open>ns[nsid - 1]\<close>.
\<close>

definition log_len :: "u16 \<Rightarrow> u16 \<Rightarrow> u32" where
  "log_len numdl numdu = push_bit 2 ((push_bit 16 (ucast numdu) OR ucast numdl) + 1)"

definition admin_get_log_page :: "u8 \<Rightarrow> u16 \<Rightarrow> u16 \<Rightarrow> unit result" where
  "admin_get_log_page lid numdl numdu =
     (if lid = 2 then assertR (log_len numdl numdu \<le> 512) Out_of_bounds
      else if lid = 5 then assertR (log_len numdl numdu \<le> 4096) Out_of_bounds
      else Inr ())"

definition admin_identify_ns :: "u32 \<Rightarrow> nvme_dev \<Rightarrow> u16 result" where
  "admin_identify_ns nsid dev = bindR (assertR (0 < nsid \<and> nsid \<le> nd_nr_ns dev) Out_of_bounds) (\<lambda>_. Inr 0)"

definition admin_identify :: "u32 \<Rightarrow> u32 \<Rightarrow> nvme_dev \<Rightarrow> u16 result" where
  "admin_identify cns nsid dev =
     (if cns = 0 then admin_identify_ns nsid dev
      else if cns = 1 \<or> cns = 2 then Inr 0
      else if cns = 3 then admin_identify_ns nsid dev
      else Inr 1)"

text \<open>The feature \<^verbatim>\<open>NVME_FEAT_NUM_QUEUES\<close>; the other features have no effect.\<close>

definition num_queues_result :: "nvme_dev \<Rightarrow> u32" where
  "num_queues_result dev = push_bit 16 (nd_nr_cq dev - 1) OR (nd_nr_sq dev - 1)"

definition admin_set_features :: "u32 \<Rightarrow> u32 \<Rightarrow> nvme_dev \<Rightarrow> u32 \<times> nvme_dev" where
  "admin_set_features fid dword11 dev =
     (if fid = 7 then
        let nr_sq = min ((dword11 AND 0xFFFF) + 1) (of_nat NR_MAX_IO_QUEUE);
            nr_cq = min ((drop_bit 16 dword11 AND 0xFFFF) + 1) (of_nat NR_MAX_IO_QUEUE);
            dev = dev\<lparr>nd_nr_sq := nr_sq, nd_nr_cq := nr_cq\<rparr> in
        (num_queues_result dev, dev)
      else (0, dev))"

definition admin_get_features :: "u32 \<Rightarrow> nvme_dev \<Rightarrow> u32" where
  "admin_get_features fid dev = (if fid = 7 then num_queues_result dev else 0)"

definition make_cq_entry :: "int \<Rightarrow> u16 \<Rightarrow> u16 \<Rightarrow> u32 \<Rightarrow> nvme_dev \<Rightarrow> nvme_dev result" where
  "make_cq_entry eid command_id ret result0 dev =
     bindR (make_cq_entry_results (eid, command_id, ret, result0, 0) (nd_admin_q dev)) (\<lambda>aq.
     Inr (dev\<lparr>nd_admin_q := aq\<rparr>))"

definition proc_admin_req :: "int \<Rightarrow> u16 \<Rightarrow> admin_cmd \<Rightarrow> nvme_dev \<Rightarrow> nvme_dev result" where
  "proc_admin_req eid cid cmd dev =
     (case cmd of
        Delete_sq qid \<Rightarrow> bindR (admin_delete_sq qid dev) (make_cq_entry eid cid 0 0)
      | Create_sq sqid cqid flags qsize prp \<Rightarrow> bindR (admin_create_sq sqid cqid flags qsize prp dev) (make_cq_entry eid cid 0 0)
      | Get_log_page lid numdl numdu \<Rightarrow> bindR (admin_get_log_page lid numdl numdu) (\<lambda>_. make_cq_entry eid cid 0 0 dev)
      | Delete_cq qid \<Rightarrow> bindR (admin_delete_cq qid dev) (make_cq_entry eid cid 0 0)
      | Create_cq cqid flags qsize prp \<Rightarrow> bindR (admin_create_cq cqid flags qsize prp dev) (make_cq_entry eid cid 0 0)
      | Identify cns nsid \<Rightarrow> bindR (admin_identify cns nsid dev) (\<lambda>ret. make_cq_entry eid cid ret 0 dev)
      | Abort_cmd \<Rightarrow> Inr dev
      | Set_features fid dword11 \<Rightarrow> (let (result0, dev) = admin_set_features fid dword11 dev in make_cq_entry eid cid 0 result0 dev)
      | Get_features fid \<Rightarrow> make_cq_entry eid cid 0 (admin_get_features fid dev) dev
      | Async_event \<Rightarrow> make_cq_entry eid cid 0 0 dev
      | Other_admin opcode \<Rightarrow> make_cq_entry eid cid 1 0 dev)"

section \<open>Doorbells\<close>

text \<open>
  \<^verbatim>\<open>__nvmev_proc_io\<close>.  The namespace's command handler \<^verbatim>\<open>proc_io_cmd\<close> is an argument: given the command, the queue, the
  start time and the default result it answers whether it accepts the command, with the result and with the calls it made
  to \<^verbatim>\<open>schedule_internal_operation\<close> and \<^verbatim>\<open>schedule_internal_operation_cb\<close>, whose effect on the workers comes before the
  request is queued.  \<open>now\<close> is the wall clock and \<open>enq\<close> the local clock.
\<close>

datatype internal_op =
    Release_buffer int nat u64 u64 "nat option" nat
  | Run_callback int nat u64 "nat option" u64 u64 "nat option" "nat option" bool "(nat \<times> nat) option"

fun schedule_ops :: "internal_op list \<Rightarrow> io_dev \<Rightarrow> io_dev result" where
  "schedule_ops [] dev = Inr dev"
| "schedule_ops (Release_buffer sqid rnd now target wb n # ops) dev =
     bindR (schedule_internal_operation sqid rnd now target wb n dev) (schedule_ops ops)"
| "schedule_ops (Run_callback sqid rnd start mem ppa len cb args rd cb_w # ops) dev =
     bindR (schedule_internal_operation_cb sqid rnd start mem ppa len cb args rd cb_w dev) (schedule_ops ops)"

type_synonym 's proc_cmd = "nvme_command \<Rightarrow> int \<Rightarrow> u64 \<Rightarrow> nvmev_result \<Rightarrow> 's \<Rightarrow> bool \<times> nvmev_result \<times> internal_op list \<times> 's"

definition nvmev_proc_io ::
  "'s proc_cmd \<Rightarrow> u64 \<Rightarrow> u64 \<Rightarrow> int \<Rightarrow> submission_queue \<Rightarrow> int \<Rightarrow> io_dev \<times> 's \<Rightarrow> (u64 option \<times> io_dev \<times> 's) result" where
  "nvmev_proc_io proc_io_cmd now enq sqid sq sq_entry st =
     (case st of (dev, ftl) \<Rightarrow>
      bindR (entry_at (sq_sq sq) sq_entry) (\<lambda>cmd.
      let (accepted, ret, ops, ftl) =
        proc_io_cmd cmd sqid now \<lparr>r_status = 0, r_nsecs_target = now, r_cb = None, r_args = None\<rparr> ftl in
      bindR (schedule_ops ops dev) (\<lambda>dev.
      if \<not> accepted then Inr (None, dev, ftl)
      else
        bindR (enqueue_io_req sqid (sq_cqid sq) sq_entry (ucast (nc_command_id cmd)) now enq ret dev) (\<lambda>(_, dev).
        bindR (reclaim_completed_reqs dev) (\<lambda>dev.
        Inr (Some (push_bit 9 (ucast (nc_length cmd) + 1)), dev, ftl))))))"

text \<open>The loop of \<^verbatim>\<open>nvmev_proc_io_sq\<close>; the result counts the commands that were accepted.\<close>

fun sq_loop ::
  "'s proc_cmd \<Rightarrow> (nat \<Rightarrow> u64 \<times> u64) \<Rightarrow> int \<Rightarrow> nat \<Rightarrow> nat \<Rightarrow> int \<Rightarrow> submission_queue \<Rightarrow> io_dev \<times> 's \<Rightarrow>
    (nat \<times> submission_queue \<times> io_dev \<times> 's) result" where
  "sq_loop proc_io_cmd clock sqid 0 seq sq_entry sq st = Inr (seq, sq, st)"
| "sq_loop proc_io_cmd clock sqid (Suc left) seq sq_entry sq st =
     bindR (nvmev_proc_io proc_io_cmd (fst (clock seq)) (snd (clock seq)) sqid sq sq_entry st) (\<lambda>(io_size, st).
     case io_size of
       None \<Rightarrow> Inr (seq, sq, st)
     | Some io_size \<Rightarrow>
         sq_loop proc_io_cmd clock sqid left (seq + 1) (if sq_entry + 1 = sq_queue_size sq then 0 else sq_entry + 1)
           (sq\<lparr>sq_stat := (sq_stat sq)\<lparr>st_nr_dispatched := st_nr_dispatched (sq_stat sq) + 1,
                st_nr_in_flight := st_nr_in_flight (sq_stat sq) + 1,
                st_total_io := st_total_io (sq_stat sq) + io_size\<rparr>\<rparr>) st)"

definition nvmev_proc_io_sq ::
  "'s proc_cmd \<Rightarrow> (nat \<Rightarrow> u64 \<times> u64) \<Rightarrow> int \<Rightarrow> int \<Rightarrow> int \<Rightarrow> submission_queue option \<Rightarrow> io_dev \<times> 's \<Rightarrow>
    (int \<times> submission_queue option \<times> io_dev \<times> 's) result" where
  "nvmev_proc_io_sq proc_io_cmd clock sqid new_db old_db sqo st =
     (case sqo of
        None \<Rightarrow> Inr (old_db, None, st)
      | Some sq \<Rightarrow>
          (let num_proc = (if new_db - old_db < 0 then new_db - old_db + sq_queue_size sq else new_db - old_db) in
           bindR (sq_loop proc_io_cmd clock sqid (nat num_proc) 0 old_db sq st) (\<lambda>(seq, sq, st).
           let stat = sq_stat sq;
               sq = sq\<lparr>sq_stat := stat\<lparr>st_nr_dispatch := st_nr_dispatch stat + 1,
                      st_max_nr_in_flight := (if st_max_nr_in_flight stat <s st_nr_in_flight stat
                                              then st_nr_in_flight stat else st_max_nr_in_flight stat)\<rparr>\<rparr> in
           if sq_queue_size sq = 0 then Inl Div_by_zero
           else Inr ((old_db + int seq) mod sq_queue_size sq, Some sq, st))))"

text \<open>
  The loop of \<^verbatim>\<open>nvmev_proc_io_cq\<close>: the entry is read before the index is compared with the queue size.
\<close>

definition one_less_in_flight :: "submission_queue \<Rightarrow> submission_queue" where
  "one_less_in_flight sq = sq\<lparr>sq_stat := (sq_stat sq)\<lparr>st_nr_in_flight := st_nr_in_flight (sq_stat sq) - 1\<rparr>\<rparr>"

fun cq_loop ::
  "nat \<Rightarrow> completion_queue \<Rightarrow> int \<Rightarrow> int \<Rightarrow> submission_queue option list \<Rightarrow> submission_queue option list result" where
  "cq_loop 0 cq new_db i sqes = Inl Diverges"
| "cq_loop (Suc fuel) cq new_db i sqes =
     (if i = new_db then Inr sqes
      else
        bindR (entry_at (cq_cq cq) i) (\<lambda>e.
        if cq_queue_size cq \<le> i then cq_loop fuel cq new_db 0 sqes
        else
          bindR (entry_at sqes (uint (ce_sq_id e))) (\<lambda>sq.
          cq_loop fuel cq new_db (i + 1) (sqes[unat (ce_sq_id e) := map_option one_less_in_flight sq]))))"

definition nvmev_proc_io_cq ::
  "completion_queue \<Rightarrow> int \<Rightarrow> int \<Rightarrow> submission_queue option list \<Rightarrow> (completion_queue \<times> submission_queue option list) result" where
  "nvmev_proc_io_cq cq new_db old_db sqes =
     bindR (cq_loop (nat (cq_queue_size cq) + 2) cq new_db old_db sqes) (\<lambda>sqes.
     Inr (cq\<lparr>cq_cq_tail := (if new_db = - 1 then cq_queue_size cq - 1 else new_db - 1)\<rparr>, sqes))"

text \<open>\<^verbatim>\<open>nvmev_proc_admin_sq\<close>: \<open>asq\<close> is the memory of the admin submission queue, commands with their ids.\<close>

fun admin_loop :: "nat \<Rightarrow> (u16 \<times> admin_cmd) list \<Rightarrow> int \<Rightarrow> nvme_dev \<Rightarrow> nvme_dev result" where
  "admin_loop 0 asq eid dev = Inr dev"
| "admin_loop (Suc left) asq eid dev =
     bindR (entry_at asq eid) (\<lambda>(cid, cmd).
     bindR (proc_admin_req eid cid cmd dev) (\<lambda>dev.
     admin_loop left asq (if eid + 1 = aq_sq_depth (nd_admin_q dev) then 0 else eid + 1) dev))"

definition nvmev_proc_admin_sq :: "(u16 \<times> admin_cmd) list \<Rightarrow> int \<Rightarrow> int \<Rightarrow> nvme_dev \<Rightarrow> nvme_dev result" where
  "nvmev_proc_admin_sq asq new_db old_db dev =
     (let num_proc = (if new_db - old_db < 0 then new_db - old_db + aq_sq_depth (nd_admin_q dev) else new_db - old_db) in
      admin_loop (nat num_proc) asq old_db dev)"

text \<open>
  One round of the dispatcher over all doorbells, \<^verbatim>\<open>nvmev_proc_dbs\<close> of \<^verbatim>\<open>main.c\<close>.  The clock readings of the commands
  of one queue are given per queue.
\<close>

fun poll_sqs ::
  "'s proc_cmd \<Rightarrow> (nat \<Rightarrow> nat \<Rightarrow> u64 \<times> u64) \<Rightarrow> nat list \<Rightarrow> nvme_dev \<times> io_dev \<times> 's \<Rightarrow> (nvme_dev \<times> io_dev \<times> 's) result" where
  "poll_sqs proc_io_cmd clock [] st = Inr st"
| "poll_sqs proc_io_cmd clock (qid # qids) (dev, st) =
     bindR (entry_at (nd_sqes dev) (int qid)) (\<lambda>sq.
     let new_db = sint (nd_dbs dev (qid * 2)); old_db = sint (nd_old_dbs dev (qid * 2)) in
     if sq = None \<or> new_db = old_db then poll_sqs proc_io_cmd clock qids (dev, st)
     else
       bindR (nvmev_proc_io_sq proc_io_cmd (clock qid) (int qid) new_db old_db sq st) (\<lambda>(db, sq, st).
       poll_sqs proc_io_cmd clock qids
         (dev\<lparr>nd_sqes := (nd_sqes dev)[qid := sq], nd_old_dbs := (nd_old_dbs dev)(qid * 2 := word_of_int db)\<rparr>, st)))"

fun poll_cqs :: "nat list \<Rightarrow> nvme_dev \<Rightarrow> nvme_dev result" where
  "poll_cqs [] dev = Inr dev"
| "poll_cqs (qid # qids) dev =
     bindR (entry_at (nd_cqes dev) (int qid)) (\<lambda>cq.
     let new_db = sint (nd_dbs dev (qid * 2 + 1)); old_db = sint (nd_old_dbs dev (qid * 2 + 1)) in
     case cq of
       None \<Rightarrow> poll_cqs qids dev
     | Some cq \<Rightarrow>
         if new_db = old_db then poll_cqs qids dev
         else
           bindR (nvmev_proc_io_cq cq new_db old_db (nd_sqes dev)) (\<lambda>(cq, sqes).
           poll_cqs qids (dev\<lparr>nd_cqes := (nd_cqes dev)[qid := Some cq], nd_sqes := sqes,
             nd_old_dbs := (nd_old_dbs dev)(qid * 2 + 1 := word_of_int new_db)\<rparr>)))"

definition nvmev_proc_dbs ::
  "'s proc_cmd \<Rightarrow> (nat \<Rightarrow> nat \<Rightarrow> u64 \<times> u64) \<Rightarrow> (u16 \<times> admin_cmd) list \<Rightarrow> nvme_dev \<times> io_dev \<times> 's \<Rightarrow> (nvme_dev \<times> io_dev \<times> 's) result" where
  "nvmev_proc_dbs proc_io_cmd clock asq st =
     (case st of (dev, io) \<Rightarrow>
      bindR (if nd_dbs dev 0 = nd_old_dbs dev 0 then Inr dev
             else bindR (nvmev_proc_admin_sq asq (sint (nd_dbs dev 0)) (sint (nd_old_dbs dev 0)) dev) (\<lambda>dev'.
                  Inr (dev'\<lparr>nd_old_dbs := (nd_old_dbs dev')(0 := nd_dbs dev 0)\<rparr>))) (\<lambda>dev.
      let dev = dev\<lparr>nd_old_dbs := (nd_old_dbs dev)(1 := nd_dbs dev 1)\<rparr> in
      bindR (poll_sqs proc_io_cmd clock [1..<unat (nd_nr_sq dev) + 1] (dev, io)) (\<lambda>(dev, io).
      bindR (poll_cqs [1..<unat (nd_nr_cq dev) + 1] dev) (\<lambda>dev.
      Inr (dev, io)))))"

section \<open>The host driver\<close>

record nvme_queue =
  nq_q_depth :: u32
  nq_cq_head :: u16
  nq_cq_phase :: u8

definition nvme_init_queue :: "u32 \<Rightarrow> nvme_queue" where
  "nvme_init_queue q_depth = \<lparr>nq_q_depth = q_depth, nq_cq_head = 0, nq_cq_phase = 1\<rparr>"

definition nvme_cqe_pending :: "nvme_completion list \<Rightarrow> nvme_queue \<Rightarrow> bool result" where
  "nvme_cqe_pending cqes nvmeq =
     bindR (entry_at cqes (uint (nq_cq_head nvmeq))) (\<lambda>hcqe.
     Inr (ucast (ce_status hcqe AND 1) = nq_cq_phase nvmeq))"

definition nvme_update_cq_head :: "nvme_queue \<Rightarrow> nvme_queue" where
  "nvme_update_cq_head nvmeq =
     (let tmp = nq_cq_head nvmeq + 1 in
      if ucast tmp = nq_q_depth nvmeq then nvmeq\<lparr>nq_cq_head := 0, nq_cq_phase := nq_cq_phase nvmeq XOR 1\<rparr>
      else nvmeq\<lparr>nq_cq_head := tmp\<rparr>)"

text \<open>\<^verbatim>\<open>nvme_process_cq\<close>; the completions it hands to \<^verbatim>\<open>nvme_handle_cqe\<close> are the first component of the result.\<close>

fun nvme_process_cq :: "nat \<Rightarrow> nvme_completion list \<Rightarrow> nvme_queue \<Rightarrow> (nvme_completion list \<times> nvme_queue) result" where
  "nvme_process_cq 0 cqes nvmeq = Inl Diverges"
| "nvme_process_cq (Suc fuel) cqes nvmeq =
     bindR (nvme_cqe_pending cqes nvmeq) (\<lambda>pending.
     if pending then
       bindR (entry_at cqes (uint (nq_cq_head nvmeq))) (\<lambda>cqe.
       bindR (nvme_process_cq fuel cqes (nvme_update_cq_head nvmeq)) (\<lambda>(handled, nvmeq).
       Inr (cqe # handled, nvmeq)))
     else Inr ([], nvmeq))"

section \<open>Phase rings\<close>

text \<open>
  The contract of a completion ring: posting writes the slot at the head with the current phase and advances,
  flipping the phase at the wrap.  Both the I/O completion queues and the admin queue keep it.
\<close>

definition phase_bit :: "nvme_completion \<Rightarrow> bool" where
  "phase_bit e \<longleftrightarrow> ce_status e AND 1 = 1"

text \<open>How the host and the device take turns on one queue, and what the host has seen.\<close>

datatype 'w ring_act = Put 'w | Poll

fun ring_run ::
  "('w \<Rightarrow> 'q \<Rightarrow> 'q result) \<Rightarrow> ('q \<Rightarrow> nvme_completion list) \<Rightarrow> nat \<Rightarrow> 'w ring_act list \<Rightarrow> 'q \<Rightarrow> nvme_queue \<Rightarrow>
    (nvme_completion list \<times> 'q \<times> nvme_queue) result" where
  "ring_run post mem fuel [] q h = Inr ([], q, h)"
| "ring_run post mem fuel (Put w # acts) q h = bindR (post w q) (\<lambda>q. ring_run post mem fuel acts q h)"
| "ring_run post mem fuel (Poll # acts) q h =
     bindR (nvme_process_cq fuel (mem q) h) (\<lambda>(seen, h).
     bindR (ring_run post mem fuel acts q h) (\<lambda>(seen', q, h). Inr (seen @ seen', q, h)))"

text \<open>Never more than \<open>n\<close> completions that the host has not seen.\<close>

fun ring_room :: "nat \<Rightarrow> nat \<Rightarrow> 'w ring_act list \<Rightarrow> bool" where
  "ring_room n k [] \<longleftrightarrow> True"
| "ring_room n k (Put w # acts) \<longleftrightarrow> k < n \<and> ring_room n (k + 1) acts"
| "ring_room n k (Poll # acts) \<longleftrightarrow> ring_room n 0 acts"

fun ring_puts :: "'w ring_act list \<Rightarrow> 'w list" where
  "ring_puts [] = []"
| "ring_puts (Put w # acts) = w # ring_puts acts"
| "ring_puts (Poll # acts) = ring_puts acts"

lemma unat_ucast_16_32: "unat (ucast (x :: u16) :: u32) = unat x"
proof -
  have "unat x < 2 ^ 16" using unsigned_less [of x] by simp
  then show ?thesis by (simp add: unsigned_ucast_eq take_bit_nat_eq_self)
qed

lemma nvme_update_cq_head_wrap:
  assumes "unat (nq_cq_head h) < n" "n < 65536" "unat (nq_q_depth h) = n"
  shows "nvme_update_cq_head h = (if unat (nq_cq_head h) + 1 = n
    then h\<lparr>nq_cq_head := 0, nq_cq_phase := nq_cq_phase h XOR 1\<rparr> else h\<lparr>nq_cq_head := nq_cq_head h + 1\<rparr>)"
    "unat (nq_cq_head h + 1) = unat (nq_cq_head h) + 1"
proof -
  have "unat (nq_cq_head h) + 1 < 2 ^ 16" using assms by simp
  then show u: "unat (nq_cq_head h + 1) = unat (nq_cq_head h) + 1"
    by (simp add: unat_word_ariths(1))
  have "(ucast (nq_cq_head h + 1) = nq_q_depth h) = (unat (nq_cq_head h + 1) = unat (nq_q_depth h))"
    by (simp add: word_unat_eq_iff unat_ucast_16_32)
  then show "nvme_update_cq_head h = (if unat (nq_cq_head h) + 1 = n
    then h\<lparr>nq_cq_head := 0, nq_cq_phase := nq_cq_phase h XOR 1\<rparr> else h\<lparr>nq_cq_head := nq_cq_head h + 1\<rparr>)"
    using assms(3) u by (simp add: nvme_update_cq_head_def Let_def)
qed

locale phase_ring =
  fixes wf :: "'q \<Rightarrow> bool" and size :: "'q \<Rightarrow> nat" and head :: "'q \<Rightarrow> nat" and ph :: "'q \<Rightarrow> bool"
    and mem :: "'q \<Rightarrow> nvme_completion list" and post :: "'w \<Rightarrow> 'q \<Rightarrow> 'q result" and cqe :: "'w \<Rightarrow> bool \<Rightarrow> nvme_completion"
  assumes bounds: "wf q \<Longrightarrow> head q < size q \<and> size q \<le> length (mem q) \<and> size q < 65536"
    and post_ok: "wf q \<Longrightarrow> \<exists>q'. post w q = Inr q' \<and> wf q' \<and> size q' = size q \<and> mem q' = (mem q)[head q := cqe w (ph q)]
      \<and> head q' = (if head q + 1 = size q then 0 else head q + 1) \<and> ph q' = (ph q \<noteq> (head q + 1 = size q))"
    and tag: "phase_bit (cqe w b) = b"
begin

text \<open>
  \<open>synced q h xs\<close>: the host will find exactly the completions \<open>xs\<close>, and the slots after them still carry the
  old phase.
\<close>

definition expected :: "'q \<Rightarrow> nvme_queue \<Rightarrow> nat \<Rightarrow> bool" where
  "expected q h i = ((nq_cq_phase h = 1) \<noteq> (size q \<le> unat (nq_cq_head h) + i))"

definition slot :: "'q \<Rightarrow> nvme_queue \<Rightarrow> nat \<Rightarrow> nvme_completion" where
  "slot q h i = mem q ! ((unat (nq_cq_head h) + i) mod size q)"

definition synced :: "'q \<Rightarrow> nvme_queue \<Rightarrow> nvme_completion list \<Rightarrow> bool" where
  "synced q h xs \<longleftrightarrow> wf q \<and> unat (nq_q_depth h) = size q \<and> unat (nq_cq_head h) < size q
     \<and> (nq_cq_phase h = 0 \<or> nq_cq_phase h = 1) \<and> length xs \<le> size q
     \<and> head q = (unat (nq_cq_head h) + length xs) mod size q \<and> ph q = expected q h (length xs)
     \<and> (\<forall>i < length xs. slot q h i = xs ! i)
     \<and> (\<forall>i < size q. phase_bit (slot q h i) = (expected q h i = (i < length xs)))"

lemma syncedD:
  assumes "synced q h xs"
  shows "wf q" "unat (nq_q_depth h) = size q" "unat (nq_cq_head h) < size q" "nq_cq_phase h = 0 \<or> nq_cq_phase h = 1"
    "length xs \<le> size q" "head q = (unat (nq_cq_head h) + length xs) mod size q" "ph q = expected q h (length xs)"
    "\<And>i. i < length xs \<Longrightarrow> slot q h i = xs ! i"
    "\<And>i. i < size q \<Longrightarrow> phase_bit (slot q h i) = (expected q h i = (i < length xs))"
  using assms by (auto simp: synced_def)

lemma synced_post:
  assumes "synced q h xs" "length xs < size q"
  shows "\<exists>q'. post w q = Inr q' \<and> synced q' h (xs @ [cqe w (ph q)]) \<and> size q' = size q"
proof -
  note d = syncedD [OF assms(1)]
  obtain q' where q': "post w q = Inr q'" "wf q'" "size q' = size q" "mem q' = (mem q)[head q := cqe w (ph q)]"
    "head q' = (if head q + 1 = size q then 0 else head q + 1)" "ph q' = (ph q \<noteq> (head q + 1 = size q))"
    using post_ok [OF d(1)] by blast
  define hh where "hh = unat (nq_cq_head h)"
  define k where "k = length xs"
  have hd: "hh < size q" "k < size q" "head q = (hh + k) mod size q" using d(3,6) assms(2) by (simp_all add: hh_def k_def)
  have wrap: "(hh + i) mod size q = (if hh + i < size q then hh + i else hh + i - size q)" if "i < size q" for i
    using that hd(1) by (simp add: mod_if)
  have slots: "slot q' h i = (if i = k then cqe w (ph q) else slot q h i)" if "i < size q" for i
  proof -
    have "(hh + i) mod size q = head q \<longleftrightarrow> i = k" using hd that by (auto simp: wrap)
    moreover have "head q < length (mem q)" using bounds [OF d(1)] by simp
    ultimately show ?thesis by (auto simp: slot_def q'(3,4) hh_def nth_list_update)
  qed
  have ex: "expected q' h i = expected q h i" for i by (simp add: expected_def q'(3))
  have "head q' = (hh + Suc k) mod size q" using hd wrap [of k] by (simp add: q'(5) mod_Suc)
  moreover have "ph q' = expected q h (Suc k)"
  proof -
    have "head q + 1 = size q \<longleftrightarrow> hh + Suc k = size q" using hd wrap [of k] by (auto split: if_splits)
    moreover have "size q \<le> hh + Suc k \<longleftrightarrow> size q \<le> hh + k \<or> hh + Suc k = size q" by linarith
    moreover have "\<not> (size q \<le> hh + k \<and> hh + Suc k = size q)" by linarith
    ultimately show ?thesis
      using d(7) unfolding q'(6) expected_def hh_def [symmetric] k_def [symmetric] by blast
  qed
  moreover have "phase_bit (slot q' h i) = (expected q h i = (i < Suc k))" if "i < size q" for i
    using slots [OF that] d(9) [OF that] tag d(7) by (auto simp: k_def [symmetric] less_Suc_eq)
  moreover have "slot q' h i = (xs @ [cqe w (ph q)]) ! i" if "i < Suc k" for i
    using slots [of i] d(8) [of i] that hd(2) by (auto simp: nth_append k_def less_Suc_eq)
  ultimately have "synced q' h (xs @ [cqe w (ph q)])"
    using d(2-4) assms(2) q'(2,3) unfolding synced_def ex by (simp add: k_def hh_def)
  then show ?thesis using q'(1,3) by blast
qed

lemma phase_pending:
  assumes "wf q" "unat (nq_cq_head h) < size q" "nq_cq_phase h = 0 \<or> nq_cq_phase h = 1"
  shows "entry_at (mem q) (uint (nq_cq_head h)) = Inr (slot q h 0)"
    "nvme_cqe_pending (mem q) h = Inr (phase_bit (slot q h 0) = (nq_cq_phase h = 1))"
proof -
  have "unat (nq_cq_head h) < length (mem q)" using bounds [OF assms(1)] assms(2) by simp
  then show e: "entry_at (mem q) (uint (nq_cq_head h)) = Inr (slot q h 0)"
    using assms(2) by (simp add: entry_at_def slot_def)
  have "ce_status (slot q h 0) AND 1 = (if phase_bit (slot q h 0) then 1 else 0)"
    by (simp add: phase_bit_def and_one_eq mod_2_eq_odd)
  then show "nvme_cqe_pending (mem q) h = Inr (phase_bit (slot q h 0) = (nq_cq_phase h = 1))"
    using assms(3) by (auto simp: nvme_cqe_pending_def e)
qed

lemma synced_pop:
  assumes "synced q h (x # xs)"
  shows "nvme_cqe_pending (mem q) h = Inr True" "entry_at (mem q) (uint (nq_cq_head h)) = Inr x"
    "synced q (nvme_update_cq_head h) xs"
proof -
  note d = syncedD [OF assms]
  have size: "0 < size q" "size q < 65536" using bounds [OF d(1)] by auto
  note host = phase_pending [OF d(1,3,4)]
  show "entry_at (mem q) (uint (nq_cq_head h)) = Inr x" using host(1) d(8) [of 0] by simp
  show "nvme_cqe_pending (mem q) h = Inr True" using host(2) d(9) [OF size(1)] d(3) by (simp add: expected_def)
  define hh where "hh = unat (nq_cq_head h)"
  define h' where "h' = nvme_update_cq_head h"
  note up = nvme_update_cq_head_wrap [OF d(3) size(2) d(2)]
  have hh': "unat (nq_cq_head h') = (if hh + 1 = size q then 0 else hh + 1)"
    "(nq_cq_phase h' = 1) = ((nq_cq_phase h = 1) \<noteq> (hh + 1 = size q))" "nq_cq_phase h' = 0 \<or> nq_cq_phase h' = 1"
    "unat (nq_q_depth h') = size q"
    using up d(2,4) by (auto simp: h'_def hh_def)
  have hh: "hh < size q" using d(3) by (simp add: hh_def)
  have mods: "(unat (nq_cq_head h') + i) mod size q = (hh + Suc i) mod size q" for i
    by (cases "hh + 1 = size q") (simp_all add: hh'(1), metis add_Suc_right mod_add_self1 plus_1_eq_Suc add.commute)
  have slots: "slot q h' i = slot q h (Suc i)" for i by (simp add: slot_def mods hh_def)
  have ex: "expected q h' i = expected q h (Suc i)" if "i < size q" for i
    using hh'(1,2) that hh by (auto simp: expected_def hh_def [symmetric])
  have "phase_bit (slot q h' i) = (expected q h' i = (i < length xs))" if i: "i < size q" for i
  proof (cases "Suc i = size q")
    case True
    have "slot q h (Suc i) = slot q h 0" using True by (simp add: slot_def)
    then have "slot q h' i = slot q h 0" by (simp only: slots)
    moreover have "expected q h (Suc i) \<noteq> expected q h 0" using True hh by (auto simp: expected_def hh_def [symmetric])
    moreover have "\<not> i < length xs" using True d(5) by simp
    ultimately show ?thesis using d(9) [OF size(1)] ex [OF i] by auto
  next
    case False
    then show ?thesis using d(9) [of "Suc i"] i by (simp add: slots ex)
  qed
  moreover have "head q = (unat (nq_cq_head h') + length xs) mod size q" using d(6) mods by (simp add: hh_def)
  moreover have "ph q = expected q h' (length xs)" using d(5,7) ex by simp
  moreover have "\<forall>i < length xs. slot q h' i = xs ! i" using d(8) by (auto simp: slots)
  ultimately show "synced q (nvme_update_cq_head h) xs"
    using d(1,5) hh' hh unfolding synced_def h'_def [symmetric] by auto
qed

lemma process_synced:
  assumes "synced q h xs" "length xs < fuel"
  shows "\<exists>h'. nvme_process_cq fuel (mem q) h = Inr (xs, h') \<and> synced q h' []"
  using assms
proof (induction xs arbitrary: h fuel)
  case Nil
  then obtain k where k: "fuel = Suc k" by (cases fuel) auto
  note d = syncedD [OF Nil(1)]
  have "nvme_cqe_pending (mem q) h = Inr False"
    using phase_pending(2) [OF d(1,3,4)] d(9) [of 0] d(3) by (simp add: expected_def)
  then show ?case using Nil(1) k by simp
next
  case (Cons x xs)
  then obtain k where k: "fuel = Suc k" "length xs < k" by (cases fuel) auto
  obtain h' where "nvme_process_cq k (mem q) (nvme_update_cq_head h) = Inr (xs, h')" "synced q h' []"
    using Cons.IH [OF synced_pop(3) [OF Cons.prems(1)] k(2)] by blast
  then show ?case using synced_pop(1,2) [OF Cons.prems(1)] k(1) by simp
qed

lemma ring_run_synced:
  assumes "synced q h xs" "ring_room (size q) (length xs) acts" "size q < fuel"
  shows "\<exists>seen q' h' rest ys. ring_run post mem fuel acts q h = Inr (seen, q', h') \<and> synced q' h' rest
    \<and> seen @ rest = xs @ ys \<and> list_all2 (\<lambda>e w. \<exists>b. e = cqe w b) ys (ring_puts acts)
    \<and> (acts \<noteq> [] \<and> last acts = Poll \<longrightarrow> rest = [])"
  using assms
proof (induction acts arbitrary: q h xs)
  case (Cons a acts)
  show ?case
  proof (cases a)
    case (Put w)
    obtain q1 where q1: "post w q = Inr q1" "synced q1 h (xs @ [cqe w (ph q)])" "size q1 = size q"
      using synced_post [OF Cons.prems(1)] Cons.prems(2) Put by auto
    have "ring_room (size q1) (length (xs @ [cqe w (ph q)])) acts" "size q1 < fuel"
      using Cons.prems(2,3) Put q1(3) by simp_all
    from Cons.IH [OF q1(2) this]
    obtain seen q' h' rest ys where "ring_run post mem fuel acts q1 h = Inr (seen, q', h')" "synced q' h' rest"
      "seen @ rest = (xs @ [cqe w (ph q)]) @ ys" "list_all2 (\<lambda>e w. \<exists>b. e = cqe w b) ys (ring_puts acts)"
      "acts \<noteq> [] \<and> last acts = Poll \<longrightarrow> rest = []"
      by blast
    then show ?thesis using q1(1) Put
      by (intro exI [of _ seen] exI [of _ q'] exI [of _ h'] exI [of _ rest] exI [of _ "cqe w (ph q) # ys"]) auto
  next
    case Poll
    have "length xs < fuel" using syncedD(5) [OF Cons.prems(1)] Cons.prems(3) by linarith
    from process_synced [OF Cons.prems(1) this]
    obtain h1 where h1: "nvme_process_cq fuel (mem q) h = Inr (xs, h1)" "synced q h1 []" by blast
    have "ring_room (size q) (length []) acts" using Cons.prems(2) Poll by simp
    from Cons.IH [OF h1(2) this Cons.prems(3)]
    obtain seen q' h' rest ys where "ring_run post mem fuel acts q h1 = Inr (seen, q', h')" "synced q' h' rest"
      "seen @ rest = [] @ ys" "list_all2 (\<lambda>e w. \<exists>b. e = cqe w b) ys (ring_puts acts)"
      "acts \<noteq> [] \<and> last acts = Poll \<longrightarrow> rest = []"
      by blast
    then show ?thesis using h1(1) Poll
      by (intro exI [of _ "xs @ seen"] exI [of _ q'] exI [of _ h'] exI [of _ rest] exI [of _ ys]) auto
  qed
qed auto

lemma ring_fresh:
  assumes "wf q" "head q = 0" "ph q" "\<And>i. i < size q \<Longrightarrow> \<not> phase_bit (mem q ! i)"
    "nq_cq_head h = 0" "nq_cq_phase h = 1" "unat (nq_q_depth h) = size q"
    "ring_room (size q) 0 acts" "size q < fuel" "acts \<noteq> []" "last acts = Poll"
  shows "\<exists>seen q' h'. ring_run post mem fuel acts q h = Inr (seen, q', h')
    \<and> list_all2 (\<lambda>e w. \<exists>b. e = cqe w b) seen (ring_puts acts)"
proof -
  have "synced q h []"
    using assms(1-7) bounds [OF assms(1)] by (auto simp: synced_def expected_def slot_def)
  from ring_run_synced [OF this _ assms(9), of acts] show ?thesis using assms(8,10,11) by auto
qed

end

lemma phase_bit_iff: "phase_bit e \<longleftrightarrow> bit (ce_status e) 0"
  by (simp add: phase_bit_def and_one_eq mod_2_eq_odd bit_0)

definition cq_wf :: "completion_queue \<Rightarrow> bool" where
  "cq_wf cq \<longleftrightarrow> 0 \<le> cq_cq_head cq \<and> cq_cq_head cq < cq_queue_size cq \<and> cq_queue_size cq \<le> int (length (cq_cq cq))
     \<and> cq_queue_size cq < 65536 \<and> (cq_phase cq = 0 \<or> cq_phase cq = 1)"

definition aq_wf :: "admin_queue \<Rightarrow> bool" where
  "aq_wf aq \<longleftrightarrow> 0 \<le> aq_cq_head aq \<and> aq_cq_head aq < aq_cq_depth aq \<and> aq_cq_depth aq \<le> int (length (aq_nvme_cq aq))
     \<and> aq_cq_depth aq < 65536 \<and> (aq_phase aq = 0 \<or> aq_phase aq = 1)"

lemma bit_status_phase: "bit (ucast ((word_of_int (if b then 1 else 0) :: u32) OR push_bit 1 s) :: u16) 0 = b"
proof -
  have "\<not> bit (push_bit 1 s) 0" unfolding bit_push_bit_iff by simp
  then show ?thesis by (cases b) (simp_all only: bit_unsigned_iff bit_or_iff if_True if_False word_of_int_0 word_of_int_1 bit_1_iff, simp_all)
qed

lemma cqe_of_phase: "phase_bit (cqe_of w (if b then 1 else 0)) = b"
  unfolding phase_bit_iff cqe_of_def by (simp only: nvme_completion.simps bit_status_phase)

lemma admin_cqe_phase: "phase_bit (admin_cqe r (if b then 1 else 0)) = b"
  unfolding phase_bit_iff by (cases r) (simp only: admin_cqe.simps nvme_completion.simps bit_status_phase)

lemma fill_cq_result_ok:
  assumes "cq_wf cq"
  shows "\<exists>cq'. fill_cq_result w cq = Inr cq' \<and> cq_wf cq' \<and> nat (cq_queue_size cq') = nat (cq_queue_size cq)
    \<and> cq_cq cq' = (cq_cq cq)[nat (cq_cq_head cq) := cqe_of w (if cq_phase cq = 1 then 1 else 0)]
    \<and> nat (cq_cq_head cq') = (if nat (cq_cq_head cq) + 1 = nat (cq_queue_size cq) then 0 else nat (cq_cq_head cq) + 1)
    \<and> (cq_phase cq' = 1) = ((cq_phase cq = 1) \<noteq> (nat (cq_cq_head cq) + 1 = nat (cq_queue_size cq)))"
  using assms
  by (auto simp: fill_cq_result_def fill_cq_locked_def entry_at_def cq_wf_def Let_def nat_less_iff)

lemma make_cq_entry_results_ok:
  assumes "aq_wf aq"
  shows "\<exists>aq'. make_cq_entry_results r aq = Inr aq' \<and> aq_wf aq' \<and> nat (aq_cq_depth aq') = nat (aq_cq_depth aq)
    \<and> aq_nvme_cq aq' = (aq_nvme_cq aq)[nat (aq_cq_head aq) := admin_cqe r (if aq_phase aq = 1 then 1 else 0)]
    \<and> nat (aq_cq_head aq') = (if nat (aq_cq_head aq) + 1 = nat (aq_cq_depth aq) then 0 else nat (aq_cq_head aq) + 1)
    \<and> (aq_phase aq' = 1) = ((aq_phase aq = 1) \<noteq> (nat (aq_cq_head aq) + 1 = nat (aq_cq_depth aq)))"
  using assms
  by (auto simp: make_cq_entry_results_def entry_at_def aq_wf_def Let_def nat_less_iff)

interpretation io_cq: phase_ring cq_wf "\<lambda>cq. nat (cq_queue_size cq)" "\<lambda>cq. nat (cq_cq_head cq)" "\<lambda>cq. cq_phase cq = 1"
  cq_cq fill_cq_result "\<lambda>w b. cqe_of w (if b then 1 else 0)"
proof (unfold_locales, goal_cases)
  case (1 q)
  then show ?case by (auto simp: cq_wf_def nat_less_iff nat_le_iff)
next
  case (2 q w)
  then show ?case by (rule fill_cq_result_ok)
next
  case (3 w b)
  then show ?case by (rule cqe_of_phase)
qed

interpretation admin_cq: phase_ring aq_wf "\<lambda>aq. nat (aq_cq_depth aq)" "\<lambda>aq. nat (aq_cq_head aq)" "\<lambda>aq. aq_phase aq = 1"
  aq_nvme_cq make_cq_entry_results "\<lambda>r b. admin_cqe r (if b then 1 else 0)"
proof (unfold_locales, goal_cases)
  case (1 q)
  then show ?case by (auto simp: aq_wf_def nat_less_iff nat_le_iff)
next
  case (2 q w)
  then show ?case by (rule make_cq_entry_results_ok)
next
  case (3 w b)
  then show ?case by (rule admin_cqe_phase)
qed

section \<open>Properties\<close>

lemma create_cq_fresh:
  assumes "admin_create_cq cqid flags qsize prp dev = Inr dev'" "unat qsize < 65535"
    "NR_CQE_PER_PAGE * ((unat qsize + 256) div 256) \<le> length prp"
  shows "\<exists>cq. nd_cqes dev' ! unat cqid = Some cq \<and> cq_wf cq \<and> cq_queue_size cq = int (unat qsize) + 1 \<and> cq_cq_head cq = 0
    \<and> cq_phase cq = 1 \<and> cq_cq cq = take (NR_CQE_PER_PAGE * ((unat qsize + 256) div 256)) prp"
proof -
  have u: "uint qsize = int (unat qsize)" by simp
  have "(16 * unat qsize + 4111) div (16 * 256) = (16 * unat qsize + 4111) div 16 div 256" by (rule div_mult2_eq)
  then have pages: "(nat (int (unat qsize) + 1) * 16 + 4095) div 4096 = (unat qsize + 256) div 256"
    by (simp add: nat_add_distrib add.commute mult.commute)
  have ge: "unat qsize + 1 \<le> 256 * ((unat qsize + 256) div 256)" by linarith
  have small: "uint qsize < 65535" "uint qsize + 1 \<le> 256 * int ((unat qsize + 256) div 256)"
    using assms(2) ge u by linarith+
  show ?thesis
    using assms ge small unfolding admin_create_cq_def u Let_def pages
    by (auto simp: set_queue_def cq_wf_def NR_CQE_PER_PAGE_def bindR_eq_Inr mult.commute split: if_splits)
qed

text \<open>
  \<^bold>\<open>C13.\<close>  A completion queue created on zeroed memory delivers: in whatever way the workers' completions and the
  host driver's polls alternate, as long as no more completions are outstanding than the queue has
  entries, the driver handles exactly the completions that were posted, in order and each once, and its
  loop ends.
\<close>

theorem cq_host_roundtrip:
  assumes "admin_create_cq cqid flags qsize prp dev = Inr dev'" "unat qsize < 65535"
    "NR_CQE_PER_PAGE * ((unat qsize + 256) div 256) \<le> length prp" "\<forall>i < unat qsize + 1. \<not> phase_bit (prp ! i)"
    "nd_cqes dev' ! unat cqid = Some cq" "ring_room (unat qsize + 1) 0 acts" "acts \<noteq> []" "last acts = Poll"
  shows "\<exists>seen cq' h'. ring_run fill_cq_result cq_cq (unat qsize + 2) acts cq (nvme_init_queue (ucast qsize + 1)) = Inr (seen, cq', h')
    \<and> list_all2 (\<lambda>e w. \<exists>phase. e = cqe_of w phase) seen (ring_puts acts)"
proof -
  have cq: "cq_wf cq" "cq_queue_size cq = int (unat qsize) + 1" "cq_cq_head cq = 0" "cq_phase cq = 1"
    "cq_cq cq = take (NR_CQE_PER_PAGE * ((unat qsize + 256) div 256)) prp"
    using create_cq_fresh [OF assms(1-3)] assms(5) by auto
  have size: "nat (cq_queue_size cq) = unat qsize + 1" using cq(2) by (simp add: nat_add_distrib)
  have ge: "unat qsize + 1 \<le> NR_CQE_PER_PAGE * ((unat qsize + 256) div 256)" unfolding NR_CQE_PER_PAGE_def by linarith
  have "\<not> phase_bit (cq_cq cq ! i)" if "i < nat (cq_queue_size cq)" for i
    using assms(4) ge that unfolding size cq(5) by simp
  note zero = this
  have "unat (ucast qsize + 1 :: u32) = unat qsize + 1"
    using assms(2) by (simp add: unat_word_ariths(1) unat_ucast_16_32)
  then have depth: "unat (nq_q_depth (nvme_init_queue (ucast qsize + 1))) = nat (cq_queue_size cq)"
    by (simp add: nvme_init_queue_def size)
  have "\<exists>seen q' h'. ring_run fill_cq_result cq_cq (unat qsize + 2) acts cq (nvme_init_queue (ucast qsize + 1)) = Inr (seen, q', h')
    \<and> list_all2 (\<lambda>e w. \<exists>b. e = cqe_of w (if b then 1 else 0)) seen (ring_puts acts)"
    by (rule io_cq.ring_fresh [OF cq(1) _ _ zero _ _ depth])
      (use assms(6-8) size cq(3,4) in \<open>simp_all add: nvme_init_queue_def\<close>)
  then show ?thesis by (fast elim: list_all2_mono)
qed

text \<open>
  \<^bold>\<open>C16.\<close>  \<^verbatim>\<open>__fill_cq_result\<close> reads the head before it takes \<^verbatim>\<open>entry_lock\<close>.  When two workers read it before either
  holds the lock, the second overwrites the entry of the first and the head moves on by one only: the
  first completion is lost.  At the end of the queue the phase is in addition flipped twice, so the host no
  longer recognises new entries.
\<close>

theorem cq_head_race:
  assumes "cq_wf cq" "head = cq_cq_head cq"
  shows "\<exists>cq1 cq2. fill_cq_locked w1 head cq = Inr cq1 \<and> fill_cq_locked w2 head cq1 = Inr cq2
    \<and> cq_cq cq2 = (cq_cq cq)[nat head := cqe_of w2 (cq_phase cq1)]
    \<and> (if head + 1 = cq_queue_size cq then cq_cq_head cq2 = 0 \<and> cq_phase cq2 = cq_phase cq
       else cq_cq_head cq2 = head + 1 \<and> cq_phase cq2 = cq_phase cq)"
  using assms by (auto simp: fill_cq_locked_def entry_at_def cq_wf_def Let_def)

subsection \<open>Completion doorbells\<close>

lemma cq_loop_steps:
  assumes "\<forall>e \<in> set (cq_cq cq). unat (ce_sq_id e) < length sqes" "int i + int k \<le> cq_queue_size cq"
    "cq_queue_size cq \<le> int (length (cq_cq cq))" "new_db < int i \<or> int i + int k \<le> new_db"
  shows "\<exists>sqes'. cq_loop (k + fuel) cq new_db (int i) sqes = cq_loop fuel cq new_db (int (i + k)) sqes' \<and> length sqes' = length sqes"
  using assms
proof (induction k arbitrary: i sqes)
  case (Suc k)
  have i: "i < length (cq_cq cq)" "int i < cq_queue_size cq" "int i \<noteq> new_db" using Suc.prems(2-4) by auto
  define e where "e = cq_cq cq ! i"
  have e: "unat (ce_sq_id e) < length sqes" using Suc.prems(1) i(1) by (simp add: e_def)
  define sqes1 where "sqes1 = sqes[unat (ce_sq_id e) := map_option one_less_in_flight (sqes ! unat (ce_sq_id e))]"
  have "cq_loop (Suc k + fuel) cq new_db (int i) sqes = cq_loop (k + fuel) cq new_db (int (Suc i)) sqes1"
    using i e by (simp add: entry_at_def e_def [symmetric] sqes1_def add.commute)
  moreover obtain sqes' where "cq_loop (k + fuel) cq new_db (int (Suc i)) sqes1 = cq_loop fuel cq new_db (int (Suc i + k)) sqes'"
    "length sqes' = length sqes1"
    using Suc.IH [of sqes1 "Suc i"] Suc.prems by (auto simp: sqes1_def)
  ultimately show ?case by (auto simp: sqes1_def)
qed auto

lemma page_end: "n < 256 * ((n + 255) div 256) \<longleftrightarrow> n mod 256 \<noteq> 0" for n :: nat
proof -
  define m b where "m = n div 256" and "b = n mod 256"
  have n: "n = 256 * m + b" "b < 256" by (simp_all add: m_def b_def)
  have "(n + 255) div 256 = m + (b + 255) div 256" unfolding n(1) by simp
  moreover have "(b + 255) div 256 = 0 \<longleftrightarrow> b = 0" using n(2) by (auto simp: div_eq_0_iff)
  moreover have "n < 256 * (m + k) \<longleftrightarrow> k \<noteq> 0" for k using n by (cases k) auto
  ultimately show ?thesis unfolding b_def by metis
qed

text \<open>
  \<^bold>\<open>C17.\<close>  The doorbell handler of a completion queue returns when the host's head has not wrapped around.  When it has,
  the handler reads the entry with index \<^verbatim>\<open>queue_size\<close>, before it compares the index with the queue size:
  for queues that fill whole pages, every multiple of 256 entries, that is past the mapped memory.
\<close>

theorem proc_io_cq_wrap:
  assumes "cq_queue_size cq = int n" "0 < n" "length (cq_cq cq) = NR_CQE_PER_PAGE * ((n + 255) div 256)"
    "\<forall>e \<in> set (cq_cq cq). unat (ce_sq_id e) < length sqes" "new_db < n" "old_db < n"
  shows "if old_db \<le> new_db \<or> n mod 256 \<noteq> 0 then \<exists>r. nvmev_proc_io_cq cq (int new_db) (int old_db) sqes = Inr r
    else nvmev_proc_io_cq cq (int new_db) (int old_db) sqes = Inl Out_of_bounds"
proof -
  have ge: "int n \<le> int (length (cq_cq cq))" unfolding assms(3) NR_CQE_PER_PAGE_def by linarith
  note steps = cq_loop_steps [where cq = cq and new_db = "int new_db", unfolded assms(1), OF _ _ ge]
  show ?thesis
  proof (cases "old_db \<le> new_db")
    case True
    define f where "f = n + 1 - (new_db - old_db)"
    have f: "n + 2 = (new_db - old_db) + Suc f" using assms(5) by (simp add: f_def)
    obtain sqes' where "cq_loop ((new_db - old_db) + Suc f) cq (int new_db) (int old_db) sqes =
        cq_loop (Suc f) cq (int new_db) (int (old_db + (new_db - old_db))) sqes'"
      using steps [OF assms(4), of old_db "new_db - old_db" "Suc f"] assms(5) True by auto
    then show ?thesis using True f by (simp add: nvmev_proc_io_cq_def assms(1))
  next
    case False
    define f where "f = old_db + 1"
    have f: "n + 2 = (n - old_db) + Suc f" "f = new_db + Suc (old_db - new_db)" using False assms(6) by (auto simp: f_def)
    obtain sqes' where s: "cq_loop ((n - old_db) + Suc f) cq (int new_db) (int old_db) sqes =
        cq_loop (Suc f) cq (int new_db) (int (old_db + (n - old_db))) sqes'" "length sqes' = length sqes"
      using steps [OF assms(4), of old_db "n - old_db" "Suc f"] assms(6) False by auto
    have n: "int (old_db + (n - old_db)) = int n" using assms(6) by simp
    have page: "n < length (cq_cq cq) \<longleftrightarrow> n mod 256 \<noteq> 0" 
      unfolding assms(3) NR_CQE_PER_PAGE_def by (rule page_end)
    obtain sqes'' where t: "cq_loop (new_db + Suc (old_db - new_db)) cq (int new_db) (int 0) sqes' =
        cq_loop (Suc (old_db - new_db)) cq (int new_db) (int (0 + new_db)) sqes''"
      using steps [OF assms(4) [folded s(2)], of 0 new_db "Suc (old_db - new_db)"] assms(5) by auto
    have "cq_loop (n + 2) cq (int new_db) (int old_db) sqes = (if n mod 256 \<noteq> 0 then Inr sqes'' else Inl Out_of_bounds)"
    proof -
      have "cq_loop (Suc f) cq (int new_db) (int n) sqes' =
          (if n < length (cq_cq cq) then cq_loop f cq (int new_db) 0 sqes' else Inl Out_of_bounds)"
        using assms(5) by (auto simp: entry_at_def assms(1))
      moreover have "cq_loop f cq (int new_db) 0 sqes' = Inr sqes''" using t by (simp add: f(2))
      ultimately show ?thesis unfolding f(1) s(1) n page by simp
    qed
    then show ?thesis using False by (simp add: nvmev_proc_io_cq_def assms(1))
  qed
qed

subsection \<open>Submission doorbells\<close>

text \<open>Reclaiming on all workers is a sequence of steps of the system.\<close>

lemma reclaim_each_reach:
  assumes "io_reach env n nr s" "0 < n" "0 < nr" "dv_workers (sy_dev s) = done_ws @ ws"
  shows "\<exists>s' ws'. io_reach env n nr s' \<and> reclaim_each ws = Inr ws' \<and> sy_dev s' = (sy_dev s)\<lparr>dv_workers := done_ws @ ws'\<rparr>"
  using assms
proof (induction ws arbitrary: s done_ws)
  case Nil
  then show ?case by (intro exI [of _ s] exI [of _ "[]"]) simp
next
  case (Cons w ws)
  let ?t = "length done_ws"
  have t: "?t < nr" "dv_workers (sy_dev s) ! ?t = w"
    using io_reach_ok [OF Cons.prems(1-3)] Cons.prems(4) by (auto simp: sys_ok_def all_ok_def)
  obtain w' where w': "reclaim_worker w = Inr w'"
    using wsys_ok_reclaim [OF all_okD(2) [OF io_reach_ok [OF Cons.prems(1-3), unfolded sys_ok_def] t(1)]] t(2) by auto
  define s1 where "s1 = s\<lparr>sy_dev := (sy_dev s)\<lparr>dv_workers := done_ws @ w' # ws\<rparr>\<rparr>"
  have "io_exec env (Reclaim ?t) s = Inr s1" using w' t(2) Cons.prems(4) by (simp add: s1_def)
  then have s1: "io_reach env n nr s1" using io_reach.step [OF Cons.prems(1), of "Reclaim ?t"] t(1) by simp
  obtain s' ws' where "io_reach env n nr s'" "reclaim_each ws = Inr ws'" "sy_dev s' = (sy_dev s1)\<lparr>dv_workers := (done_ws @ [w']) @ ws'\<rparr>"
    using Cons.IH [OF s1 Cons.prems(2,3), of "done_ws @ [w']"] by (auto simp: s1_def)
  then show ?case using w' by (intro exI [of _ s'] exI [of _ "w' # ws'"]) (simp add: s1_def)
qed

lemma reclaim_completed_reach:
  assumes "io_reach env n nr s" "0 < n" "0 < nr"
  shows "\<exists>s'. io_reach env n nr s' \<and> reclaim_completed_reqs (sy_dev s) = Inr (sy_dev s')"
  using reclaim_each_reach [OF assms, of "[]" "dv_workers (sy_dev s)"] by (auto simp: reclaim_completed_reqs_def)

lemma enqueue_reach:
  assumes "io_reach env n nr s" "0 < n" "0 < nr"
  shows "\<exists>r s'. io_reach env n nr s' \<and> enqueue_io_req sqid cqid sqe cid start now ret (sy_dev s) = Inr (r, sy_dev s')"
proof -
  obtain s' where s': "io_exec env (Request sqid cqid sqe cid start now ret) s = Inr s'"
    using io_exec_ok [OF io_reach_ok [OF assms] assms(3), of "Request sqid cqid sqe cid start now ret" env] by auto
  then have "io_reach env n nr s'" using io_reach.step [OF assms(1), of "Request sqid cqid sqe cid start now ret"] by simp
  moreover obtain r where "enqueue_io_req sqid cqid sqe cid start now ret (sy_dev s) = Inr (r, sy_dev s')"
    using s' by (auto simp: bindR_eq_Inr split: option.splits prod.splits)
  ultimately show ?thesis by blast
qed

text \<open>Releasing buffers is a sequence of steps of the system too, and never fails.\<close>

fun is_release :: "internal_op \<Rightarrow> bool" where
  "is_release (Release_buffer sqid rnd now target wb n) \<longleftrightarrow> True"
| "is_release (Run_callback sqid rnd start mem ppa len cb args rd cb_w) \<longleftrightarrow> False"

definition only_releases :: "'s proc_cmd \<Rightarrow> bool" where
  "only_releases p \<longleftrightarrow> (\<forall>cmd sqid now ret ftl. case p cmd sqid now ret ftl of (_, _, ops, _) \<Rightarrow> list_all is_release ops)"

lemma schedule_reach:
  assumes "io_reach env n nr s" "0 < n" "0 < nr" "list_all is_release ops"
  shows "\<exists>s'. io_reach env n nr s' \<and> schedule_ops ops (sy_dev s) = Inr (sy_dev s')"
  using assms(1,4)
proof (induction ops arbitrary: s)
  case (Cons op ops)
  then obtain sqid rnd now target wb m where op: "op = Release_buffer sqid rnd now target wb m" by (cases op) auto
  obtain s1 where s1: "io_exec env (Internal sqid rnd now target wb m) s = Inr s1"
    using io_exec_ok [OF io_reach_ok [OF Cons.prems(1) assms(2,3)] assms(3), of "Internal sqid rnd now target wb m" env] by auto
  then have "io_reach env n nr s1" using io_reach.step [OF Cons.prems(1), of "Internal sqid rnd now target wb m"] by simp
  moreover have "schedule_internal_operation sqid rnd now target wb m (sy_dev s) = Inr (sy_dev s1)"
    using s1 by (auto simp: bindR_eq_Inr)
  ultimately show ?case using Cons.IH [of s1] Cons.prems(2) op by auto
qed auto

text \<open>What the commands of a queue do to the namespace, up to the first one it does not accept.\<close>

fun serve :: "'s proc_cmd \<Rightarrow> (nat \<Rightarrow> u64 \<times> u64) \<Rightarrow> int \<Rightarrow> nvme_command list \<Rightarrow> nat \<Rightarrow> 's \<Rightarrow> nat \<times> 's" where
  "serve proc_io_cmd clock sqid [] seq ftl = (seq, ftl)"
| "serve proc_io_cmd clock sqid (cmd # cmds) seq ftl =
     (let (accepted, ret, ops, ftl) = proc_io_cmd cmd sqid (fst (clock seq))
            \<lparr>r_status = 0, r_nsecs_target = fst (clock seq), r_cb = None, r_args = None\<rparr> ftl in
      if accepted then serve proc_io_cmd clock sqid cmds (seq + 1) ftl else (seq, ftl))"

lemma serve_bound: "serve p clock sqid cmds seq ftl = (k, ftl') \<Longrightarrow> seq \<le> k \<and> k \<le> seq + length cmds"
proof (induction cmds arbitrary: seq ftl)
  case (Cons cmd cmds)
  then show ?case by (fastforce simp: Let_def split: prod.splits if_splits)
qed simp

lemma nvmev_proc_io_reach:
  assumes "io_reach env n nr s" "0 < n" "0 < nr" "0 \<le> e" "nat e < length (sq_sq sq)"
    "p (sq_sq sq ! nat e) sqid now \<lparr>r_status = 0, r_nsecs_target = now, r_cb = None, r_args = None\<rparr> ftl = (accepted, ret, ops, ftl')"
    "list_all is_release ops"
  shows "\<exists>s' io_size. io_reach env n nr s' \<and> (io_size \<noteq> None) = accepted
    \<and> nvmev_proc_io p now enq sqid sq e (sy_dev s, ftl) = Inr (io_size, sy_dev s', ftl')"
proof -
  obtain s0 where s0: "io_reach env n nr s0" "schedule_ops ops (sy_dev s) = Inr (sy_dev s0)"
    using schedule_reach [OF assms(1-3,7)] by blast
  show ?thesis
  proof (cases accepted)
    case True
    define cmd where "cmd = sq_sq sq ! nat e"
    obtain r s1 where s1: "io_reach env n nr s1"
      "enqueue_io_req sqid (sq_cqid sq) e (ucast (nc_command_id cmd)) now enq ret (sy_dev s0) = Inr (r, sy_dev s1)"
      using enqueue_reach [OF s0(1) assms(2,3)] by blast
    obtain s2 where "io_reach env n nr s2" "reclaim_completed_reqs (sy_dev s1) = Inr (sy_dev s2)"
      using reclaim_completed_reach [OF s1(1) assms(2,3)] by blast
    then show ?thesis using s0(2) s1(2) True assms(4-6)
      by (intro exI [of _ s2] exI [of _ "Some _"]) (simp add: nvmev_proc_io_def entry_at_def cmd_def)
  next
    case False
    then show ?thesis using s0 assms(4-6) by (intro exI [of _ s0] exI [of _ None]) (simp add: nvmev_proc_io_def entry_at_def)
  qed
qed

lemma sq_loop_serves:
  assumes "io_reach env n nr s" "0 < n" "0 < nr" "sq_queue_size sq = int m" "m \<le> length (sq_sq sq)" "e < m"
    "cmds = map (\<lambda>j. sq_sq sq ! ((e + j) mod m)) [0..<left]" "serve p clock sqid cmds seq ftl = (k, ftl')"
    "only_releases p"
  shows "\<exists>s' sq'. io_reach env n nr s' \<and> sq_loop p clock sqid left seq (int e) sq (sy_dev s, ftl) = Inr (k, sq', sy_dev s', ftl')
    \<and> sq_queue_size sq' = int m \<and> st_nr_in_flight (sq_stat sq') = st_nr_in_flight (sq_stat sq) + of_nat (k - seq)"
  using assms
proof (induction left arbitrary: seq e sq s ftl cmds)
  case 0
  then show ?case by (intro exI [of _ s] exI [of _ sq]) simp
next
  case (Suc left)
  define e' where "e' = (if e + 1 = m then 0 else e + 1)"
  have e': "e' < m" "(e' + j) mod m = (e + Suc j) mod m" for j
    using Suc.prems(6) by (auto simp: e'_def) (metis add_Suc mod_add_self1)
  have cmds: "cmds = sq_sq sq ! e # map (\<lambda>j. sq_sq sq ! ((e' + j) mod m)) [0..<left]"
    using Suc.prems(6,7) by (simp add: map_upt_Suc e'(2) del: upt_Suc)
  obtain accepted ret ops ftl1 where p: "p (sq_sq sq ! nat (int e)) sqid (fst (clock seq))
      \<lparr>r_status = 0, r_nsecs_target = fst (clock seq), r_cb = None, r_args = None\<rparr> ftl = (accepted, ret, ops, ftl1)"
    by (metis prod_cases4)
  have rel: "list_all is_release ops"
    using Suc.prems(9) p unfolding only_releases_def by (metis (mono_tags, lifting) case_prod_conv)
  obtain s1 io_size where s1: "io_reach env n nr s1" "(io_size \<noteq> None) = accepted"
    "nvmev_proc_io p (fst (clock seq)) (snd (clock seq)) sqid sq (int e) (sy_dev s, ftl) = Inr (io_size, sy_dev s1, ftl1)"
    using nvmev_proc_io_reach [where p = p, OF Suc.prems(1-3), of "int e" sq sqid "fst (clock seq)" ftl accepted ret ops ftl1 "snd (clock seq)"]
      p rel Suc.prems(5,6) by auto
  show ?case
  proof (cases io_size)
    case None
    then show ?thesis using s1 p Suc.prems(4,8) cmds by (intro exI [of _ s1] exI [of _ sq]) auto
  next
    case (Some sz)
    define sq1 where "sq1 = sq\<lparr>sq_stat := (sq_stat sq)\<lparr>st_nr_dispatched := st_nr_dispatched (sq_stat sq) + 1,
                st_nr_in_flight := st_nr_in_flight (sq_stat sq) + 1, st_total_io := st_total_io (sq_stat sq) + sz\<rparr>\<rparr>"
    have srv: "serve p clock sqid (map (\<lambda>j. sq_sq sq1 ! ((e' + j) mod m)) [0..<left]) (seq + 1) ftl1 = (k, ftl')"
      using Suc.prems(8) cmds p s1(2) Some by (simp add: sq1_def)
    obtain s' sq' where r: "io_reach env n nr s'" "sq_loop p clock sqid left (seq + 1) (int e') sq1 (sy_dev s1, ftl1) = Inr (k, sq', sy_dev s', ftl')"
      "sq_queue_size sq' = int m" "st_nr_in_flight (sq_stat sq') = st_nr_in_flight (sq_stat sq1) + of_nat (k - (seq + 1))"
      using Suc.IH [OF s1(1) Suc.prems(2,3) _ _ e'(1) refl srv Suc.prems(9)] Suc.prems(4,5) by (auto simp: sq1_def)
    have step: "(if int e + 1 = sq_queue_size sq then 0 else int e + 1) = int e'" using Suc.prems(4) by (auto simp: e'_def)
    have "seq + 1 \<le> k" using serve_bound [OF srv] by simp
    then have "k - seq = Suc (k - (seq + 1))" by simp
    then show ?thesis using r s1(3) Some step
      by (intro exI [of _ s'] exI [of _ sq']) (simp add: sq1_def [symmetric], simp add: sq1_def)
  qed
qed

text \<open>
  \<^bold>\<open>C14.\<close>  Ringing the doorbell of a submission queue hands the commands between the old and the new tail to the
  namespace in ring order, up to the first one it does not accept, and the handler returns: the new position
  is behind the commands that were accepted, which is the new tail when all were.  The handler may schedule the release of
  write buffers on the workers; a scheduled callback could find the worker's queue full, which is a \<^verbatim>\<open>BUG_ON\<close>.
\<close>

theorem proc_io_sq_in_order:
  assumes "io_reach env n nr s" "0 < n" "0 < nr" "sq_queue_size sq = int m" "m \<le> length (sq_sq sq)" "old_db < m" "new_db < m"
    "num = (new_db + (m - old_db)) mod m" "cmds = map (\<lambda>j. sq_sq sq ! ((old_db + j) mod m)) [0..<num]"
    "serve p clock sqid cmds 0 ftl = (k, ftl')" "only_releases p"
  shows "\<exists>sq' s'. nvmev_proc_io_sq p clock sqid (int new_db) (int old_db) (Some sq) (sy_dev s, ftl) =
      Inr (int ((old_db + k) mod m), Some sq', sy_dev s', ftl') \<and> io_reach env n nr s'
    \<and> st_nr_in_flight (sq_stat sq') = st_nr_in_flight (sq_stat sq) + of_nat k
    \<and> k \<le> num \<and> (k = num \<longrightarrow> (old_db + k) mod m = new_db)"
proof -
  obtain s' sq' where r: "io_reach env n nr s'" "sq_loop p clock sqid num 0 (int old_db) sq (sy_dev s, ftl) = Inr (k, sq', sy_dev s', ftl')"
    "sq_queue_size sq' = int m" "st_nr_in_flight (sq_stat sq') = st_nr_in_flight (sq_stat sq) + of_nat (k - 0)"
    using sq_loop_serves [OF assms(1-6,9-11)] by blast
  have num: "num = (if old_db \<le> new_db then new_db - old_db else new_db + m - old_db)"
    using assms(6,7) unfolding assms(8) by (auto simp: mod_if)
  have np: "nat (if int new_db - int old_db < 0 then int new_db - int old_db + sq_queue_size sq else int new_db - int old_db) = num"
    using assms(4,6) unfolding num by auto
  define sq2 where "sq2 = sq'\<lparr>sq_stat := (sq_stat sq')\<lparr>st_nr_dispatch := st_nr_dispatch (sq_stat sq') + 1,
      st_max_nr_in_flight := (if st_max_nr_in_flight (sq_stat sq') <s st_nr_in_flight (sq_stat sq')
                              then st_nr_in_flight (sq_stat sq') else st_max_nr_in_flight (sq_stat sq'))\<rparr>\<rparr>"
  have "nvmev_proc_io_sq p clock sqid (int new_db) (int old_db) (Some sq) (sy_dev s, ftl) =
      Inr (int ((old_db + k) mod m), Some sq2, sy_dev s', ftl')"
    unfolding nvmev_proc_io_sq_def option.case Let_def np r(2) using r(3) assms(6) by (simp add: sq2_def zmod_int)
  moreover have "k \<le> num" using serve_bound [OF assms(10)] assms(9) by simp
  moreover have "(old_db + num) mod m = new_db" using assms(6,7) unfolding num by auto
  moreover have "st_nr_in_flight (sq_stat sq2) = st_nr_in_flight (sq_stat sq) + of_nat k" using r(4) by (simp add: sq2_def)
  ultimately show ?thesis using r(1) by blast
qed

subsection \<open>Admin commands\<close>

text \<open>The commands the device can serve: the source checks none of this.\<close>

fun admin_ok :: "u32 \<Rightarrow> admin_cmd \<Rightarrow> bool" where
  "admin_ok nr_ns (Delete_sq qid) \<longleftrightarrow> unat qid \<le> NR_MAX_IO_QUEUE"
| "admin_ok nr_ns (Create_sq sqid cqid flags qsize prp) \<longleftrightarrow> unat sqid \<le> NR_MAX_IO_QUEUE"
| "admin_ok nr_ns (Delete_cq qid) \<longleftrightarrow> unat qid \<le> NR_MAX_IO_QUEUE"
| "admin_ok nr_ns (Create_cq cqid flags qsize prp) \<longleftrightarrow> unat cqid \<le> NR_MAX_IO_QUEUE"
| "admin_ok nr_ns (Identify cns nsid) \<longleftrightarrow> (cns = 0 \<or> cns = 3 \<longrightarrow> 0 < nsid \<and> nsid \<le> nr_ns)"
| "admin_ok nr_ns (Get_log_page lid numdl numdu) \<longleftrightarrow>
     (lid = 2 \<longrightarrow> log_len numdl numdu \<le> 512) \<and> (lid = 5 \<longrightarrow> log_len numdl numdu \<le> 4096)"
| "admin_ok nr_ns _ \<longleftrightarrow> True"

fun admin_status :: "admin_cmd \<Rightarrow> u16" where
  "admin_status (Identify cns nsid) = (if cns \<in> {0, 1, 2, 3} then 0 else 1)"
| "admin_status (Other_admin opcode) = 1"
| "admin_status _ = 0"

definition dev_wf :: "nvme_dev \<Rightarrow> bool" where
  "dev_wf dev \<longleftrightarrow> length (nd_sqes dev) = NR_MAX_IO_QUEUE + 1 \<and> length (nd_cqes dev) = NR_MAX_IO_QUEUE + 1"

lemmas queue_ops = admin_delete_sq_def admin_create_sq_def admin_delete_cq_def admin_create_cq_def set_queue_def

lemma queue_ops_ok:
  assumes "dev_wf dev" "unat qid \<le> NR_MAX_IO_QUEUE"
  shows "\<exists>dev1. admin_delete_sq qid dev = Inr dev1 \<and> dev_wf dev1 \<and> nd_admin_q dev1 = nd_admin_q dev \<and> nd_nr_ns dev1 = nd_nr_ns dev"
    "\<exists>dev1. admin_create_sq qid cqid flags qsize sprp dev = Inr dev1 \<and> dev_wf dev1 \<and> nd_admin_q dev1 = nd_admin_q dev \<and> nd_nr_ns dev1 = nd_nr_ns dev"
    "\<exists>dev1. admin_delete_cq qid dev = Inr dev1 \<and> dev_wf dev1 \<and> nd_admin_q dev1 = nd_admin_q dev \<and> nd_nr_ns dev1 = nd_nr_ns dev"
    "\<exists>dev1. admin_create_cq qid flags qsize cprp dev = Inr dev1 \<and> dev_wf dev1 \<and> nd_admin_q dev1 = nd_admin_q dev \<and> nd_nr_ns dev1 = nd_nr_ns dev"
  using assms by (simp_all add: queue_ops dev_wf_def Let_def)

lemma proc_admin_req_in_range:
  assumes "dev_wf dev" "admin_ok (nd_nr_ns dev) cmd" "cmd \<noteq> Abort_cmd"
  shows "\<exists>dev1 result0. dev_wf dev1 \<and> nd_admin_q dev1 = nd_admin_q dev \<and> nd_nr_ns dev1 = nd_nr_ns dev
    \<and> proc_admin_req eid cid cmd dev = make_cq_entry eid cid (admin_status cmd) result0 dev1"
proof (cases cmd)
  case (Set_features fid dword11)
  have "dev_wf (snd (admin_set_features fid dword11 dev))" "nd_admin_q (snd (admin_set_features fid dword11 dev)) = nd_admin_q dev"
    "nd_nr_ns (snd (admin_set_features fid dword11 dev)) = nd_nr_ns dev"
    using assms(1) by (auto simp: admin_set_features_def dev_wf_def Let_def)
  then show ?thesis using Set_features by (cases "admin_set_features fid dword11 dev") (auto simp: proc_admin_req_def)
next
  case (Delete_sq qid)
  then show ?thesis using queue_ops_ok(1) [OF assms(1), of qid] assms(2)
    by (simp add: proc_admin_req_def) (metis bindR_Inr)
next
  case (Create_sq sqid cqid flags qsize prp)
  then show ?thesis using queue_ops_ok(2) [OF assms(1), of sqid cqid flags qsize prp] assms(2)
    by (simp add: proc_admin_req_def) (metis bindR_Inr)
next
  case (Delete_cq qid)
  then show ?thesis using queue_ops_ok(3) [OF assms(1), of qid] assms(2)
    by (simp add: proc_admin_req_def) (metis bindR_Inr)
next
  case (Create_cq cqid flags qsize prp)
  then show ?thesis using queue_ops_ok(4) [OF assms(1), of cqid flags qsize prp] assms(2)
    by (simp add: proc_admin_req_def) (metis bindR_Inr)
next
  case (Identify cns nsid)
  then have "admin_identify cns nsid dev = Inr (admin_status cmd)"
    using assms(2) by (auto simp: admin_identify_def admin_identify_ns_def assertR_def)
  then show ?thesis using assms(1) Identify by (simp add: proc_admin_req_def) blast
next
  case (Get_log_page lid numdl numdu)
  then have "admin_get_log_page lid numdl numdu = Inr ()" using assms(2) by (auto simp: admin_get_log_page_def assertR_def)
  then show ?thesis using assms(1) Get_log_page by (simp add: proc_admin_req_def) blast
qed (use assms(1,3) in \<open>simp_all add: proc_admin_req_def, blast+\<close>)

text \<open>Every other command makes the device access memory outside its tables.\<close>

lemma proc_admin_req_out_of_range:
  assumes "dev_wf dev" "\<not> admin_ok (nd_nr_ns dev) cmd"
  shows "proc_admin_req eid cid cmd dev = Inl Out_of_bounds"
  using assms by (cases cmd) (auto simp: proc_admin_req_def dev_wf_def queue_ops Let_def admin_identify_def admin_identify_ns_def
    admin_get_log_page_def assertR_def)

lemma make_cq_entry_results_frame:
  "make_cq_entry_results r aq = Inr aq' \<Longrightarrow> aq_sq_depth aq' = aq_sq_depth aq \<and> aq_cq_depth aq' = aq_cq_depth aq"
  by (auto simp: make_cq_entry_results_def bindR_eq_Inr Let_def split: if_splits)

text \<open>What the host learns of a completion: the command and its status code.\<close>

definition answer :: "nvme_completion \<Rightarrow> u16 \<times> u16" where
  "answer e = (ce_command_id e, drop_bit 1 (ce_status e))"

lemma admin_answer: "answer (admin_cqe (eid, cid, admin_status cmd, r0, r1) (if b then 1 else 0)) = (cid, admin_status cmd)"
proof -
  have "admin_status cmd = 0 \<or> admin_status cmd = 1" by (cases cmd) auto
  then show ?thesis by (cases b) (auto simp: answer_def)
qed

definition answered :: "(u16 \<times> admin_cmd) list \<Rightarrow> (u16 \<times> u16) list" where
  "answered cmds = map (\<lambda>(cid, cmd). (cid, admin_status cmd)) (filter (\<lambda>(cid, cmd). cmd \<noteq> Abort_cmd) cmds)"

definition batch :: "nat \<Rightarrow> (u16 \<times> admin_cmd) list \<Rightarrow> nat \<Rightarrow> nat \<Rightarrow> (u16 \<times> admin_cmd) list" where
  "batch m asq old_db new_db = map (\<lambda>j. asq ! ((old_db + j) mod m)) [0..<(new_db + (m - old_db)) mod m]"

lemma admin_req_synced:
  assumes "dev_wf dev" "admin_cq.synced (nd_admin_q dev) h xs" "length xs < nat (aq_cq_depth (nd_admin_q dev))" "admin_ok (nd_nr_ns dev) cmd"
  shows "\<exists>dev1 zs. proc_admin_req e cid cmd dev = Inr dev1 \<and> dev_wf dev1 \<and> admin_cq.synced (nd_admin_q dev1) h (xs @ zs)
      \<and> aq_sq_depth (nd_admin_q dev1) = aq_sq_depth (nd_admin_q dev) \<and> aq_cq_depth (nd_admin_q dev1) = aq_cq_depth (nd_admin_q dev)
      \<and> nd_nr_ns dev1 = nd_nr_ns dev \<and> map answer zs = answered [(cid, cmd)] \<and> length zs \<le> 1"
proof (cases "cmd = Abort_cmd")
  case True
  then show ?thesis using assms(1,2) by (intro exI [of _ dev] exI [of _ "[]"]) (simp add: proc_admin_req_def answered_def)
next
  case False
  obtain dev1 result0 where d1: "dev_wf dev1" "nd_admin_q dev1 = nd_admin_q dev" "nd_nr_ns dev1 = nd_nr_ns dev"
    "proc_admin_req e cid cmd dev = make_cq_entry e cid (admin_status cmd) result0 dev1"
    using proc_admin_req_in_range [OF assms(1,4) False] by blast
  let ?r = "(e, cid, admin_status cmd, result0, 0)" and ?b = "aq_phase (nd_admin_q dev) = 1"
  obtain aq where aq: "make_cq_entry_results ?r (nd_admin_q dev) = Inr aq" "admin_cq.synced aq h (xs @ [admin_cqe ?r (if ?b then 1 else 0)])"
    using admin_cq.synced_post [OF assms(2,3), of ?r] by auto
  have "map answer [admin_cqe ?r (if ?b then 1 else 0)] = answered [(cid, cmd)]"
    using False admin_answer [of e cid cmd result0 0 ?b] by (simp add: answered_def del: admin_cqe.simps)
  then show ?thesis using d1 aq make_cq_entry_results_frame [OF aq(1)]
    by (intro exI [of _ "dev1\<lparr>nd_admin_q := aq\<rparr>"] exI [of _ "[admin_cqe ?r (if ?b then 1 else 0)]"])
      (simp add: make_cq_entry_def dev_wf_def del: admin_cqe.simps)
qed

lemma admin_loop_synced:
  assumes "dev_wf dev" "admin_cq.synced (nd_admin_q dev) h xs" "length xs + left \<le> nat (aq_cq_depth (nd_admin_q dev))"
    "aq_sq_depth (nd_admin_q dev) = int m" "e < m" "m \<le> length asq" "cmds = map (\<lambda>j. asq ! ((e + j) mod m)) [0..<left]"
    "\<forall>(cid, cmd) \<in> set cmds. admin_ok (nd_nr_ns dev) cmd"
  shows "\<exists>dev' ys. admin_loop left asq (int e) dev = Inr dev' \<and> dev_wf dev' \<and> admin_cq.synced (nd_admin_q dev') h (xs @ ys)
    \<and> aq_sq_depth (nd_admin_q dev') = int m \<and> aq_cq_depth (nd_admin_q dev') = aq_cq_depth (nd_admin_q dev)
    \<and> nd_nr_ns dev' = nd_nr_ns dev \<and> map answer ys = answered cmds"
  using assms
proof (induction left arbitrary: dev e xs cmds)
  case 0
  then show ?case by (intro exI [of _ dev] exI [of _ "[]"]) (simp add: answered_def)
next
  case (Suc left)
  obtain cid cmd where c: "asq ! e = (cid, cmd)" by (cases "asq ! e")
  define e' where "e' = (if e + 1 = m then 0 else e + 1)"
  have e': "e' < m" "(e' + j) mod m = (e + Suc j) mod m" for j
    using Suc.prems(5) by (auto simp: e'_def) (metis add_Suc mod_add_self1)
  let ?rest = "map (\<lambda>j. asq ! ((e' + j) mod m)) [0..<left]"
  have cmds: "cmds = (cid, cmd) # ?rest" using Suc.prems(5,7) c by (simp add: map_upt_Suc e'(2) del: upt_Suc)
  have at: "entry_at asq (int e) = Inr (cid, cmd)" using Suc.prems(5,6) c by (simp add: entry_at_def)
  have ok: "admin_ok (nd_nr_ns dev) cmd" "length xs < nat (aq_cq_depth (nd_admin_q dev))" using Suc.prems(3,8) cmds by auto
  obtain dev1 zs where s: "proc_admin_req (int e) cid cmd dev = Inr dev1" "dev_wf dev1" "admin_cq.synced (nd_admin_q dev1) h (xs @ zs)"
      "aq_sq_depth (nd_admin_q dev1) = aq_sq_depth (nd_admin_q dev)" "aq_cq_depth (nd_admin_q dev1) = aq_cq_depth (nd_admin_q dev)"
      "nd_nr_ns dev1 = nd_nr_ns dev" "map answer zs = answered [(cid, cmd)]" "length zs \<le> 1"
    using admin_req_synced [OF Suc.prems(1,2) ok(2,1), of "int e" cid] by blast
  have "length (xs @ zs) + left \<le> nat (aq_cq_depth (nd_admin_q dev1))" "aq_sq_depth (nd_admin_q dev1) = int m"
    "\<forall>(cid, cmd) \<in> set ?rest. admin_ok (nd_nr_ns dev1) cmd" using Suc.prems(3,4,8) s(4-6,8) cmds by auto
  from Suc.IH [OF s(2,3) this(1,2) e'(1) Suc.prems(6) refl this(3)]
  obtain dev' ys where r: "admin_loop left asq (int e') dev1 = Inr dev'" "dev_wf dev'" "admin_cq.synced (nd_admin_q dev') h ((xs @ zs) @ ys)"
    "aq_sq_depth (nd_admin_q dev') = int m" "aq_cq_depth (nd_admin_q dev') = aq_cq_depth (nd_admin_q dev1)" "nd_nr_ns dev' = nd_nr_ns dev1"
    "map answer ys = answered ?rest" by blast
  have "(if int e + 1 = aq_sq_depth (nd_admin_q dev1) then 0 else int e + 1) = int e'" using s(4) Suc.prems(4) by (auto simp: e'_def)
  then have "admin_loop (Suc left) asq (int e) dev = Inr dev'" using at s(1) r(1) by simp
  moreover have "map answer (zs @ ys) = answered cmds" using s(7) r(7) unfolding cmds by (simp add: answered_def)
  ultimately show ?case using r s(5,6) by (intro exI [of _ dev'] exI [of _ "zs @ ys"]) simp
qed

text \<open>
  Rounds of the host on the admin queue: it writes commands, rings the doorbell, the device handles it and the host
  driver collects the completions.  The submission queue may have new contents in every round.
\<close>

fun admin_rounds ::
  "nat \<Rightarrow> ((u16 \<times> admin_cmd) list \<times> nat) list \<Rightarrow> nat \<Rightarrow> nvme_dev \<Rightarrow> nvme_queue \<Rightarrow> (nvme_completion list \<times> nvme_dev \<times> nvme_queue) result" where
  "admin_rounds fuel [] old_db dev h = Inr ([], dev, h)"
| "admin_rounds fuel ((asq, new_db) # rs) old_db dev h =
     bindR (nvmev_proc_admin_sq asq (int new_db) (int old_db) dev) (\<lambda>dev.
     bindR (nvme_process_cq fuel (aq_nvme_cq (nd_admin_q dev)) h) (\<lambda>(seen, h).
     bindR (admin_rounds fuel rs new_db dev h) (\<lambda>(seen', dev, h). Inr (seen @ seen', dev, h))))"

fun round_cmds :: "nat \<Rightarrow> ((u16 \<times> admin_cmd) list \<times> nat) list \<Rightarrow> nat \<Rightarrow> (u16 \<times> admin_cmd) list" where
  "round_cmds m [] old_db = []"
| "round_cmds m ((asq, new_db) # rs) old_db = batch m asq old_db new_db @ round_cmds m rs new_db"

text \<open>Doorbells lie in the ring, no batch is larger than the completion queue, and the device can serve all commands.\<close>

fun rounds_ok :: "nat \<Rightarrow> nat \<Rightarrow> u32 \<Rightarrow> ((u16 \<times> admin_cmd) list \<times> nat) list \<Rightarrow> nat \<Rightarrow> bool" where
  "rounds_ok m d nr_ns [] old_db \<longleftrightarrow> True"
| "rounds_ok m d nr_ns ((asq, new_db) # rs) old_db \<longleftrightarrow> new_db < m \<and> m \<le> length asq \<and> length (batch m asq old_db new_db) \<le> d
     \<and> list_all (\<lambda>(cid, cmd). admin_ok nr_ns cmd) (batch m asq old_db new_db) \<and> rounds_ok m d nr_ns rs new_db"

lemma admin_rounds_synced:
  assumes "dev_wf dev" "admin_cq.synced (nd_admin_q dev) h []" "aq_cq_depth (nd_admin_q dev) = int d" "aq_sq_depth (nd_admin_q dev) = int m"
    "old_db < m" "rounds_ok m d (nd_nr_ns dev) rs old_db"
  shows "\<exists>seen dev' h'. admin_rounds (d + 1) rs old_db dev h = Inr (seen, dev', h') \<and> map answer seen = answered (round_cmds m rs old_db)"
  using assms
proof (induction rs arbitrary: old_db dev h)
  case Nil
  then show ?case by (simp add: answered_def)
next
  case (Cons r rs)
  obtain asq new_db where r: "r = (asq, new_db)" by fastforce
  let ?num = "(new_db + (m - old_db)) mod m"
  have p: "new_db < m" "m \<le> length asq" "length (batch m asq old_db new_db) \<le> d"
    "\<forall>(cid, cmd) \<in> set (batch m asq old_db new_db). admin_ok (nd_nr_ns dev) cmd" "rounds_ok m d (nd_nr_ns dev) rs new_db"
    using Cons.prems(6) unfolding r by (auto simp: list_all_iff)
  have room: "length ([] :: nvme_completion list) + ?num \<le> nat (aq_cq_depth (nd_admin_q dev))" using p(3) Cons.prems(3) by (simp add: batch_def)
  from admin_loop_synced [OF Cons.prems(1,2) room Cons.prems(4,5) p(2) batch_def p(4)]
  obtain dev1 ys where s: "admin_loop ?num asq (int old_db) dev = Inr dev1" "dev_wf dev1" "admin_cq.synced (nd_admin_q dev1) h ys"
    "aq_sq_depth (nd_admin_q dev1) = int m" "aq_cq_depth (nd_admin_q dev1) = int d" "nd_nr_ns dev1 = nd_nr_ns dev"
    "map answer ys = answered (batch m asq old_db new_db)" using Cons.prems(3) by auto
  have num: "?num = (if old_db \<le> new_db then new_db - old_db else new_db + m - old_db)"
    using p(1) Cons.prems(5) by (auto simp: mod_if)
  have "nat (if int new_db - int old_db < 0 then int new_db - int old_db + aq_sq_depth (nd_admin_q dev) else int new_db - int old_db) = ?num"
    using Cons.prems(4,5) unfolding num by auto
  then have dev1: "nvmev_proc_admin_sq asq (int new_db) (int old_db) dev = Inr dev1" using s(1) by (simp add: nvmev_proc_admin_sq_def Let_def)
  have "length ys < d + 1" using admin_cq.syncedD(5) [OF s(3)] s(5) by simp
  with s(3) obtain h1 where h1: "nvme_process_cq (d + 1) (aq_nvme_cq (nd_admin_q dev1)) h = Inr (ys, h1)" "admin_cq.synced (nd_admin_q dev1) h1 []"
    using admin_cq.process_synced [of "nd_admin_q dev1" h ys "d + 1"] by (auto simp del: nvme_process_cq.simps)
  obtain seen dev' h' where "admin_rounds (d + 1) rs new_db dev1 h1 = Inr (seen, dev', h')" "map answer seen = answered (round_cmds m rs new_db)"
    using Cons.IH [OF s(2) h1(2) s(5,4) p(1)] p(5) s(6) by auto
  then show ?case using dev1 h1(1) s(7) unfolding r
    by (intro exI [of _ "ys @ seen"] exI [of _ dev'] exI [of _ h']) (simp add: answered_def del: nvme_process_cq.simps)
qed

text \<open>
  \<^bold>\<open>C15.\<close>  Admin commands are answered.  Over any number of rounds in which the host rings the admin doorbell and then
  collects completions, starting on a fresh completion queue, the host driver finds exactly one completion per
  command, in ring order and with the status the command deserves, except for Abort, which the device never completes;
  both rings may wrap around in any round.  This needs what the source does not check (\<open>rounds_ok\<close>): queue identifiers
  up to 72, existing namespaces, log lengths within the log page; and no batch larger than the completion queue.
\<close>

theorem admin_commands_answered:
  assumes "dev_wf dev" "aq = nd_admin_q dev" "aq_wf aq" "aq_cq_head aq = 0" "aq_phase aq = 1" "aq_cq_depth aq = int d"
    "\<forall>i < d. \<not> phase_bit (aq_nvme_cq aq ! i)" "aq_sq_depth aq = int m" "old_db < m" "rounds_ok m d (nd_nr_ns dev) rs old_db"
  shows "\<exists>seen dev' h'. admin_rounds (d + 1) rs old_db dev (nvme_init_queue (of_nat d)) = Inr (seen, dev', h')
    \<and> map answer seen = answered (round_cmds m rs old_db)"
proof -
  have d: "0 < d" "d < 65536" using assms(3,4,6) by (auto simp: aq_wf_def)
  have "unat (of_nat d :: u32) = d" using d(2) by (simp add: unat_of_nat)
  then have "admin_cq.synced aq (nvme_init_queue (of_nat d)) []"
    using assms(3-7) d by (auto simp: admin_cq.synced_def admin_cq.expected_def admin_cq.slot_def nvme_init_queue_def)
  then show ?thesis using admin_rounds_synced [OF assms(1)] assms(2,6,8-10) by blast
qed

text \<open>
  \<^bold>\<open>C19.\<close>  The queue identifier of a create or delete command comes from the host and is not checked: one above 72 makes
  the device write past its tables of queues.
\<close>

theorem admin_queue_id_unchecked:
  assumes "dev_wf dev" "72 < unat qid"
  shows "proc_admin_req eid cid (Create_cq qid flags qsize cprp) dev = Inl Out_of_bounds
    \<and> proc_admin_req eid cid (Create_sq qid cqid flags qsize sprp) dev = Inl Out_of_bounds
    \<and> proc_admin_req eid cid (Delete_cq qid) dev = Inl Out_of_bounds
    \<and> proc_admin_req eid cid (Delete_sq qid) dev = Inl Out_of_bounds"
  using assms by (simp add: proc_admin_req_out_of_range NR_MAX_IO_QUEUE_def not_le)

section \<open>Concrete queues\<close>

definition zero_cqe :: nvme_completion where
  "zero_cqe = \<lparr>ce_result0 = 0, ce_result1 = 0, ce_sq_head = 0, ce_sq_id = 0, ce_command_id = 0, ce_status = 0\<rparr>"

definition demo_aq :: admin_queue where
  "demo_aq = \<lparr>aq_phase = 1, aq_sq_depth = 4, aq_cq_depth = 4, aq_cq_head = 0, aq_nvme_cq = replicate 256 zero_cqe\<rparr>"

definition demo_nvme :: nvme_dev where
  "demo_nvme = \<lparr>nd_admin_q = demo_aq, nd_sqes = replicate 73 None, nd_cqes = replicate 73 None, nd_nr_sq = 0, nd_nr_cq = 0,
     nd_dbs = \<lambda>_. 0, nd_old_dbs = \<lambda>_. 0, nd_nr_ns = 1\<rparr>"

definition demo_nvme' :: nvme_dev where
  "demo_nvme' = projr (admin_create_cq 1 3 1 (replicate 256 zero_cqe) demo_nvme)"

definition demo_cq :: completion_queue where
  "demo_cq = the (nd_cqes demo_nvme' ! 1)"

definition demo_sq :: submission_queue where
  "demo_sq = \<lparr>sq_qid = 1, sq_cqid = 1, sq_priority = 0, sq_phys_contig = True, sq_queue_size = 4, sq_stat = zero_stat,
     sq_sq = replicate 64 \<lparr>nc_command_id = 9, nc_length = 7\<rparr>\<rparr>"

lemma demo_nvme_wf: "dev_wf demo_nvme"
  by (simp add: dev_wf_def demo_nvme_def NR_MAX_IO_QUEUE_def)

lemma demo_create: "admin_create_cq 1 3 1 (replicate 256 zero_cqe) demo_nvme = Inr demo_nvme'"
  using queue_ops_ok(4) [OF demo_nvme_wf, of 1 3 1 "replicate 256 zero_cqe"]
  by (auto simp: demo_nvme'_def NR_MAX_IO_QUEUE_def)

lemma demo_cq: "nd_cqes demo_nvme' ! unat (1 :: u16) = Some demo_cq" "cq_wf demo_cq"
  using create_cq_fresh [OF demo_create] by (auto simp: NR_CQE_PER_PAGE_def demo_cq_def)

theorem cq_host_roundtrip_witness:
  "\<exists>seen cq' h'. ring_run fill_cq_result cq_cq 3 [Put zero_work, Put zero_work, Poll, Put zero_work, Poll] demo_cq
     (nvme_init_queue 2) = Inr (seen, cq', h') \<and> length seen = 3"
proof -
  let ?acts = "[Put zero_work, Put zero_work, Poll, Put zero_work, Poll]"
  have "\<exists>seen cq' h'. ring_run fill_cq_result cq_cq (unat (1 :: u16) + 2) ?acts demo_cq (nvme_init_queue (ucast (1 :: u16) + 1))
        = Inr (seen, cq', h') \<and> list_all2 (\<lambda>e w. \<exists>phase. e = cqe_of w phase) seen (ring_puts ?acts)"
    by (rule cq_host_roundtrip [OF demo_create _ _ _ demo_cq(1)])
      (auto simp: NR_CQE_PER_PAGE_def zero_cqe_def phase_bit_def)
  note run = this
  have "unat (1 :: u16) + 2 = 3" "ucast (1 :: u16) + 1 = (2 :: u32)" by simp_all
  from run [unfolded this] obtain seen cq' h' where r: "ring_run fill_cq_result cq_cq 3 ?acts demo_cq (nvme_init_queue 2) = Inr (seen, cq', h')"
    "list_all2 (\<lambda>e w. \<exists>phase. e = cqe_of w phase) seen (ring_puts ?acts)" by blast
  moreover have "length seen = 3" using list_all2_lengthD [OF r(2)] by simp
  ultimately show ?thesis by blast
qed

theorem cq_head_race_witness:
  "\<exists>cq1 cq2. fill_cq_locked zero_work 0 demo_cq = Inr cq1
     \<and> fill_cq_locked (zero_work\<lparr>w_command_id := 5\<rparr>) 0 cq1 = Inr cq2 \<and> cq_cq_head cq2 = 1"
  using cq_head_race [OF demo_cq(2), of 0 zero_work "zero_work\<lparr>w_command_id := 5\<rparr>"] create_cq_fresh [OF demo_create] demo_cq(1)
  by (auto simp: NR_CQE_PER_PAGE_def)

theorem proc_io_cq_wrap_witness:
  "nvmev_proc_io_cq (demo_cq\<lparr>cq_queue_size := 256, cq_cq := replicate 256 zero_cqe\<rparr>) 0 255 [None] = Inl Out_of_bounds"
  using proc_io_cq_wrap [of "demo_cq\<lparr>cq_queue_size := 256, cq_cq := replicate 256 zero_cqe\<rparr>" 256 "[None]" 0 255]
  by (simp add: NR_CQE_PER_PAGE_def zero_cqe_def)

text \<open>A handler that releases a write buffer for every command and adds up the command ids.\<close>

definition demo_handler :: "nat proc_cmd" where
  "demo_handler cmd sqid now ret ftl = (True, ret, [Release_buffer sqid 0 now now (Some 0) 4096], ftl + unat (nc_command_id cmd))"

theorem proc_io_sq_in_order_witness:
  "\<exists>sq' (s' :: io_sys). nvmev_proc_io_sq demo_handler (\<lambda>_. (100, 100)) 1 1 3 (Some demo_sq) (sy_dev (demo_sys 3), 0) =
     Inr (1, Some sq', sy_dev s', 18)"
proof -
  let ?cmds = "[\<lparr>nc_command_id = 9, nc_length = 7\<rparr>, \<lparr>nc_command_id = 9, nc_length = 7\<rparr>]"
  have h: "only_releases demo_handler" "serve demo_handler (\<lambda>_. (100, 100)) 1 ?cmds 0 0 = (2, 18)"
    by (simp_all add: only_releases_def demo_handler_def)
  have "?cmds = map (\<lambda>j. sq_sq demo_sq ! ((3 + j) mod 4)) [0..<2]" by (simp add: demo_sq_def upt_rec)
  from proc_io_sq_in_order [OF demo_reach _ _ _ _ _ _ _ this h(2,1), of 3 1] show ?thesis by (simp add: demo_sq_def) blast
qed

text \<open>Two rounds on queues of four entries, in which both rings wrap around.\<close>

theorem admin_commands_answered_witness:
  "\<exists>seen dev' h'. admin_rounds 5 [([(7, Identify 1 0), (8, Abort_cmd), (9, Create_cq 1 3 1 []), (0, Async_event)], 3),
      ([(11, Other_admin 9), (12, Identify 0 1), (0, Async_event), (10, Get_log_page 2 127 0)], 2)] 0 demo_nvme (nvme_init_queue 4)
      = Inr (seen, dev', h') \<and> map answer seen = [(7, 0), (9, 0), (10, 0), (11, 1), (12, 0)]"
proof -
  let ?rs = "[([(7, Identify 1 0), (8, Abort_cmd), (9, Create_cq 1 3 1 []), (0, Async_event)], 3),
      ([(11, Other_admin 9), (12, Identify 0 1), (0, Async_event), (10, Get_log_page 2 127 0)], 2)]"
  have ok: "rounds_ok 4 4 (nd_nr_ns demo_nvme) ?rs 0" "answered (round_cmds 4 ?rs 0) = [(7, 0), (9, 0), (10, 0), (11, 1), (12, 0)]"
    by (simp_all add: batch_def answered_def upt_rec log_len_def demo_nvme_def NR_MAX_IO_QUEUE_def)
  have aq: "aq_wf demo_aq" "aq_cq_head demo_aq = 0" "aq_phase demo_aq = 1" "aq_cq_depth demo_aq = int 4" "aq_sq_depth demo_aq = int 4"
    "\<forall>i < 4. \<not> phase_bit (aq_nvme_cq demo_aq ! i)" "demo_aq = nd_admin_q demo_nvme"
    by (simp_all add: demo_aq_def demo_nvme_def aq_wf_def zero_cqe_def phase_bit_def)
  show ?thesis using admin_commands_answered [OF demo_nvme_wf aq(7,1-4,6,5) _ ok(1)] ok(2)
    by (simp del: admin_rounds.simps)
qed

theorem admin_queue_id_unchecked_witness: "proc_admin_req 0 7 (Delete_cq 73) demo_nvme = Inl Out_of_bounds"
  using admin_queue_id_unchecked [OF demo_nvme_wf, of 73 0 7] by simp

end
