(* ===== verification/Spec2Isabelle.thy ===== *)
theory Spec2Isabelle
  imports Fifo ChanModel Lru City TwoLevel FtlFlaws NvmeQueues
begin

text \<open>
  A verification development for the key-value SSD emulator VirtKV (\<^verbatim>\<open>src/nvmevirt\<close>), a Linux kernel
  module that presents itself as an NVMe key-value device and computes, for every command, when a
  real device would have completed it.

  \<^bold>\<open>The program and its parts.\<close>  A dispatcher thread takes commands from the submission queues
  (\<^verbatim>\<open>main.c\<close>, \<^verbatim>\<open>io.c\<close>) and hands them to the demand-based flash translation layer
  (\<^verbatim>\<open>demand_ftl.c\<close>), which hashes the key (\<^verbatim>\<open>city.c\<close>) to a hash index, finds the grain of that index
  through a cache of hash table sections (\<^verbatim>\<open>cache.c\<close>; in the Plus build each section is a
  \<^verbatim>\<open>twolevel.c\<close> table), writes the pair to the next free page of the current line and marks the old
  grains invalid.  Lines with invalid grains wait in a priority queue (\<^verbatim>\<open>pqueue/pqueue.c\<close>) for the
  garbage collector; sections to be evicted wait in a ring buffer (\<^verbatim>\<open>fifo.c\<close>); append buffers are kept
  by an LRU list (\<^verbatim>\<open>lru.c\<close>).  Time comes from a model of the NAND dies and the channels
  (\<^verbatim>\<open>ssd.c\<close>, \<^verbatim>\<open>channel_model.c\<close>).

  \<^bold>\<open>Theories and the code they model.\<close>

  \<^item> \<open>VPrelude\<close>: machine integers, the fault type, the result type \<open>fault + 'a\<close> every C function
    that can assert, dereference NULL, leave an array, divide by zero, deadlock or diverge returns, and
    shared lemmas.
  \<^item> \<open>PQueue\<close> (\<^verbatim>\<open>pqueue.c\<close>): the binary heap with its callbacks as parameters, on an array that
    has an unused slot 0.  The locale \<open>pq_store\<close> states what a client must provide (an order on
    priorities, position bookkeeping) and proves the priority queue laws once;
    \<open>pqueue_is_valid_iff\<close> shows that the recursive check of the code is the heap condition.
  \<^item> \<open>Fifo\<close> (\<^verbatim>\<open>fifo.c\<close>): the ring buffer with its wrapping indices; the locale \<open>bounded_queue\<close> is the
    contract of a bounded FIFO queue, interpreted on the code's operations.
  \<^item> \<open>ChanModel\<close> (\<^verbatim>\<open>channel_model.c\<close>): the ring of transfer credits of a channel, at the width of
    the C types; invariant, totality, and which slots a request takes its credits from, exactly.
  \<^item> \<open>Ssd\<close> (\<^verbatim>\<open>ssd.c\<close>, \<^verbatim>\<open>ssd.h\<close>, \<^verbatim>\<open>ssd_config.h\<close>): geometry, device construction, NAND and PCIe timing
    and the write buffer; the locale \<open>xfer_link\<close> is the contract of a transfer link, interpreted on
    the NAND channels and on the PCIe link.
  \<^item> \<open>Lru\<close> (\<^verbatim>\<open>lru.c\<close>): the doubly linked list on an explicit heap of items; the locale \<open>recency_list\<close>
    is the abstract recency list it refines.
  \<^item> \<open>City\<close> (\<^verbatim>\<open>city.c\<close>): all hash functions over an explicit byte array with bounds-checked loads.
  \<^item> \<open>TwoLevel\<close> (\<^verbatim>\<open>twolevel.c\<close>): the two-level table as the words of its page, with the pointer
    arithmetic of the code; its representation invariant (\<open>table_ok\<close>), the refinement of a finite map, and the fast
    fill of whole sections (the table part of \<^verbatim>\<open>__fast_fill\<close> in \<^verbatim>\<open>demand_ftl.c\<close>).
  \<^item> \<open>FtlAddr\<close> (\<^verbatim>\<open>demand_ftl.c\<close>): conversion between page numbers and \<^verbatim>\<open>struct ppa\<close>, the order in which the
    pages of a line are written, the test whether a pair fits the current stripe.
  \<^item> \<open>FtlLines\<close>: lines, write pointers, grain and page state, victim selection, closing a stripe and
    the boot sequence \<^verbatim>\<open>conv_init_ftl\<close>; the interpretation \<open>victim\<close> of \<open>pq_store\<close> on the victim
    queue's callbacks.
  \<^item> \<open>FtlInv\<close>, \<open>FtlShard\<close>, \<open>FtlSteps\<close>: the invariant \<open>shard_ok\<close> of line management (every line is in exactly
    one place, the counters and the heap are right, the write pointers stand where the pages handed
    out end) and that every operation keeps it.
  \<^item> \<open>FtlReach\<close>: the reachable states of line management (\<open>ftl_reach\<close>, an inductive relation over the
    operations in any order and with any arguments).  Its flag \<open>lawful\<close> records whether the calls so far marked grains
    valid only within the pages handed out, started no invalidation that spans pages on a full line, and freed only
    selected victims.  The source checks none of the three; its callers keep the first and the third, not the second.
    The properties of the theory hold in all states of lawful runs.
  \<^item> \<open>FtlFlaws\<close>: what two steps do to line management, from any state of a lawful run: an invalidation that spans pages
    of a full line queues the line once per page, and grains counted on a line that is already queued leave the
    victim queue out of order.  Runs on a small booted device reach both.

  \<^item> \<open>IoQueue\<close> (\<^verbatim>\<open>io.c\<close>): the work items of an I/O worker, chained by index into a free list and a list in
    flight: allocation, ordered insertion, the three enqueueing functions, reclaiming, and the
    worker's rounds; the chain lemmas and the well-formedness \<open>worker_ok\<close>.
  \<^item> \<open>IoReach\<close>: dispatcher, workers and reclaimer running together (\<open>io_reach\<close>, any interleaving of their
    steps), the invariant, and the properties of the reachable states: the lists partition the items, requests are
    neither lost nor posted twice, passes end and complete what is due, the order of the list.
  \<^item> \<open>NvmeQueues\<close> (\<^verbatim>\<open>io.c\<close>, \<^verbatim>\<open>admin.c\<close>, \<^verbatim>\<open>main.c\<close> and the completion side of the host driver's \<^verbatim>\<open>pci.c\<close>):
    completion queues, queue creation and deletion, admin commands (with the memory that identify and log page commands
    read) and doorbells.  The namespace's command handler is an argument that answers with its result and the internal
    operations it schedules on the workers.  The locale \<open>phase_ring\<close> is
    the contract of a completion ring with a phase bit; it is interpreted on the I/O completion queues and
    on the admin queue and shows that the host sees exactly what was posted.

  \<^bold>\<open>State and effects.\<close>  A C struct is a record, a pointer into an array an index, a kernel list a list
  of indices; where aliasing matters (\<open>Lru\<close>, \<open>PQueue\<close>, \<open>TwoLevel\<close>) the memory itself is explicit.  Spin
  locks are flags and taking a held one is the fault \<open>Deadlock\<close>.  Operations are the atomic steps of
  the model; \<open>FtlReach\<close> and \<open>IoReach\<close> let them follow each other in any order, but what two threads do
  inside two operations is interleaved only for \<^verbatim>\<open>__fill_cq_result\<close>, which is split at its lock.  Log messages and
  the kernel's warnings are left out.

  \<^bold>\<open>Loops and bounds.\<close>  Every loop is a total function: structural recursion, recursion with a
  measure, or recursion that ends because each round makes an access that is checked against the end
  of an array (\<open>City\<close>).  The walks along the chains of work items, the host's completion loop and the
  completion doorbell take fuel: the length of the array, which bounds every chain because the items of a chain are
  distinct, and the queue size plus one or two; running out of it is the fault \<open>Diverges\<close>, and the
  theorems show it does not happen.  The theorems state that the operations return, not only what they return.
  The build parameters are those of \<^verbatim>\<open>ssd_config.h\<close> for the hash-based demand FTL; \<open>build\<close> selects between the
  Original and the Plus variant.

  \<^bold>\<open>Parameters.\<close>  Code outside the repository appears as an argument: the kernel's \<^verbatim>\<open>sort\<close>
  (\<open>sorts_by_hidx\<close> states its contract), the CRC instruction of the SSE4.2 hashes, the clock of the
  timing model and of the workers, the results of memory allocation.  The namespace's command
  handler, the callbacks and the data copy of a request are arguments of the dispatcher's model.

  \<^bold>\<open>Not modelled.\<close>  The request paths of \<^verbatim>\<open>demand_ftl.c\<close> (store, retrieve, delete, batch, the copying part of the
  garbage collector, eviction of mapping pages) and the section cache (\<^verbatim>\<open>cache.c\<close>) are not modelled.  Of
  \<^verbatim>\<open>io.c\<close> the data copies \<^verbatim>\<open>__do_perform_io\<close> to and from host memory and the interrupt signalling are left
  out, of \<^verbatim>\<open>admin.c\<close> what identify and log page commands write to the host's pages, and of \<^verbatim>\<open>__update_map\<close> the allotment of flash
  space for a grown table and the log of invalidated mappings.  Module setup, the emulated PCI bus and the DMA
  engine are calls into the kernel; the rest of \<^verbatim>\<open>drivers/\<close> is a copy of the Linux host driver with unit
  tests and not part of the device.
\<close>

end
